(* ===== verification/Prelude.thy ===== *)
theory Prelude
  imports "HOL-Library.Word"
begin

unbundle bit_operations_syntax

text \<open>
  Shared vocabulary of the development: byte strings, fixed-width big- and
  little-endian integer codecs, slices of byte buffers, and Rust's
  \<open>Result\<close>, together with the generic facts about them.

  A Rust \<open>u8\<close>, \<open>u16\<close>, \<open>u32\<close>, \<open>u64\<close>, \<open>u128\<close> is a \<^typ>\<open>8 word\<close>, \<^typ>\<open>16 word\<close>,
  \<^typ>\<open>32 word\<close>, \<^typ>\<open>64 word\<close>, \<^typ>\<open>128 word\<close>; a \<open>usize\<close> that indexes a buffer is a
  \<^typ>\<open>nat\<close>; a \<open>Result<T, E>\<close> is \<open>'e + 't\<close> with \<^const>\<open>Inl\<close> the error.
\<close>

named_theorems byte_simps \<open>lengths and entries of slices and overwritten buffers\<close>
named_theorems codec_simps \<open>round trips of the fixed-width integer codecs\<close>

type_synonym byte = "8 word"
type_synonym bytes = "byte list"

section \<open>Results\<close>

definition and_then :: "'e + 'a \<Rightarrow> ('a \<Rightarrow> 'e + 'b) \<Rightarrow> 'e + 'b" where
  "and_then r f = (case r of Inl e \<Rightarrow> Inl e | Inr x \<Rightarrow> f x)"

definition ok_or :: "'e \<Rightarrow> 'a option \<Rightarrow> 'e + 'a" where
  "ok_or e x = (case x of None \<Rightarrow> Inl e | Some y \<Rightarrow> Inr y)"

lemma and_then_simps [simp]:
  "and_then (Inl e) f = Inl e"
  "and_then (Inr x) f = f x"
  by (simp_all add: and_then_def)

lemma ok_or_simps [simp]:
  "ok_or e None = Inl e"
  "ok_or e (Some x) = Inr x"
  by (simp_all add: ok_or_def)

lemma and_then_eq_Inr_iff:
  "and_then r f = Inr y \<longleftrightarrow> (\<exists>x. r = Inr x \<and> f x = Inr y)"
  by (cases r) simp_all

lemma and_then_assoc: "and_then (and_then r f) g = and_then r (\<lambda>x. and_then (f x) g)"
  by (cases r) simp_all

section \<open>Overflow-checked arithmetic\<close>

text \<open>\<open>None\<close> is the arithmetic-overflow panic of a checked build (and the \<open>None\<close> of Rust's
  \<open>checked_add\<close> and \<open>checked_sub\<close>).\<close>

definition checked_add :: "'a::len word \<Rightarrow> 'a word \<Rightarrow> 'a word option" where
  "checked_add a b = (if unat a + unat b < 2 ^ LENGTH('a) then Some (a + b) else None)"

definition checked_sub :: "'a::len word \<Rightarrow> 'a word \<Rightarrow> 'a word option" where
  "checked_sub a b = (if b \<le> a then Some (a - b) else None)"

lemma checked_add_SomeD: "checked_add a b = Some c \<Longrightarrow> unat c = unat a + unat b"
  by (auto simp: checked_add_def unat_word_ariths split: if_splits)

lemma checked_sub_SomeD: "checked_sub a b = Some c \<Longrightarrow> unat b \<le> unat a \<and> unat c = unat a - unat b"
  by (auto simp: checked_sub_def unat_sub word_le_nat_alt split: if_splits)

section \<open>Slices and in-place writes\<close>

text \<open>\<open>sub_bytes a b xs\<close> is Rust's \<open>&xs[a..b]\<close>; \<open>copy_at i src xs\<close> is
  \<open>xs[i..i + src.len()].copy_from_slice(src)\<close>.\<close>

definition sub_bytes :: "nat \<Rightarrow> nat \<Rightarrow> 'a list \<Rightarrow> 'a list" where
  "sub_bytes a b xs = take (b - a) (drop a xs)"

definition copy_at :: "nat \<Rightarrow> 'a list \<Rightarrow> 'a list \<Rightarrow> 'a list" where
  "copy_at i src xs = take i xs @ src @ drop (i + length src) xs"

lemma length_sub_bytes [byte_simps]: "length (sub_bytes a b xs) = min (b - a) (length xs - a)"
  by (simp add: sub_bytes_def)

lemma nth_sub_bytes [byte_simps]:
  "i < b - a \<Longrightarrow> b \<le> length xs \<Longrightarrow> sub_bytes a b xs ! i = xs ! (a + i)"
  by (simp add: sub_bytes_def)

lemma sub_bytes_eq_iff:
  assumes "b \<le> length xs" and "b \<le> length ys"
  shows "sub_bytes a b xs = sub_bytes a b ys \<longleftrightarrow> (\<forall>i. a \<le> i \<and> i < b \<longrightarrow> xs ! i = ys ! i)"
proof
  assume eq: "sub_bytes a b xs = sub_bytes a b ys"
  show "\<forall>i. a \<le> i \<and> i < b \<longrightarrow> xs ! i = ys ! i"
  proof (intro allI impI)
    fix i assume "a \<le> i \<and> i < b"
    then have "sub_bytes a b xs ! (i - a) = xs ! i" "sub_bytes a b ys ! (i - a) = ys ! i"
      using assms by (auto simp: sub_bytes_def)
    then show "xs ! i = ys ! i" using eq by simp
  qed
next
  assume "\<forall>i. a \<le> i \<and> i < b \<longrightarrow> xs ! i = ys ! i"
  then show "sub_bytes a b xs = sub_bytes a b ys"
    using assms by (intro nth_equalityI) (simp_all add: sub_bytes_def)
qed

lemma length_copy_at [byte_simps]:
  "i + length src \<le> length xs \<Longrightarrow> length (copy_at i src xs) = length xs"
  by (simp add: copy_at_def)

lemma nth_copy_at [byte_simps]:
  assumes "i + length src \<le> length xs" and "j < length xs"
  shows "copy_at i src xs ! j =
    (if i \<le> j \<and> j < i + length src then src ! (j - i) else xs ! j)"
  using assms by (auto simp: copy_at_def nth_append min_def)

lemma take_copy_at [byte_simps]:
  "n \<le> i \<Longrightarrow> i \<le> length xs \<Longrightarrow> take n (copy_at i src xs) = take n xs"
  by (simp add: copy_at_def min_def)

lemma drop_copy_at [byte_simps]:
  "i + length src \<le> n \<Longrightarrow> n \<le> length xs \<Longrightarrow> drop n (copy_at i src xs) = drop n xs"
  by (simp add: copy_at_def)

lemma drop_copy_at_inside [byte_simps]:
  "n \<le> i \<Longrightarrow> i \<le> length xs \<Longrightarrow> drop n (copy_at i src xs) = copy_at (i - n) src (drop n xs)"
  by (simp add: copy_at_def drop_take)

lemma take_copy_at_inside [byte_simps]:
  "i + length src \<le> n \<Longrightarrow> i \<le> length xs \<Longrightarrow>
    take n (copy_at i src xs) = copy_at i src (take n xs)"
  by (simp add: copy_at_def take_drop min_absorb1)

lemma sub_bytes_copy_at_same [byte_simps]:
  "i + length src \<le> length xs \<Longrightarrow> b = i + length src \<Longrightarrow> sub_bytes i b (copy_at i src xs) = src"
  by (simp add: copy_at_def sub_bytes_def)

lemma copy_at_sub_bytes_id:
  assumes "i \<le> b" and "b \<le> length xs"
  shows "copy_at i (sub_bytes i b xs) xs = xs"
proof -
  have "take i xs @ take (b - i) (drop i xs) = take b xs"
    using assms take_add [of i "b - i" xs] by simp
  then have "(take i xs @ take (b - i) (drop i xs)) @ drop b xs = xs" by simp
  then show ?thesis using assms by (simp add: copy_at_def sub_bytes_def)
qed

lemma copy_at_append_left:
  "i + length src \<le> length xs \<Longrightarrow> copy_at i src (xs @ ys) = copy_at i src xs @ ys"
  by (simp add: copy_at_def)

section \<open>Fixed-width integer codecs\<close>

fun be_nat :: "bytes \<Rightarrow> nat" where
  "be_nat [] = 0"
| "be_nat (b # bs) = unat b * 256 ^ length bs + be_nat bs"

primrec be_list :: "nat \<Rightarrow> nat \<Rightarrow> bytes" where
  "be_list 0 x = []"
| "be_list (Suc n) x = be_list n (x div 256) @ [of_nat x]"

definition from_be_bytes :: "bytes \<Rightarrow> 'a::len word" where
  "from_be_bytes bs = of_nat (be_nat bs)"

definition to_be_bytes :: "'a::len word \<Rightarrow> bytes" where
  "to_be_bytes w = be_list (LENGTH('a) div 8) (unat w)"

definition from_le_bytes :: "bytes \<Rightarrow> 'a::len word" where
  "from_le_bytes bs = from_be_bytes (rev bs)"

definition to_le_bytes :: "'a::len word \<Rightarrow> bytes" where
  "to_le_bytes w = rev (to_be_bytes w)"

lemma length_be_list [simp]: "length (be_list n x) = n"
  by (induction n arbitrary: x) simp_all

lemma be_nat_append: "be_nat (xs @ ys) = be_nat xs * 256 ^ length ys + be_nat ys"
  by (induction xs) (simp_all add: algebra_simps power_add)

lemma unat_less_exp: "unat (w :: 'a::len word) < 2 ^ LENGTH('a)"
  by (rule unsigned_less)

lemma unat_byte_less [simp]: "unat (b :: byte) < 256"
  using unat_less_exp [of b] by simp

lemma be_nat_less: "be_nat bs < 256 ^ length bs"
proof (induction bs)
  case (Cons b bs)
  have "unat b * 256 ^ length bs + be_nat bs < unat b * 256 ^ length bs + 256 ^ length bs"
    using Cons by simp
  also have "\<dots> = (unat b + 1) * 256 ^ length bs" by simp
  also have "\<dots> \<le> 256 * 256 ^ length bs"
    using unat_byte_less [of b] by (intro mult_right_mono) linarith+
  finally show ?case by simp
qed simp

lemma unat_of_nat_byte [simp]: "unat (of_nat x :: byte) = x mod 256"
  by (simp add: unat_of_nat)

lemma be_nat_be_list: "be_nat (be_list n x) = x mod 256 ^ n"
proof (induction n arbitrary: x)
  case (Suc n)
  have "x mod 256 ^ Suc n = x mod (256 * 256 ^ n)" by simp
  also have "\<dots> = 256 * (x div 256 mod 256 ^ n) + x mod 256" by (rule mod_mult2_eq)
  finally show ?case by (simp add: be_nat_append Suc)
qed simp

lemma be_list_be_nat: "be_list (length bs) (be_nat bs) = bs"
proof (induction bs rule: rev_induct)
  case (snoc b bs)
  have "(be_nat bs * 256 + unat b) div 256 = be_nat bs"
    using unat_byte_less [of b] by simp
  moreover have "(of_nat (be_nat bs * 256 + unat b) :: byte) = b"
    by (rule word_unat_eq_iff [THEN iffD2]) (simp only: unat_of_nat_byte, simp add: mod_less)
  ultimately show ?case using snoc by (simp add: be_nat_append)
qed simp

text \<open>The codec interface: an injective fixed-width encoding with a decoder that
  inverts it and is itself inverted on inputs of the right width.\<close>

locale fixed_codec =
  fixes enc :: "'v \<Rightarrow> bytes" and dec :: "bytes \<Rightarrow> 'v" and width :: nat
  assumes enc_length: "length (enc v) = width"
    and dec_enc: "dec (enc v) = v"
    and enc_dec: "length bs = width \<Longrightarrow> enc (dec bs) = bs"
begin

lemma enc_inject: "enc v = enc w \<longleftrightarrow> v = w"
  by (metis dec_enc)

lemma dec_inject: "length bs = width \<Longrightarrow> length cs = width \<Longrightarrow> dec bs = dec cs \<longleftrightarrow> bs = cs"
  by (metis enc_dec)

lemma dec_take: "dec (take width (enc v @ rest)) = v"
  by (simp add: enc_length dec_enc)

lemma drop_enc: "drop width (enc v @ rest) = rest"
  by (simp add: enc_length)

lemma dec_sub_bytes_copy_at:
  "i + width \<le> length xs \<Longrightarrow> dec (sub_bytes i (i + width) (copy_at i (enc v) xs)) = v"
  by (simp add: sub_bytes_copy_at_same enc_length dec_enc)

end

lemma unat_from_be_bytes:
  "8 * length bs \<le> LENGTH('a) \<Longrightarrow> unat (from_be_bytes bs :: 'a::len word) = be_nat bs"
proof -
  assume "8 * length bs \<le> LENGTH('a)"
  then have "(2::nat) ^ (8 * length bs) \<le> 2 ^ LENGTH('a)" by (intro power_increasing) simp_all
  then have "(256::nat) ^ length bs \<le> 2 ^ LENGTH('a)" by (simp add: power_mult)
  then show ?thesis
    using be_nat_less [of bs] by (simp add: from_be_bytes_def unat_of_nat)
qed

lemma length_to_be_bytes [codec_simps]:
  "length (to_be_bytes (w :: 'a::len word)) = LENGTH('a) div 8"
  by (simp add: to_be_bytes_def)

lemma from_be_to_be:
  assumes "LENGTH('a::len) = 8 * n"
  shows "from_be_bytes (to_be_bytes (w :: 'a word)) = w"
proof -
  have "(256::nat) ^ n = 2 ^ LENGTH('a)" using assms by (simp add: power_mult)
  then have "be_nat (be_list n (unat w)) = unat w"
    using unat_less_exp [of w] by (simp only: be_nat_be_list) simp
  then show ?thesis using assms by (simp add: from_be_bytes_def to_be_bytes_def)
qed

lemma to_be_from_be:
  assumes "LENGTH('a::len) = 8 * length bs"
  shows "to_be_bytes (from_be_bytes bs :: 'a word) = bs"
  using assms by (simp add: to_be_bytes_def unat_from_be_bytes be_list_be_nat)

lemma be_codec:
  assumes "LENGTH('a::len) = 8 * n"
  shows "fixed_codec (to_be_bytes :: 'a word \<Rightarrow> bytes) from_be_bytes n"
  using assms by unfold_locales
    (simp_all add: length_to_be_bytes from_be_to_be to_be_from_be)

lemma le_codec:
  assumes "LENGTH('a::len) = 8 * n"
  shows "fixed_codec (to_le_bytes :: 'a word \<Rightarrow> bytes) from_le_bytes n"
  using assms by unfold_locales
    (simp_all add: to_le_bytes_def from_le_bytes_def length_to_be_bytes from_be_to_be
      to_be_from_be)

interpretation be16: fixed_codec "to_be_bytes :: 16 word \<Rightarrow> bytes" from_be_bytes 2
  by (rule be_codec) simp

interpretation be32: fixed_codec "to_be_bytes :: 32 word \<Rightarrow> bytes" from_be_bytes 4
  by (rule be_codec) simp

interpretation be64: fixed_codec "to_be_bytes :: 64 word \<Rightarrow> bytes" from_be_bytes 8
  by (rule be_codec) simp

interpretation be128: fixed_codec "to_be_bytes :: 128 word \<Rightarrow> bytes" from_be_bytes 16
  by (rule be_codec) simp

interpretation le16: fixed_codec "to_le_bytes :: 16 word \<Rightarrow> bytes" from_le_bytes 2
  by (rule le_codec) simp

lemmas be_codec_simps [codec_simps] =
  be16.dec_enc be32.dec_enc be64.dec_enc be128.dec_enc le16.dec_enc
  be16.enc_length be32.enc_length be64.enc_length be128.enc_length le16.enc_length

lemma length2_conv: "length xs = 2 \<Longrightarrow> xs = [xs ! 0, xs ! 1]"
  by (cases xs; cases "tl xs") auto

lemma to_le_bytes16_nth [codec_simps]:
  "from_le_bytes [to_le_bytes (w :: 16 word) ! 0, to_le_bytes w ! Suc 0] = w"
  using le16.dec_enc [of w] length2_conv [OF le16.enc_length [of w]] by simp

end
