(* ===== verification/Ip_Net.thy ===== *)
theory Ip_Net
  imports Prelude
begin

unbundle bit_operations_syntax

text \<open>
  Addresses and networks.  An \<open>Ipv4Addr\<close> is a \<^typ>\<open>32 word\<close>, an \<open>Ipv6Addr\<close> a
  \<^typ>\<open>128 word\<close>, an \<open>IpAddr\<close> the tagged union of both.  CIDR networks come from the
  \<open>ipnet\<close> crate, which is not part of the repository: the network type stays a type
  variable and its methods are the fields of a record passed to every definition that
  uses them.  The predicates \<open>lawful_net\<close> and \<open>lawful_ipnet\<close> state the documented
  behaviour of the crate; \<open>cidr_net\<close> is a concrete instance that satisfies them.
\<close>

datatype ip_addr = V4 "32 word" | V6 "128 word"

datatype ('n4, 'n6) ip_net = Net4 'n4 | Net6 'n6

record ('n, 'a) net_ops =
  network :: "'n \<Rightarrow> 'a"
  broadcast :: "'n \<Rightarrow> 'a"
  prefix_len :: "'n \<Rightarrow> nat"
  contains :: "'n \<Rightarrow> 'a \<Rightarrow> bool"
  new_net :: "'a \<Rightarrow> nat \<Rightarrow> 'n option"
  trunc_net :: "'n \<Rightarrow> 'n"

record ('n4, 'n6) ipnet =
  ops4 :: "('n4, 32 word) net_ops"
  ops6 :: "('n6, 128 word) net_ops"
  opsx :: "(('n4, 'n6) ip_net, ip_addr) net_ops"

section \<open>Documented behaviour of the network type\<close>

definition host_mask :: "('n, 'a::len word) net_ops \<Rightarrow> 'n \<Rightarrow> 'a word" where
  "host_mask ops n = mask (LENGTH('a) - prefix_len ops n)"

definition lawful_net :: "('n, 'a::len word) net_ops \<Rightarrow> bool" where
  "lawful_net ops \<longleftrightarrow> (\<forall>n.
     prefix_len ops n \<le> LENGTH('a) \<and>
     network ops n AND host_mask ops n = 0 \<and>
     broadcast ops n = network ops n OR host_mask ops n \<and>
     (\<forall>a. contains ops n a \<longleftrightarrow> a AND NOT (host_mask ops n) = network ops n) \<and>
     prefix_len ops (trunc_net ops n) = prefix_len ops n \<and>
     network ops (trunc_net ops n) = network ops n) \<and>
   (\<forall>a p. case new_net ops a p of
       None \<Rightarrow> p > LENGTH('a)
     | Some n \<Rightarrow> p \<le> LENGTH('a) \<and> prefix_len ops n = p \<and>
         network ops n = a AND NOT (mask (LENGTH('a) - p)))"

definition lawful_ipnet :: "('n4, 'n6) ipnet \<Rightarrow> bool" where
  "lawful_ipnet lib \<longleftrightarrow> lawful_net (ops4 lib) \<and> lawful_net (ops6 lib) \<and>
    (\<forall>n. prefix_len (opsx lib) (Net4 n) = prefix_len (ops4 lib) n \<and>
         network (opsx lib) (Net4 n) = V4 (network (ops4 lib) n) \<and>
         (\<forall>a. contains (opsx lib) (Net4 n) (V4 a) \<longleftrightarrow> contains (ops4 lib) n a) \<and>
         (\<forall>a. \<not> contains (opsx lib) (Net4 n) (V6 a))) \<and>
    (\<forall>n. prefix_len (opsx lib) (Net6 n) = prefix_len (ops6 lib) n \<and>
         network (opsx lib) (Net6 n) = V6 (network (ops6 lib) n) \<and>
         (\<forall>a. contains (opsx lib) (Net6 n) (V6 a) \<longleftrightarrow> contains (ops6 lib) n a) \<and>
         (\<forall>a. \<not> contains (opsx lib) (Net6 n) (V4 a)))"

text \<open>A concrete instance: a network is an address and a prefix length.\<close>

definition cidr_net :: "('a::len word \<times> nat, 'a word) net_ops" where
  "cidr_net = \<lparr>
     network = (\<lambda>(a, p). a AND NOT (mask (LENGTH('a) - p))),
     broadcast = (\<lambda>(a, p). a AND NOT (mask (LENGTH('a) - p)) OR mask (LENGTH('a) - p)),
     prefix_len = (\<lambda>(a, p). min p (LENGTH('a))),
     contains = (\<lambda>(a, p) x. x AND NOT (mask (LENGTH('a) - p)) = a AND NOT (mask (LENGTH('a) - p))),
     new_net = (\<lambda>a p. if p \<le> LENGTH('a) then Some (a, p) else None),
     trunc_net = (\<lambda>(a, p). (a AND NOT (mask (LENGTH('a) - p)), p)) \<rparr>"

definition cidr_ipnet :: "(32 word \<times> nat, 128 word \<times> nat) ipnet" where
  "cidr_ipnet = \<lparr> ops4 = cidr_net, ops6 = cidr_net,
     opsx = \<lparr>
       network = (\<lambda>n. case n of Net4 m \<Rightarrow> V4 (network cidr_net m) | Net6 m \<Rightarrow> V6 (network cidr_net m)),
       broadcast = (\<lambda>n. case n of Net4 m \<Rightarrow> V4 (broadcast cidr_net m) | Net6 m \<Rightarrow> V6 (broadcast cidr_net m)),
       prefix_len = (\<lambda>n. case n of Net4 m \<Rightarrow> prefix_len cidr_net m | Net6 m \<Rightarrow> prefix_len cidr_net m),
       contains = (\<lambda>n x. case (n, x) of
           (Net4 m, V4 a) \<Rightarrow> contains cidr_net m a
         | (Net6 m, V6 a) \<Rightarrow> contains cidr_net m a
         | _ \<Rightarrow> False),
       new_net = (\<lambda>x p. case x of
           V4 a \<Rightarrow> map_option Net4 (new_net cidr_net a p)
         | V6 a \<Rightarrow> map_option Net6 (new_net cidr_net a p)),
       trunc_net = (\<lambda>n. case n of Net4 m \<Rightarrow> Net4 (trunc_net cidr_net m) | Net6 m \<Rightarrow> Net6 (trunc_net cidr_net m)) \<rparr> \<rparr>"

lemma lawful_cidr_net: "lawful_net (cidr_net :: ('a::len word \<times> nat, 'a word) net_ops)"
proof -
  have m: "LENGTH('a) - min p (LENGTH('a)) = LENGTH('a) - p" for p :: nat by simp
  show ?thesis
    unfolding lawful_net_def
    by (auto simp: cidr_net_def host_mask_def m ac_simps bit.conj_disj_distrib
        split: option.splits if_splits)
qed

lemma lawful_cidr_ipnet: "lawful_ipnet cidr_ipnet"
  using lawful_cidr_net [where 'a = 32] lawful_cidr_net [where 'a = 128]
  by (simp add: lawful_ipnet_def cidr_ipnet_def)

section \<open>Networks as address ranges\<close>

lemma lawful_netD:
  assumes "lawful_net (ops :: ('n, 'a::len word) net_ops)"
  shows "prefix_len ops n \<le> LENGTH('a)"
    and "network ops n AND host_mask ops n = 0"
    and "broadcast ops n = network ops n OR host_mask ops n"
    and "contains ops n a \<longleftrightarrow> a AND NOT (host_mask ops n) = network ops n"
  using assms unfolding lawful_net_def by blast+

lemma lawful_net_new:
  assumes "lawful_net (ops :: ('n, 'a::len word) net_ops)" and "p \<le> LENGTH('a)"
  obtains n where "new_net ops a p = Some n" "prefix_len ops n = p"
    "network ops n = a AND NOT (mask (LENGTH('a) - p))"
proof -
  have "case new_net ops a p of None \<Rightarrow> p > LENGTH('a)
     | Some n \<Rightarrow> p \<le> LENGTH('a) \<and> prefix_len ops n = p \<and>
         network ops n = a AND NOT (mask (LENGTH('a) - p))"
    using assms(1) unfolding lawful_net_def by blast
  then show thesis using assms(2) that by (cases "new_net ops a p") auto
qed

lemma and_not_mask_unat:
  "unat ((a :: 'a::len word) AND NOT (mask m)) = unat a - unat a mod 2 ^ m"
proof -
  have "a - take_bit m a = a AND NOT (take_bit m a)"
    by (rule disjunctive_diff) (simp add: bit_simps)
  also have "\<dots> = a AND NOT (mask m)" by (rule bit_word_eqI) (auto simp: bit_simps)
  finally have eq: "a AND NOT (mask m) = a - take_bit m a" by simp
  have "unat (take_bit m a) = unat a mod 2 ^ m" unfolding unsigned_take_bit_eq by (rule take_bit_eq_mod)
  moreover have "take_bit m a \<le> a"
    by (simp add: word_le_nat_alt unsigned_take_bit_eq take_bit_nat_less_eq_self)
  ultimately show ?thesis by (simp add: eq unat_sub)
qed

lemma network_le_broadcast: "lawful_net ops \<Longrightarrow> network ops n \<le> broadcast ops n"
  by (simp add: lawful_netD le_word_or2)

lemma unat_mask: "k \<le> LENGTH('a) \<Longrightarrow> unat (mask k :: 'a::len word) = 2 ^ k - 1"
proof -
  assume "k \<le> LENGTH('a)"
  then have "(2::nat) ^ k \<le> 2 ^ LENGTH('a)" by (rule power_increasing) simp
  moreover have "(0::nat) < 2 ^ k" by simp
  ultimately have "(2 ^ k - 1 :: nat) < 2 ^ LENGTH('a)" by linarith
  then have "unat (of_nat (mask k) :: 'a word) = 2 ^ k - 1"
    by (simp add: unat_of_nat mask_eq_exp_minus_1 del: of_nat_mask_eq of_nat_diff)
  then show ?thesis by (simp only: of_nat_mask_eq)
qed

lemma broadcast_unat:
  assumes "lawful_net (ops :: ('n, 'a::len word) net_ops)"
  shows "unat (broadcast ops n) = unat (network ops n) + (2 ^ (LENGTH('a) - prefix_len ops n) - 1)"
proof -
  let ?m = "LENGTH('a) - prefix_len ops n"
  have "broadcast ops n = network ops n + host_mask ops n"
    unfolding lawful_netD(3) [OF assms]
    by (rule disjunctive_add [symmetric]) (metis assms bit_and_iff bit_0_eq bot_apply bot_bool_def lawful_netD(2))
  moreover have "network ops n \<le> network ops n + host_mask ops n"
    using network_le_broadcast [OF assms, of n] calculation by (simp only:)
  ultimately have "unat (broadcast ops n) = unat (network ops n) + unat (host_mask ops n)"
    by (simp add: unat_plus_simple)
  moreover have "unat (host_mask ops n) = 2 ^ ?m - 1"
    by (simp add: host_mask_def unat_mask)
  ultimately show ?thesis by simp
qed

lemma contains_iff_range:
  assumes "lawful_net (ops :: ('n, 'a::len word) net_ops)"
  shows "contains ops n a \<longleftrightarrow> network ops n \<le> a \<and> a \<le> broadcast ops n"
proof -
  define m where "m = LENGTH('a) - prefix_len ops n"
  define N where "N = unat (network ops n)"
  have "network ops n AND NOT (mask m) = network ops n"
    using lawful_netD(2) [OF assms, of n] unfolding host_mask_def m_def [symmetric]
    by (metis bit.conj_disj_distrib bit.disj_cancel_right bit.conj_one_right or.left_neutral)
  then have "N - N mod 2 ^ m = N" unfolding N_def using and_not_mask_unat [of "network ops n" m] by simp
  then have dvd: "N mod 2 ^ m = 0" by (metis diff_diff_cancel mod_less_eq_dividend diff_self_eq_0)
  have "contains ops n a \<longleftrightarrow> unat a - unat a mod 2 ^ m = N"
    by (simp add: lawful_netD(4) [OF assms] word_unat_eq_iff [of _ "network ops n"] and_not_mask_unat
        host_mask_def N_def m_def)
  also have "\<dots> \<longleftrightarrow> N \<le> unat a \<and> unat a \<le> N + (2 ^ m - 1)"
  proof
    assume "unat a - unat a mod 2 ^ m = N"
    moreover have "unat a mod 2 ^ m < 2 ^ m" by simp
    ultimately show "N \<le> unat a \<and> unat a \<le> N + (2 ^ m - 1)" by linarith
  next
    assume r: "N \<le> unat a \<and> unat a \<le> N + (2 ^ m - 1)"
    define j where "j = unat a - N"
    have "(0::nat) < 2 ^ m" by simp
    then have j: "unat a = N + j" "j < 2 ^ m" using r unfolding j_def by linarith+
    have "unat a mod 2 ^ m = j" using dvd j by (simp add: mod_add_eq [symmetric])
    then show "unat a - unat a mod 2 ^ m = N" using j by simp
  qed
  also have "\<dots> \<longleftrightarrow> network ops n \<le> a \<and> a \<le> broadcast ops n"
    by (simp add: word_le_nat_alt broadcast_unat [OF assms] N_def m_def)
  finally show ?thesis .
qed

text \<open>Two networks have an address in common exactly when one contains the other's
  network address.\<close>

lemma and_not_mask_mono:
  assumes "m2 \<le> m1" and "x AND NOT (mask m2) = (N :: 'a::len word)"
  shows "N AND NOT (mask m1) = x AND NOT (mask m1)"
  unfolding assms(2) [symmetric] using assms(1) by (intro bit_word_eqI) (auto simp: bit_simps)

lemma network_self_contained: "lawful_net ops \<Longrightarrow> contains ops n (network ops n)"
  by (simp add: contains_iff_range network_le_broadcast)

lemma overlap_iff_common_address:
  assumes "lawful_net (ops :: ('n, 'a::len word) net_ops)"
  shows "contains ops a (network ops b) \<or> contains ops b (network ops a)
    \<longleftrightarrow> (\<exists>x. contains ops a x \<and> contains ops b x)"
proof
  assume "contains ops a (network ops b) \<or> contains ops b (network ops a)"
  then show "\<exists>x. contains ops a x \<and> contains ops b x"
    using network_self_contained [OF assms] by blast
next
  assume "\<exists>x. contains ops a x \<and> contains ops b x"
  then obtain x where "contains ops a x" "contains ops b x" by blast
  then have x: "x AND NOT (host_mask ops a) = network ops a" "x AND NOT (host_mask ops b) = network ops b"
    by (simp_all add: lawful_netD(4) [OF assms])
  show "contains ops a (network ops b) \<or> contains ops b (network ops a)"
  proof (cases "prefix_len ops a \<le> prefix_len ops b")
    case True
    then have "network ops b AND NOT (host_mask ops a) = x AND NOT (host_mask ops a)"
      using x(2) unfolding host_mask_def by (intro and_not_mask_mono) (simp_all add: diff_le_mono2)
    then show ?thesis using x(1) by (simp add: lawful_netD(4) [OF assms])
  next
    case False
    then have "network ops a AND NOT (host_mask ops b) = x AND NOT (host_mask ops b)"
      using x(1) unfolding host_mask_def by (intro and_not_mask_mono) (simp_all add: diff_le_mono2)
    then show ?thesis using x(2) by (simp add: lawful_netD(4) [OF assms])
  qed
qed

end
