(* ===== verification/Errors.thy ===== *)
theory Errors
  imports Ip_Net
begin

text \<open>
  The error type of \<open>error.rs\<close> and its classification for the reconnect loop.  A
  message is the fixed part of the source's format string.
\<close>

datatype ('n4, 'n6) vpn_error =
    TunDevice string
  | Network string
  | Config string
  | Signaling string
  | AuthenticationFailed string
  | IpAssignment string
  | ConnectionLost string
  | MaxReconnectAttemptsExceeded "32 word"
  | ServerConfigChanged string
  | RouteOverlapsLocalNetwork "('n4, 'n6) ip_net" "('n4, 'n6) ip_net" string

fun is_recoverable :: "('n4, 'n6) vpn_error \<Rightarrow> bool" where
  "is_recoverable (ConnectionLost _) = True"
| "is_recoverable (Network _) = True"
| "is_recoverable (Signaling _) = True"
| "is_recoverable _ = False"

end
