(* ===== verification/Local_Networks.thy ===== *)
theory Local_Networks
  imports Errors
begin

unbundle bit_operations_syntax

text \<open>
  \<open>net/local_networks.rs\<close>: the on-link networks of the host and the check that refuses a
  split-tunnel route overlapping one of them.  The interface list of the \<open>if-addrs\<close>
  crate is an argument, as are the operations of \<open>ipnet\<close>.
\<close>

section \<open>The code\<close>

definition EXEMPT_MAX_PREFIX_LEN :: nat where "EXEMPT_MAX_PREFIX_LEN = 1"

record ('n4, 'n6) local_network =
  ln_interface :: string
  ln_net :: "('n4, 'n6) ip_net"

text \<open>An interface as \<open>if_addrs::get_if_addrs\<close> reports it.\<close>

record iface =
  if_name :: string
  is_oper_up :: bool
  is_loopback :: bool
  is_p2p :: bool
  if_addr :: ip_addr
  if_prefixlen :: nat

text \<open>\<open>Ipv6Addr::is_unicast_link_local\<close>: the block \<open>fe80::/10\<close>.\<close>

definition is_unicast_link_local :: "128 word \<Rightarrow> bool" where
  "is_unicast_link_local a \<longleftrightarrow> drop_bit 118 a = 0x3FA"

definition local_network_new ::
  "('n4, 'n6) ipnet \<Rightarrow> string \<Rightarrow> ip_addr \<Rightarrow> nat \<Rightarrow> ('n4, 'n6) local_network option" where
  "local_network_new lib interface ip plen =
    (case new_net (opsx lib) ip plen of
       None \<Rightarrow> None
     | Some n \<Rightarrow> Some \<lparr> ln_interface = interface, ln_net = trunc_net (opsx lib) n \<rparr>)"

definition local_networks ::
  "('n4, 'n6) ipnet \<Rightarrow> iface list option \<Rightarrow> ('n4, 'n6) local_network list" where
  "local_networks lib ifaces =
    (case ifaces of
       None \<Rightarrow> []
     | Some is \<Rightarrow>
         List.map_filter (\<lambda>i.
             if (case if_addr i of V4 a \<Rightarrow> False | V6 a \<Rightarrow> is_unicast_link_local a) then None
             else local_network_new lib (if_name i) (if_addr i) (if_prefixlen i))
           (filter (\<lambda>i. is_oper_up i \<and> \<not> is_loopback i \<and> \<not> is_p2p i) is))"

definition overlaps :: "('n4, 'n6) ipnet \<Rightarrow> ('n4, 'n6) ip_net \<Rightarrow> ('n4, 'n6) ip_net \<Rightarrow> bool" where
  "overlaps lib a b \<longleftrightarrow>
    contains (opsx lib) a (network (opsx lib) b) \<or> contains (opsx lib) b (network (opsx lib) a)"

fun first_conflict ::
  "('n4, 'n6) ipnet \<Rightarrow> ('n4, 'n6) ip_net list \<Rightarrow> ('n4, 'n6) local_network list \<Rightarrow>
     (('n4, 'n6) ip_net \<times> ('n4, 'n6) local_network) option" where
  "first_conflict lib [] locals = None"
| "first_conflict lib (route # routes) locals =
    (if prefix_len (opsx lib) route \<le> EXEMPT_MAX_PREFIX_LEN then first_conflict lib routes locals
     else
       case find (\<lambda>l. overlaps lib route (ln_net l)) locals of
         Some local_net \<Rightarrow> Some (route, local_net)
       | None \<Rightarrow> first_conflict lib routes locals)"

definition split_tunnel_conflict ::
  "('n4, 'n6) ipnet \<Rightarrow> 'n4 list \<Rightarrow> 'n6 list \<Rightarrow> ('n4, 'n6) local_network list \<Rightarrow>
     (('n4, 'n6) ip_net \<times> ('n4, 'n6) local_network) option" where
  "split_tunnel_conflict lib routes routes6 locals =
    first_conflict lib (map Net4 routes @ map Net6 routes6) locals"

definition overlap_error ::
  "('n4, 'n6) ipnet \<Rightarrow> 'n4 list \<Rightarrow> 'n6 list \<Rightarrow> ('n4, 'n6) local_network list \<Rightarrow>
     ('n4, 'n6) vpn_error option" where
  "overlap_error lib routes routes6 locals =
    map_option (\<lambda>(route, l). RouteOverlapsLocalNetwork route (ln_net l) (ln_interface l))
      (split_tunnel_conflict lib routes routes6 locals)"

definition has_refusable_routes :: "('n4, 'n6) ipnet \<Rightarrow> 'n4 list \<Rightarrow> 'n6 list \<Rightarrow> bool" where
  "has_refusable_routes lib routes routes6 \<longleftrightarrow>
    list_ex (\<lambda>r. prefix_len (ops4 lib) r > EXEMPT_MAX_PREFIX_LEN) routes \<or>
    list_ex (\<lambda>r. prefix_len (ops6 lib) r > EXEMPT_MAX_PREFIX_LEN) routes6"

section \<open>The check is exact\<close>

definition in_net :: "('n4, 'n6) ipnet \<Rightarrow> ('n4, 'n6) ip_net \<Rightarrow> ip_addr \<Rightarrow> bool" where
  "in_net lib n x = contains (opsx lib) n x"

lemma overlaps_iff_shared:
  assumes "lawful_ipnet lib"
  shows "overlaps lib a b \<longleftrightarrow> (\<exists>x. in_net lib a x \<and> in_net lib b x)"
proof -
  note l4 = overlap_iff_common_address [of "ops4 lib"]
  note l6 = overlap_iff_common_address [of "ops6 lib"]
  have ex: "(\<exists>x. P x) \<longleftrightarrow> (\<exists>v. P (V4 v)) \<or> (\<exists>v. P (V6 v))" for P
    by (metis ip_addr.exhaust)
  show ?thesis
    using assms l4 l6 unfolding lawful_ipnet_def overlaps_def in_net_def
    by (cases a; cases b) (auto simp: ex)
qed

lemma first_conflict_None:
  "first_conflict lib routes locals = None \<longleftrightarrow>
    (\<forall>r \<in> set routes. \<forall>l \<in> set locals.
      prefix_len (opsx lib) r > EXEMPT_MAX_PREFIX_LEN \<longrightarrow> \<not> overlaps lib r (ln_net l))"
proof (induction routes)
  case (Cons r routes)
  show ?case
  proof (cases "find (\<lambda>l. overlaps lib r (ln_net l)) locals")
    case None
    then have "\<forall>l \<in> set locals. \<not> overlaps lib r (ln_net l)" by (auto simp: find_None_iff)
    then show ?thesis using Cons None by auto
  next
    case (Some l)
    then have "l \<in> set locals" "overlaps lib r (ln_net l)" by (auto simp: find_Some_iff)
    then show ?thesis using Cons Some by (auto simp: not_le)
  qed
qed simp

lemma first_conflict_Some:
  assumes "first_conflict lib routes locals = Some (r, l)"
  shows "r \<in> set routes" "l \<in> set locals" "prefix_len (opsx lib) r > EXEMPT_MAX_PREFIX_LEN"
    "overlaps lib r (ln_net l)"
proof -
  have "r \<in> set routes \<and> l \<in> set locals \<and> prefix_len (opsx lib) r > EXEMPT_MAX_PREFIX_LEN
      \<and> overlaps lib r (ln_net l)"
    using assms
  proof (induction routes)
    case (Cons a routes)
    then show ?case
      by (auto simp: find_Some_iff split: if_splits option.splits)
  qed simp
  then show "r \<in> set routes" "l \<in> set locals" "prefix_len (opsx lib) r > EXEMPT_MAX_PREFIX_LEN"
    "overlaps lib r (ln_net l)" by blast+
qed

text \<open>C15: the connect-time check refuses a configuration exactly when some
  route longer than \<open>/1\<close> has an address in common with a network the host is on, and the
  refusal names a route and a local network that really share an address.\<close>

theorem overlap_check_exact:
  assumes "lawful_ipnet lib"
  shows "(overlap_error lib routes routes6 locals = None \<longleftrightarrow>
      (\<forall>r \<in> set (map Net4 routes @ map Net6 routes6). \<forall>l \<in> set locals.
        prefix_len (opsx lib) r > 1 \<longrightarrow> (\<nexists>x. in_net lib r x \<and> in_net lib (ln_net l) x))) \<and>
    (\<forall>e. overlap_error lib routes routes6 locals = Some e \<longrightarrow>
      (\<exists>r l x. e = RouteOverlapsLocalNetwork r (ln_net l) (ln_interface l) \<and>
        r \<in> set (map Net4 routes @ map Net6 routes6) \<and> l \<in> set locals \<and>
        in_net lib r x \<and> in_net lib (ln_net l) x))"
proof (intro conjI allI impI)
  show "overlap_error lib routes routes6 locals = None \<longleftrightarrow>
      (\<forall>r \<in> set (map Net4 routes @ map Net6 routes6). \<forall>l \<in> set locals.
        prefix_len (opsx lib) r > 1 \<longrightarrow> (\<nexists>x. in_net lib r x \<and> in_net lib (ln_net l) x))"
    by (simp only: overlap_error_def split_tunnel_conflict_def map_option_is_None first_conflict_None
        overlaps_iff_shared [OF assms] EXEMPT_MAX_PREFIX_LEN_def)
  fix e assume "overlap_error lib routes routes6 locals = Some e"
  then obtain r l where rl: "first_conflict lib (map Net4 routes @ map Net6 routes6) locals = Some (r, l)"
    "e = RouteOverlapsLocalNetwork r (ln_net l) (ln_interface l)"
    by (auto simp: overlap_error_def split_tunnel_conflict_def)
  then show "\<exists>r l x. e = RouteOverlapsLocalNetwork r (ln_net l) (ln_interface l) \<and>
      r \<in> set (map Net4 routes @ map Net6 routes6) \<and> l \<in> set locals \<and>
      in_net lib r x \<and> in_net lib (ln_net l) x"
    using first_conflict_Some [OF rl(1)] overlaps_iff_shared [OF assms] by blast
qed

theorem overlap_check_exact_witness:
  "overlap_error cidr_ipnet [(0xC0A80100, 24), (0, 0)] []
     [\<lparr> ln_interface = ''en0'', ln_net = Net4 (0x0A000000, 8) \<rparr>] = None"
proof -
  have "(\<nexists>x. in_net cidr_ipnet (Net4 (0xC0A80100, 24)) x \<and> in_net cidr_ipnet (Net4 (0x0A000000, 8)) x)"
    unfolding overlaps_iff_shared [OF lawful_cidr_ipnet, symmetric]
    by (simp add: overlaps_def cidr_ipnet_def cidr_net_def mask_eq_exp_minus_1)
  then show ?thesis
    using overlap_check_exact [OF lawful_cidr_ipnet, of "[(0xC0A80100, 24), (0, 0)]" "[]"
        "[\<lparr> ln_interface = ''en0'', ln_net = Net4 (0x0A000000, 8) \<rparr>]"]
    by (simp add: cidr_ipnet_def cidr_net_def)
qed

lemma not_refusable_no_conflict:
  assumes "lawful_ipnet lib" and "\<not> has_refusable_routes lib routes routes6"
  shows "overlap_error lib routes routes6 locals = None"
proof -
  have "prefix_len (opsx lib) r \<le> EXEMPT_MAX_PREFIX_LEN" if "r \<in> set (map Net4 routes @ map Net6 routes6)" for r
    using assms that by (auto simp: has_refusable_routes_def list_ex_iff lawful_ipnet_def not_less)
  then show ?thesis
    unfolding overlap_error_def split_tunnel_conflict_def map_option_is_None first_conflict_None
    by (meson linorder_not_less)
qed

end
