(* ===== verification/Signaling.thy ===== *)
theory Signaling
  imports Errors
begin

text \<open>
  \<open>tunnel/signaling.rs\<close>: the handshake messages and their validation, length-prefixed
  messages, and the message types of the control channel.  JSON serialisation comes from
  \<open>serde_json\<close>, outside the repository: it is a record of an encoder and a decoder that the
  definitions take as an argument, and \<open>json_roundtrip\<close> states what the code relies on.
  A reliable receive stream is the bytes still to be delivered and how the stream ends after
  them.
\<close>

section \<open>Byte streams\<close>

datatype stream_end = Finished | Broken

type_synonym recv_stream = "bytes \<times> stream_end"

datatype read_exact_error = FinishedEarly nat | ReadError

definition read_exact :: "nat \<Rightarrow> recv_stream \<Rightarrow> read_exact_error + bytes \<times> recv_stream" where
  "read_exact n s =
    (if n \<le> length (fst s) then Inr (take n (fst s), drop n (fst s), snd s)
     else case snd s of Finished \<Rightarrow> Inl (FinishedEarly (length (fst s))) | Broken \<Rightarrow> Inl ReadError)"

lemma read_exact_append [simp]: "n = length bs \<Longrightarrow> read_exact n (bs @ rest, e) = Inr (bs, rest, e)"
  by (simp add: read_exact_def)

lemma read_exact_short: "length bs < n \<Longrightarrow>
    read_exact n (bs, e) = Inl (case e of Finished \<Rightarrow> FinishedEarly (length bs) | Broken \<Rightarrow> ReadError)"
  by (cases e) (simp_all add: read_exact_def)

record 'a json =
  to_vec :: "'a \<Rightarrow> bytes option"
  from_slice :: "bytes \<Rightarrow> 'a option"

definition json_roundtrip :: "'a json \<Rightarrow> bool" where
  "json_roundtrip js \<longleftrightarrow> (\<forall>x bs. to_vec js x = Some bs \<longrightarrow> from_slice js bs = Some x)"

section \<open>The handshake\<close>

definition VPN_PROTOCOL_VERSION :: "16 word" where "VPN_PROTOCOL_VERSION = 8"

definition VPN_ALPN :: bytes where "VPN_ALPN = map of_char ''ezvpn/8''"

record client_auth_payload =
  ca_public_key :: string
  ca_endpoint_id :: string
  ca_signature :: string

record vpn_handshake =
  hs_version :: "16 word"
  hs_device_id :: "64 word"
  hs_auth :: client_auth_payload

definition handshake_new :: "64 word \<Rightarrow> client_auth_payload \<Rightarrow> vpn_handshake" where
  "handshake_new device_id auth =
    \<lparr> hs_version = VPN_PROTOCOL_VERSION, hs_device_id = device_id, hs_auth = auth \<rparr>"

definition handshake_encode :: "vpn_handshake json \<Rightarrow> vpn_handshake \<Rightarrow> ('n4, 'n6) vpn_error + bytes" where
  "handshake_encode js h = ok_or (Signaling ''Failed to encode handshake'') (to_vec js h)"

definition handshake_decode :: "vpn_handshake json \<Rightarrow> bytes \<Rightarrow> ('n4, 'n6) vpn_error + vpn_handshake" where
  "handshake_decode js data =
    and_then (ok_or (Signaling ''Failed to decode handshake'') (from_slice js data)) (\<lambda>h.
      if hs_version h \<noteq> VPN_PROTOCOL_VERSION
      then Inl (Signaling ''Unsupported handshake protocol version'')
      else Inr h)"

record ('n4, 'n6) handshake_response =
  hr_version :: "16 word"
  hr_accepted :: bool
  hr_assigned_ip :: "32 word option"
  hr_network :: "'n4 option"
  hr_server_ip :: "32 word option"
  hr_assigned_ip6 :: "128 word option"
  hr_network6 :: "'n6 option"
  hr_server_ip6 :: "128 word option"
  hr_reject_reason :: "string option"
  hr_server_addrs :: "ip_addr list"

definition is_valid :: "('n4, 'n6) handshake_response \<Rightarrow> bool" where
  "is_valid r =
    (if \<not> hr_accepted r then True
     else if hr_assigned_ip r = None \<and> hr_assigned_ip6 r = None then False
     else if hr_assigned_ip r \<noteq> None \<and> (hr_network r = None \<or> hr_server_ip r = None) then False
     else if hr_assigned_ip6 r \<noteq> None \<and> (hr_network6 r = None \<or> hr_server_ip6 r = None) then False
     else True)"

definition accepted :: "32 word \<Rightarrow> 'n4 \<Rightarrow> 32 word \<Rightarrow> ('n4, 'n6) handshake_response" where
  "accepted assigned_ip net server_ip =
    \<lparr> hr_version = VPN_PROTOCOL_VERSION, hr_accepted = True, hr_assigned_ip = Some assigned_ip,
       hr_network = Some net, hr_server_ip = Some server_ip, hr_assigned_ip6 = None, hr_network6 = None,
       hr_server_ip6 = None, hr_reject_reason = None, hr_server_addrs = [] \<rparr>"

definition accepted_dual_stack ::
  "32 word \<Rightarrow> 'n4 \<Rightarrow> 32 word \<Rightarrow> 128 word \<Rightarrow> 'n6 \<Rightarrow> 128 word \<Rightarrow> ('n4, 'n6) handshake_response" where
  "accepted_dual_stack assigned_ip net server_ip assigned_ip6 net6 server_ip6 =
    \<lparr> hr_version = VPN_PROTOCOL_VERSION, hr_accepted = True, hr_assigned_ip = Some assigned_ip,
       hr_network = Some net, hr_server_ip = Some server_ip, hr_assigned_ip6 = Some assigned_ip6,
       hr_network6 = Some net6, hr_server_ip6 = Some server_ip6, hr_reject_reason = None, hr_server_addrs = [] \<rparr>"

definition accepted_ipv6_only :: "128 word \<Rightarrow> 'n6 \<Rightarrow> 128 word \<Rightarrow> ('n4, 'n6) handshake_response" where
  "accepted_ipv6_only assigned_ip6 net6 server_ip6 =
    \<lparr> hr_version = VPN_PROTOCOL_VERSION, hr_accepted = True, hr_assigned_ip = None, hr_network = None,
       hr_server_ip = None, hr_assigned_ip6 = Some assigned_ip6, hr_network6 = Some net6,
       hr_server_ip6 = Some server_ip6, hr_reject_reason = None, hr_server_addrs = [] \<rparr>"

definition rejected :: "string \<Rightarrow> ('n4, 'n6) handshake_response" where
  "rejected reason =
    \<lparr> hr_version = VPN_PROTOCOL_VERSION, hr_accepted = False, hr_assigned_ip = None, hr_network = None,
       hr_server_ip = None, hr_assigned_ip6 = None, hr_network6 = None, hr_server_ip6 = None,
       hr_reject_reason = Some reason, hr_server_addrs = [] \<rparr>"

definition with_server_addrs ::
  "('n4, 'n6) handshake_response \<Rightarrow> ip_addr list \<Rightarrow> ('n4, 'n6) handshake_response" where
  "with_server_addrs r addrs = (if hr_accepted r then r\<lparr>hr_server_addrs := addrs\<rparr> else r)"

definition response_encode ::
  "('n4, 'n6) handshake_response json \<Rightarrow> ('n4, 'n6) handshake_response \<Rightarrow> ('n4, 'n6) vpn_error + bytes" where
  "response_encode js r =
    (if \<not> is_valid r then Inl (Signaling ''Invalid handshake response'')
     else ok_or (Signaling ''Failed to encode response'') (to_vec js r))"

definition response_decode ::
  "('n4, 'n6) handshake_response json \<Rightarrow> bytes \<Rightarrow> ('n4, 'n6) vpn_error + ('n4, 'n6) handshake_response" where
  "response_decode js data =
    and_then (ok_or (Signaling ''Failed to decode response'') (from_slice js data)) (\<lambda>r.
      if hr_version r \<noteq> VPN_PROTOCOL_VERSION
      then Inl (Signaling ''Unsupported handshake response protocol version'')
      else if \<not> is_valid r then Inl (Signaling ''Invalid handshake response'')
      else Inr r)"

section \<open>Length-prefixed messages\<close>

text \<open>\<open>put\<close> is \<open>write_all\<close> of the writer; its error is an I/O error.\<close>

definition write_message ::
  "('w \<Rightarrow> bytes \<Rightarrow> 'w \<times> (string + unit)) \<Rightarrow> 'w \<Rightarrow> bytes \<Rightarrow> 'w \<times> (('n4, 'n6) vpn_error + unit)" where
  "write_message put w data =
    (if length data \<ge> 2 ^ 32 then (w, Inl (Signaling ''Message too large''))
     else
       case put w (to_be_bytes (of_nat (length data) :: 32 word)) of
         (w', Inl e) \<Rightarrow> (w', Inl (Network e))
       | (w', Inr _) \<Rightarrow>
           (case put w' data of (w'', Inl e) \<Rightarrow> (w'', Inl (Network e)) | (w'', Inr _) \<Rightarrow> (w'', Inr ())))"

definition read_message :: "recv_stream \<Rightarrow> nat \<Rightarrow> ('n4, 'n6) vpn_error + bytes \<times> recv_stream" where
  "read_message s max_size =
    (case read_exact 4 s of
       Inl _ \<Rightarrow> Inl (Network ''read error'')
     | Inr (len_buf, s') \<Rightarrow>
         let len = unat (from_be_bytes len_buf :: 32 word) in
         if len > max_size then Inl (Signaling ''Message too large'')
         else case read_exact len s' of
                Inl _ \<Rightarrow> Inl (Network ''read error'')
              | Inr r \<Rightarrow> Inr r)"

definition MAX_HANDSHAKE_SIZE :: nat where "MAX_HANDSHAKE_SIZE = 16 * 1024"

section \<open>Control message types\<close>

datatype data_message_type = ServerAddrs | Ping | Pong

definition from_byte :: "byte \<Rightarrow> data_message_type option" where
  "from_byte b =
    (if b = 0x01 then Some ServerAddrs
     else if b = 0x02 then Some Ping
     else if b = 0x03 then Some Pong
     else None)"

fun as_byte :: "data_message_type \<Rightarrow> byte" where
  "as_byte ServerAddrs = 0x01"
| "as_byte Ping = 0x02"
| "as_byte Pong = 0x03"

datatype invalid_message_type = InvalidMessageType byte

definition message_type_try_from :: "byte \<Rightarrow> invalid_message_type + data_message_type" where
  "message_type_try_from b = ok_or (InvalidMessageType b) (from_byte b)"

type_synonym server_addrs_msg = "ip_addr list"

definition server_addrs_encode :: "server_addrs_msg json \<Rightarrow> server_addrs_msg \<Rightarrow> ('n4, 'n6) vpn_error + bytes" where
  "server_addrs_encode js msg = ok_or (Signaling ''Failed to encode server addrs'') (to_vec js msg)"

definition server_addrs_decode :: "server_addrs_msg json \<Rightarrow> bytes \<Rightarrow> ('n4, 'n6) vpn_error + server_addrs_msg" where
  "server_addrs_decode js data = ok_or (Signaling ''Failed to decode server addrs'') (from_slice js data)"

lemma from_byte_as_byte [simp]: "from_byte (as_byte t) = Some t"
  by (cases t) (simp_all add: from_byte_def)

lemma as_byte_from_byte: "from_byte b = Some t \<Longrightarrow> as_byte t = b"
  by (auto simp: from_byte_def split: if_splits)

section \<open>Properties\<close>

lemma unat_length_prefix:
  "length data < 2 ^ 32 \<Longrightarrow> unat (from_be_bytes (to_be_bytes (of_nat (length data) :: 32 word)) :: 32 word) = length data"
  by (simp add: be32.dec_enc unat_of_nat)

text \<open>A writer that appends to a buffer.\<close>

definition buffer_put :: "bytes \<Rightarrow> bytes \<Rightarrow> bytes \<times> (string + unit)" where
  "buffer_put w bs = (w @ bs, Inr ())"

lemma write_message_buffer:
  "length data < 2 ^ 32 \<Longrightarrow>
    write_message buffer_put w data = (w @ to_be_bytes (of_nat (length data) :: 32 word) @ data, Inr ())"
  by (simp add: write_message_def buffer_put_def)

lemma read_message_written:
  assumes "length data < 2 ^ 32"
  shows "read_message (to_be_bytes (of_nat (length data) :: 32 word) @ data @ rest, e) max_size =
    (if length data > max_size then Inl (Signaling ''Message too large'') else Inr (data, rest, e))"
  using assms unat_length_prefix [OF assms] by (simp add: read_message_def Let_def be32.enc_length)

lemma handshake_decode_new:
  "from_slice js data = Some (handshake_new dev auth) \<Longrightarrow> handshake_decode js data = Inr (handshake_new dev auth)"
  by (simp add: handshake_decode_def handshake_new_def)

text \<open>C35. The client's handshake over a reliable stream: when it serialises to at
  most the size limit, writing it with its length prefix succeeds, and the server's read and
  decode give back the same handshake and leave exactly the bytes after it in the stream.\<close>

theorem handshake_exchange:
  assumes "json_roundtrip js" and "to_vec js (handshake_new dev auth) = Some data"
    and "length data \<le> MAX_HANDSHAKE_SIZE"
  shows "\<exists>wire. write_message buffer_put [] data = (wire, Inr ()) \<and>
    and_then (read_message (wire @ rest, e) MAX_HANDSHAKE_SIZE) (\<lambda>(msg, s).
      and_then (handshake_decode js msg) (\<lambda>h. Inr (h, s))) = Inr (handshake_new dev auth, rest, e)"
proof -
  have len: "length data < 2 ^ 32" using assms(3) by (simp add: MAX_HANDSHAKE_SIZE_def)
  have "from_slice js data = Some (handshake_new dev auth)" using assms(1,2) by (simp add: json_roundtrip_def)
  then show ?thesis
    using assms(3) by (simp add: write_message_buffer [OF len] read_message_written [OF len] handshake_decode_new)
qed

definition sample_auth :: client_auth_payload where
  "sample_auth = \<lparr> ca_public_key = ''ed25519-pub:k'', ca_endpoint_id = ''id'', ca_signature = ''sig'' \<rparr>"

definition sample_handshake_json :: "vpn_handshake json" where
  "sample_handshake_json = \<lparr>
     to_vec = (\<lambda>h. if h = handshake_new 7 sample_auth then Some [0x7B, 0x7D] else None),
     from_slice = (\<lambda>b. if b = [0x7B, 0x7D] then Some (handshake_new 7 sample_auth) else None) \<rparr>"

theorem handshake_exchange_witness:
  "\<exists>wire. write_message buffer_put [] [0x7B, 0x7D] = (wire, Inr ()) \<and>
    and_then (read_message (wire @ [1], Finished) MAX_HANDSHAKE_SIZE) (\<lambda>(msg, s).
      and_then (handshake_decode sample_handshake_json msg) (\<lambda>h. Inr (h, s))) =
    Inr (handshake_new 7 sample_auth, [1], Finished)"
  by (rule handshake_exchange)
    (simp_all add: json_roundtrip_def sample_handshake_json_def MAX_HANDSHAKE_SIZE_def)


definition sample_response_json :: "(nat, nat) handshake_response json" where
  "sample_response_json = \<lparr> to_vec = (\<lambda>r. Some []), from_slice = (\<lambda>b. Some (accepted 1 2 3)) \<rparr>"


end
