(* ===== verification/Checksum.thy ===== *)
theory Checksum
  imports Prelude
begin

unbundle bit_operations_syntax

text \<open>
  The Internet checksum of \<open>tunnel/offload.rs\<close>: \<open>add_bytes\<close> accumulates 16-bit
  big-endian words into a \<open>u32\<close>, \<open>fold_checksum\<close> folds the carries back in, and
  \<open>finalize_checksum\<close> complements.  The reference is one's-complement addition on
  natural numbers (\<open>oc_fold\<close>); the two agree whenever the accumulator cannot
  wrap, and a buffer whose checksum field was filled from its own sum verifies.
\<close>

section \<open>The code\<close>

fun add_bytes :: "32 word \<Rightarrow> bytes \<Rightarrow> 32 word" where
  "add_bytes acc (a # b # rest) = add_bytes (acc + ucast (from_be_bytes [a, b] :: 16 word)) rest"
| "add_bytes acc [a] = acc + ucast (from_be_bytes [a, 0] :: 16 word)"
| "add_bytes acc [] = acc"

lemma unat_low_half: "unat ((s :: 32 word) AND 0xFFFF) = unat s mod 65536"
proof -
  have "(0xFFFF :: 32 word) = mask 16" by (simp add: mask_eq_exp_minus_1)
  then have "s AND 0xFFFF = take_bit 16 s" by (simp only: take_bit_eq_mask)
  then show ?thesis by (simp add: take_bit_eq_mod unat_mod_distrib)
qed

lemma unat_high_half: "unat (drop_bit 16 (s :: 32 word)) = unat s div 65536"
  by (simp add: drop_bit_eq_div unat_div_distrib)

lemma unat_fold_step:
  "unat (((s :: 32 word) AND 0xFFFF) + drop_bit 16 s) = unat s mod 65536 + unat s div 65536"
proof -
  have "unat s < 2 ^ 32" using unat_less_exp [of s] by simp
  then have "unat s div 65536 < 65536" by simp
  moreover have "unat s mod 65536 < 65536" by simp
  ultimately have "unat s mod 65536 + unat s div 65536 < 65536 + 65536" by (intro add_strict_mono)
  then have "unat s mod 65536 + unat s div 65536 < 2 ^ 32" by simp
  then show ?thesis
    by (subst unat_add_lem [THEN iffD1]) (simp_all add: unat_low_half unat_high_half)
qed

function fold_checksum :: "32 word \<Rightarrow> 16 word" where
  "fold_checksum acc =
    (if drop_bit 16 acc \<noteq> 0 then fold_checksum ((acc AND 0xFFFF) + drop_bit 16 acc)
     else ucast acc)"
  by pat_completeness auto

lemma fold_step_decreases:
  "drop_bit 16 (s :: 32 word) \<noteq> 0 \<Longrightarrow> unat ((s AND 0xFFFF) + drop_bit 16 s) < unat s"
proof -
  assume "drop_bit 16 s \<noteq> 0"
  then have "0 < unat s div 65536"
    by (metis unat_high_half unat_eq_0 gr0I)
  then show ?thesis
    unfolding unat_fold_step by (smt (verit) div_mult_mod_eq mult.commute mult_less_cancel1
      add.commute add_less_cancel_left nat_mult_1_right numeral_eq_one_iff one_less_numeral_iff
      semiring_norm(76) mult_less_cancel2)
qed

termination fold_checksum
  by (relation "measure unat") (simp_all add: fold_step_decreases)

declare fold_checksum.simps [simp del]

definition finalize_checksum :: "32 word \<Rightarrow> 16 word" where
  "finalize_checksum acc = NOT (fold_checksum acc)"

section \<open>The reference: one's-complement sums of natural numbers\<close>

fun sum16 :: "bytes \<Rightarrow> nat" where
  "sum16 (a # b # rest) = unat a * 256 + unat b + sum16 rest"
| "sum16 [a] = unat a * 256"
| "sum16 [] = 0"

definition oc_fold :: "nat \<Rightarrow> nat" where
  "oc_fold n = (if n = 0 then 0 else (n - 1) mod 65535 + 1)"

lemma oc_fold_le: "oc_fold n \<le> 65535"
  using mod_less_divisor [of 65535 "n - 1"] by (simp add: oc_fold_def) linarith

lemma oc_fold_small: "n < 65536 \<Longrightarrow> oc_fold n = n"
  by (simp add: oc_fold_def)

lemma oc_fold_eq_0_iff [simp]: "oc_fold n = 0 \<longleftrightarrow> n = 0"
  by (simp add: oc_fold_def)

lemma oc_fold_step: "oc_fold (n mod 65536 + n div 65536) = oc_fold n"
proof (cases "n < 65536")
  case False
  define h l where "h = n div 65536" and "l = n mod 65536"
  have n: "n = 65535 * h + (l + h)" by (simp add: h_def l_def)
  have "0 < h" using False by (simp add: h_def)
  then have "n - 1 = (l + h - 1) + 65535 * h" using n by linarith
  then have "(n - 1) mod 65535 = (l + h - 1) mod 65535" by (metis mod_mult_self2)
  then show ?thesis using \<open>0 < h\<close> False by (auto simp: oc_fold_def h_def l_def)
qed simp

lemma oc_fold_mod: "oc_fold n mod 65535 = n mod 65535"
proof (cases n)
  case (Suc m)
  then have "oc_fold n mod 65535 = (m mod 65535 + 1) mod 65535" by (simp add: oc_fold_def)
  also have "\<dots> = n mod 65535" using Suc by (simp add: mod_simps)
  finally show ?thesis .
qed (simp add: oc_fold_def)

lemma oc_fold_eq_max_iff: "oc_fold n = 65535 \<longleftrightarrow> 0 < n \<and> n mod 65535 = 0"
proof
  assume "oc_fold n = 65535"
  then show "0 < n \<and> n mod 65535 = 0"
    using oc_fold_mod [of n] by (cases "n = 0") (simp_all add: oc_fold_def [of 0])
next
  assume n: "0 < n \<and> n mod 65535 = 0"
  then have "oc_fold n mod 65535 = 0" by (simp add: oc_fold_mod)
  then have "oc_fold n = 0 \<or> 65535 \<le> oc_fold n" by (metis mod_less not_le)
  with n oc_fold_le [of n] show "oc_fold n = 65535" by auto
qed

section \<open>Agreement of code and reference\<close>

lemma unat_from_be16 [simp]: "unat (from_be_bytes [a, b] :: 16 word) = unat a * 256 + unat b"
  by (subst unat_from_be_bytes) simp_all

lemma ucast_from_be16:
  "(ucast (from_be_bytes [a, b] :: 16 word) :: 32 word) = of_nat (unat a * 256 + unat b)"
  by (metis of_nat_unat unat_from_be16)

lemma add_bytes_eq: "add_bytes s bs = s + of_nat (sum16 bs)"
  by (induction s bs rule: add_bytes.induct) (simp_all add: ucast_from_be16 del: of_nat_add of_nat_mult, simp_all)

lemma add_bytes_add: "add_bytes (s + t) bs = add_bytes s bs + t"
  by (simp add: add_bytes_eq)

lemma unat_fold_checksum: "unat (fold_checksum s) = oc_fold (unat s)"
proof (induction s rule: fold_checksum.induct)
  case (1 s)
  show ?case
  proof (cases "drop_bit 16 s = 0")
    case True
    then have "unat s div 65536 = 0" by (metis unat_high_half unat_0)
    then have "unat s < 65536" by simp
    then show ?thesis
      using True by (simp add: fold_checksum.simps [of s] oc_fold_small unsigned_ucast_eq take_bit_nat_eq_self)
  next
    case False
    then show ?thesis
      using 1 by (simp add: fold_checksum.simps [of s] unat_fold_step oc_fold_step)
  qed
qed

lemma unat_finalize_checksum: "unat (finalize_checksum s) = 65535 - oc_fold (unat s)"
proof -
  have "NOT (fold_checksum s) = - 1 - fold_checksum s" by (simp add: not_eq_complement)
  moreover have "unat (- 1 - fold_checksum s) = unat (- 1 :: 16 word) - unat (fold_checksum s)"
    by (rule unat_sub) (rule word_n1_ge)
  moreover have "unat (- 1 :: 16 word) = 65535"
    by (simp add: unsigned_minus_1_eq_mask mask_eq_exp_minus_1)
  ultimately show ?thesis by (simp add: finalize_checksum_def unat_fold_checksum)
qed

lemma sum16_append: "even (length xs) \<Longrightarrow> sum16 (xs @ ys) = sum16 xs + sum16 ys"
  by (induction xs rule: sum16.induct) simp_all

lemma sum16_bound: "sum16 bs \<le> 65535 * ((length bs + 1) div 2)"
proof (induction bs rule: sum16.induct)
  case (1 a b rest)
  have "unat a * 256 + unat b \<le> 65535"
    using unat_byte_less [of a] unat_byte_less [of b] by linarith
  then show ?case using 1 by simp
next
  case (2 a)
  have "unat a * 256 \<le> 65535" using unat_byte_less [of a] by linarith
  then show ?case by simp
qed simp

lemma unat_add_bytes:
  assumes "unat s + sum16 bs < 2 ^ 32"
  shows "unat (add_bytes s bs) = unat s + sum16 bs"
proof -
  have "unat (of_nat (sum16 bs) :: 32 word) = sum16 bs"
    using assms by (simp add: unat_of_nat)
  then show ?thesis using assms by (simp add: add_bytes_eq unat_add_lem [THEN iffD1])
qed

section \<open>Filling in and verifying a checksum field\<close>

lemma sum16_to_be16 [simp]: "sum16 (to_be_bytes (w :: 16 word)) = unat w"
proof -
  obtain a b where ab: "to_be_bytes w = [a, b]"
    by (metis be16.enc_length length2_conv)
  then have "w = from_be_bytes [a, b]" by (metis be16.dec_enc)
  then show ?thesis using ab by simp
qed

lemma sum16_copy_at:
  assumes "even i" and "length f = 2" and "i + 2 \<le> length bs"
  shows "sum16 (copy_at i f bs) = sum16 (copy_at i [0, 0] bs) + sum16 f"
  using assms by (simp add: copy_at_def sum16_append)

lemma sum16_field_split:
  assumes "even i" and "i + 2 \<le> length bs"
  shows "sum16 bs = sum16 (copy_at i [0, 0] bs) + unat (from_be_bytes (sub_bytes i (i + 2) bs) :: 16 word)"
proof -
  have "length (sub_bytes i (i + 2) bs) = 2" using assms by (simp add: length_sub_bytes)
  then obtain a b where ab: "sub_bytes i (i + 2) bs = [a, b]" by (metis length2_conv)
  have "copy_at i (sub_bytes i (i + 2) bs) bs = bs"
    using assms(2) by (intro copy_at_sub_bytes_id) simp_all
  then have "sum16 bs = sum16 (copy_at i [a, b] bs)" using ab by simp
  then show ?thesis
    unfolding ab using sum16_copy_at [OF assms(1) _ assms(2), of "[a, b]"] by simp
qed

lemma oc_complete:
  assumes "x mod 65535 = y mod 65535" and "0 < y \<or> x = 0"
  shows "oc_fold (y + (65535 - oc_fold x)) = 65535"
proof -
  have "(y + (65535 - oc_fold x)) mod 65535 = 0"
  proof -
    have "(y + (65535 - oc_fold x)) mod 65535 = (oc_fold x + (65535 - oc_fold x)) mod 65535"
      using assms(1) oc_fold_mod [of x] by (metis mod_add_left_eq)
    then show ?thesis using oc_fold_le [of x] by simp
  qed
  moreover have "0 < y + (65535 - oc_fold x)" using assms(2) by (auto simp: oc_fold_def)
  ultimately show ?thesis by (simp add: oc_fold_eq_max_iff)
qed

lemma finalize_zero_iff: "finalize_checksum s = 0 \<longleftrightarrow> oc_fold (unat s) = 65535"
  using unat_finalize_checksum [of s] oc_fold_le [of "unat s"]
  by (metis diff_is_0_eq diff_self_eq_0 le_antisym unat_eq_0)

lemma finalize_zero_iff_ones: "finalize_checksum s = 0 \<longleftrightarrow> fold_checksum s = 0xFFFF"
  unfolding finalize_zero_iff word_unat_eq_iff [of "fold_checksum s"] by (simp add: unat_fold_checksum)

text \<open>Completing a checksum from a partial sum left in the field: when the field's
  value is congruent to the pseudo-header seed, complementing the folded sum of
  the buffer yields a buffer that verifies against that seed.\<close>

lemma complete_partial_verifies:
  assumes "even i" and "i + 2 \<le> length bs"
    and seed: "unat s mod 65535 = unat (from_be_bytes (sub_bytes i (i + 2) bs) :: 16 word) mod 65535"
    and pos: "0 < unat s"
    and small: "unat s + sum16 bs + 65535 < 2 ^ 32"
  shows "finalize_checksum (add_bytes s
    (copy_at i (to_be_bytes (finalize_checksum (add_bytes 0 bs))) bs)) = 0"
proof -
  define c where "c = finalize_checksum (add_bytes 0 bs)"
  define base where "base = sum16 (copy_at i [0, 0] bs)"
  define p where "p = unat (from_be_bytes (sub_bytes i (i + 2) bs) :: 16 word)"
  have split: "sum16 bs = base + p"
    using sum16_field_split [OF assms(1,2)] by (simp add: base_def p_def)
  have c: "unat c = 65535 - oc_fold (base + p)"
    using small by (simp add: c_def unat_finalize_checksum unat_add_bytes split)
  have "sum16 (copy_at i (to_be_bytes c) bs) = base + unat c"
    using sum16_copy_at [OF assms(1) be16.enc_length assms(2), of c] by (simp add: base_def)
  then have "unat (add_bytes s (copy_at i (to_be_bytes c) bs)) = unat s + base + unat c"
    using small split c by (subst unat_add_bytes) auto
  moreover have "oc_fold (unat s + base + unat c) = 65535"
    unfolding c
  proof (rule oc_complete)
    show "(base + p) mod 65535 = (unat s + base) mod 65535"
      using mod_add_cong [OF refl seed, of base] by (simp add: p_def add.commute)
  qed (use pos in simp)
  ultimately show ?thesis by (simp add: finalize_zero_iff c_def)
qed

text \<open>Computing a checksum over a zeroed field.\<close>

lemma fill_checksum_verifies:
  assumes "even i" and "i + 2 \<le> length bs"
    and small: "unat s + sum16 bs + 65535 < 2 ^ 32"
  shows "finalize_checksum (add_bytes s
    (copy_at i (to_be_bytes (finalize_checksum (add_bytes s (copy_at i [0, 0] bs)))) bs)) = 0"
proof -
  define c where "c = finalize_checksum (add_bytes s (copy_at i [0, 0] bs))"
  define base where "base = sum16 (copy_at i [0, 0] bs)"
  have "base \<le> sum16 bs" using sum16_field_split [OF assms(1,2)] by (simp add: base_def)
  with small have c: "unat c = 65535 - oc_fold (unat s + base)"
    by (simp add: c_def unat_finalize_checksum unat_add_bytes base_def)
  have "sum16 (copy_at i (to_be_bytes c) bs) = base + unat c"
    using sum16_copy_at [OF assms(1) be16.enc_length assms(2), of c] by (simp add: base_def)
  then have "unat (add_bytes s (copy_at i (to_be_bytes c) bs)) = unat s + base + unat c"
    using small \<open>base \<le> sum16 bs\<close> c by (subst unat_add_bytes) auto
  moreover have "oc_fold (unat s + base + unat c) = 65535"
    unfolding c by (rule oc_complete) auto
  ultimately show ?thesis by (simp add: finalize_zero_iff c_def)
qed

end
