(* ===== verification/Tun_Frame.thy ===== *)
theory Tun_Frame
  imports Prelude
begin

unbundle bit_operations_syntax

text \<open>
  The 10-byte \<open>virtio_net_hdr\<close> of a Linux TUN device and the framing of
  \<open>tunnel/offload.rs\<close>: parsing and serializing the header, splitting a frame read
  from the device into metadata and IP packet, and composing a frame to write.
  Error strings are the constructors of \<open>offload_error\<close>, one per message, carrying
  the numbers the message prints.
\<close>

datatype offload_error =
    VirtioHdrLength nat
  | ZeroLengthFrame
  | FrameShorterThanHdr nat
  | EmptyPayloadAfterHdr
  | UnsupportedTunGsoType byte
  | ComposeEmptyPayload
  | OffloadWithoutVnetHdr
  | TooFewSegments nat
  | FirstNotCoalescible
  | SegmentShorterThanHeaders
  | MergedTooLarge nat
  | NotTcpGso
  | EmptyIpPacket
  | VersionGsoMismatch byte byte
  | UnsupportedIpVersion byte
  | InvalidTcpOffset nat nat
  | InvalidTcpHeaderLen nat nat nat
  | SeqOffsetOutOfRange nat
  | Ipv4GsoNotPlainTcp
  | Ipv6GsoNotPlainTcp
  | UnsupportedMetaGsoType byte
  | ChecksumNeedsGsoNone byte
  | UnsupportedChecksumFlags byte
  | InvalidCsumStart nat nat
  | InvalidCsumOffset nat nat nat
  | Ipv4TooShort
  | Ipv4NotTcp byte
  | InvalidIhl nat
  | Ipv4TotalLenTooLarge nat
  | Ipv6TooShort
  | Ipv6LengthUnderflow
  | Ipv6PayloadTooLarge nat
  | InvalidTcpOffset4
  | TcpTooLarge4 nat
  | InvalidTcpOffset6
  | TcpTooLarge6 nat
  | EmitError string

section \<open>The virtio header\<close>

definition VIRTIO_NET_HDR_LEN :: nat where "VIRTIO_NET_HDR_LEN = 10"
definition VIRTIO_NET_HDR_F_NEEDS_CSUM :: byte where "VIRTIO_NET_HDR_F_NEEDS_CSUM = 1"
definition VIRTIO_NET_HDR_F_DATA_VALID :: byte where "VIRTIO_NET_HDR_F_DATA_VALID = 2"
definition VIRTIO_NET_HDR_GSO_NONE :: byte where "VIRTIO_NET_HDR_GSO_NONE = 0"
definition VIRTIO_NET_HDR_GSO_TCPV4 :: byte where "VIRTIO_NET_HDR_GSO_TCPV4 = 1"
definition VIRTIO_NET_HDR_GSO_TCPV6 :: byte where "VIRTIO_NET_HDR_GSO_TCPV6 = 4"
definition VIRTIO_NET_HDR_GSO_ECN :: byte where "VIRTIO_NET_HDR_GSO_ECN = 0x80"

lemmas virtio_consts =
  VIRTIO_NET_HDR_LEN_def VIRTIO_NET_HDR_F_NEEDS_CSUM_def VIRTIO_NET_HDR_F_DATA_VALID_def
  VIRTIO_NET_HDR_GSO_NONE_def VIRTIO_NET_HDR_GSO_TCPV4_def VIRTIO_NET_HDR_GSO_TCPV6_def
  VIRTIO_NET_HDR_GSO_ECN_def

record virtio_net_hdr =
  flags :: byte
  gso_type :: byte
  hdr_len :: "16 word"
  gso_size :: "16 word"
  csum_start :: "16 word"
  csum_offset :: "16 word"
  num_buffers :: "16 word"

definition virtio_default :: virtio_net_hdr where
  "virtio_default = \<lparr> flags = 0, gso_type = 0, hdr_len = 0, gso_size = 0,
     csum_start = 0, csum_offset = 0, num_buffers = 0 \<rparr>"

definition virtio_from_array :: "bytes \<Rightarrow> virtio_net_hdr" where
  "virtio_from_array value = \<lparr>
     flags = value ! 0,
     gso_type = value ! 1,
     hdr_len = from_le_bytes [value ! 2, value ! 3],
     gso_size = from_le_bytes [value ! 4, value ! 5],
     csum_start = from_le_bytes [value ! 6, value ! 7],
     csum_offset = from_le_bytes [value ! 8, value ! 9],
     num_buffers = 0 \<rparr>"

definition from_bytes :: "bytes \<Rightarrow> offload_error + virtio_net_hdr" where
  "from_bytes bs =
    (if length bs \<noteq> VIRTIO_NET_HDR_LEN then Inl (VirtioHdrLength (length bs))
     else Inr (virtio_from_array bs))"

definition to_bytes :: "virtio_net_hdr \<Rightarrow> bytes" where
  "to_bytes h =
    (let out0 = replicate VIRTIO_NET_HDR_LEN 0;
         out1 = out0[0 := flags h];
         out2 = out1[1 := gso_type h];
         out3 = copy_at 2 (to_le_bytes (hdr_len h)) out2;
         out4 = copy_at 4 (to_le_bytes (gso_size h)) out3;
         out5 = copy_at 6 (to_le_bytes (csum_start h)) out4
     in copy_at 8 (to_le_bytes (csum_offset h)) out5)"

definition normalized_gso_type :: "virtio_net_hdr \<Rightarrow> byte" where
  "normalized_gso_type h = gso_type h AND NOT VIRTIO_NET_HDR_GSO_ECN"

definition is_tcp_gso :: "virtio_net_hdr \<Rightarrow> bool" where
  "is_tcp_gso h \<longleftrightarrow>
    (gso_type h AND NOT VIRTIO_NET_HDR_GSO_ECN = VIRTIO_NET_HDR_GSO_TCPV4 \<or>
     gso_type h AND NOT VIRTIO_NET_HDR_GSO_ECN = VIRTIO_NET_HDR_GSO_TCPV6) \<and> gso_size h \<noteq> 0"

definition needs_checksum :: "virtio_net_hdr \<Rightarrow> bool" where
  "needs_checksum h \<longleftrightarrow> flags h AND VIRTIO_NET_HDR_F_NEEDS_CSUM \<noteq> 0"

section \<open>Splitting and composing TUN frames\<close>

definition split_tun_frame ::
  "bytes \<Rightarrow> bool \<Rightarrow> offload_error + (virtio_net_hdr option \<times> bytes)" where
  "split_tun_frame frame vnet_hdr_enabled =
    (if \<not> vnet_hdr_enabled then
       (if frame = [] then Inl ZeroLengthFrame else Inr (None, frame))
     else if length frame < VIRTIO_NET_HDR_LEN then Inl (FrameShorterThanHdr (length frame))
     else and_then (from_bytes (take VIRTIO_NET_HDR_LEN frame)) (\<lambda>offload.
       let ip_packet = drop VIRTIO_NET_HDR_LEN frame in
       if ip_packet = [] then Inl EmptyPayloadAfterHdr
       else if gso_type offload = VIRTIO_NET_HDR_GSO_NONE then
         (if flags offload \<noteq> 0 \<or> csum_start offload \<noteq> 0 \<or> csum_offset offload \<noteq> 0
          then Inr (Some offload, ip_packet) else Inr (None, ip_packet))
       else if is_tcp_gso offload then Inr (Some offload, ip_packet)
       else Inl (UnsupportedTunGsoType (gso_type offload))))"

text \<open>The buffer \<open>out\<close> is the caller's: it keeps its content on an error and holds
  exactly the frame on success.\<close>

definition compose_tun_frame ::
  "bytes \<Rightarrow> bool \<Rightarrow> virtio_net_hdr option \<Rightarrow> bytes \<Rightarrow> bytes \<times> (offload_error + unit)" where
  "compose_tun_frame out vnet_hdr_enabled offload ip_packet =
    (if ip_packet = [] then (out, Inl ComposeEmptyPayload)
     else if \<not> vnet_hdr_enabled \<and> offload \<noteq> None then (out, Inl OffloadWithoutVnetHdr)
     else
       ((if vnet_hdr_enabled
         then to_bytes (case offload of None \<Rightarrow> virtio_default | Some h \<Rightarrow> h) else [])
        @ ip_packet, Inr ()))"

section \<open>Round trips\<close>

lemma to_bytes_list:
  "to_bytes h = [flags h, gso_type h,
     to_le_bytes (hdr_len h) ! 0, to_le_bytes (hdr_len h) ! 1,
     to_le_bytes (gso_size h) ! 0, to_le_bytes (gso_size h) ! 1,
     to_le_bytes (csum_start h) ! 0, to_le_bytes (csum_start h) ! 1,
     to_le_bytes (csum_offset h) ! 0, to_le_bytes (csum_offset h) ! 1]"
proof -
  have two: "\<exists>a b. to_le_bytes (w :: 16 word) = [a, b]" for w
    by (metis le16.enc_length length2_conv)
  obtain a b c d e f g i where
    "to_le_bytes (hdr_len h) = [a, b]" "to_le_bytes (gso_size h) = [c, d]"
    "to_le_bytes (csum_start h) = [e, f]" "to_le_bytes (csum_offset h) = [g, i]"
    using two by metis
  then show ?thesis
    by (simp add: to_bytes_def Let_def virtio_consts copy_at_def numeral_eq_Suc)
qed

lemma length_to_bytes [simp]: "length (to_bytes h) = 10"
  by (simp add: to_bytes_list)

lemma virtio_from_array_to_bytes: "virtio_from_array (to_bytes h) = h\<lparr>num_buffers := 0\<rparr>"
  by (simp add: virtio_from_array_def to_bytes_list codec_simps)

lemma from_bytes_to_bytes: "from_bytes (to_bytes h) = Inr (h\<lparr>num_buffers := 0\<rparr>)"
  by (simp add: from_bytes_def virtio_consts virtio_from_array_to_bytes)

lemma to_le_from_le16 [simp]: "to_le_bytes (from_le_bytes [a, b] :: 16 word) = [a, b]"
  by (rule le16.enc_dec) simp

lemma list10_conv:
  "length xs = 10 \<Longrightarrow>
    [xs ! 0, xs ! 1, xs ! 2, xs ! 3, xs ! 4, xs ! 5, xs ! 6, xs ! 7, xs ! 8, xs ! 9] = xs"
  by (rule nth_equalityI) (auto simp: less_Suc_eq numeral_eq_Suc)

lemma to_bytes_from_array: "length bs = 10 \<Longrightarrow> to_bytes (virtio_from_array bs) = bs"
  by (subst (3) list10_conv [symmetric]) (simp_all add: virtio_from_array_def to_bytes_list)

lemma num_buffers_from_array [simp]: "num_buffers (virtio_from_array bs) = 0"
  by (simp add: virtio_from_array_def)

lemma to_bytes_from_bytes: "from_bytes bs = Inr h \<Longrightarrow> to_bytes h = bs \<and> num_buffers h = 0"
  by (auto simp: from_bytes_def virtio_consts to_bytes_from_array split: if_splits)

text \<open>The metadata a frame can carry: what \<open>split_tun_frame\<close> hands on unchanged.\<close>

definition carried_offload :: "virtio_net_hdr option \<Rightarrow> bool" where
  "carried_offload offload \<longleftrightarrow> (case offload of None \<Rightarrow> True
    | Some h \<Rightarrow> num_buffers h = 0 \<and>
       (if gso_type h = VIRTIO_NET_HDR_GSO_NONE
        then flags h \<noteq> 0 \<or> csum_start h \<noteq> 0 \<or> csum_offset h \<noteq> 0
        else is_tcp_gso h))"

lemma split_hdr_append:
  assumes "ip_packet \<noteq> []"
  shows "split_tun_frame (to_bytes h @ ip_packet) True =
    (if gso_type h = VIRTIO_NET_HDR_GSO_NONE then
       (if flags h \<noteq> 0 \<or> csum_start h \<noteq> 0 \<or> csum_offset h \<noteq> 0
        then Inr (Some (h\<lparr>num_buffers := 0\<rparr>), ip_packet) else Inr (None, ip_packet))
     else if is_tcp_gso h then Inr (Some (h\<lparr>num_buffers := 0\<rparr>), ip_packet)
     else Inl (UnsupportedTunGsoType (gso_type h)))"
  using assms
  by (simp add: split_tun_frame_def from_bytes_to_bytes VIRTIO_NET_HDR_LEN_def is_tcp_gso_def)

text \<open>C31: composing a frame and splitting it again, on a device with the same
  vnet-header setting, gives back the offload metadata and the IP packet.\<close>

theorem compose_split_roundtrip:
  assumes "compose_tun_frame out vnet offload ip_packet = (frame, Inr ())"
    and "carried_offload offload"
  shows "split_tun_frame frame vnet = Inr (offload, ip_packet)"
proof (cases vnet)
  case True
  then have frame: "ip_packet \<noteq> []"
    "frame = to_bytes (case offload of None \<Rightarrow> virtio_default | Some h \<Rightarrow> h) @ ip_packet"
    using assms(1) by (auto simp: compose_tun_frame_def split: if_splits)
  show ?thesis
  proof (cases offload)
    case None
    then show ?thesis
      using frame True by (simp add: split_hdr_append virtio_default_def virtio_consts)
  next
    case (Some h)
    then show ?thesis
      using frame True assms(2)
      by (auto simp: split_hdr_append carried_offload_def split: if_splits)
  qed
next
  case False
  then show ?thesis
    using assms by (auto simp: compose_tun_frame_def split_tun_frame_def split: if_splits)
qed

theorem compose_split_roundtrip_witness:
  "split_tun_frame (to_bytes (virtio_default\<lparr>flags := 1, csum_start := 20\<rparr>) @ [0x45, 0]) True
    = Inr (Some (virtio_default\<lparr>flags := 1, csum_start := 20\<rparr>), [0x45, 0])"
  by (rule compose_split_roundtrip [where out = "[]"])
    (simp_all add: compose_tun_frame_def carried_offload_def virtio_default_def virtio_consts)

text \<open>The converse: a frame whose metadata is handed on is recomposed byte for byte.\<close>

lemma split_compose_roundtrip:
  assumes "split_tun_frame frame vnet = Inr (offload, ip_packet)"
    and "offload \<noteq> None \<or> \<not> vnet"
  shows "compose_tun_frame out vnet offload ip_packet = (frame, Inr ())"
proof (cases vnet)
  case True
  with assms obtain h where h: "offload = Some h"
    "from_bytes (take 10 frame) = Inr h" "ip_packet = drop 10 frame" "ip_packet \<noteq> []"
    by (auto simp: split_tun_frame_def virtio_consts Let_def and_then_eq_Inr_iff split: if_splits)
  then have "to_bytes h = take 10 frame" using to_bytes_from_bytes by blast
  then show ?thesis using h True by (simp add: compose_tun_frame_def)
next
  case False
  then show ?thesis
    using assms by (auto simp: split_tun_frame_def compose_tun_frame_def split: if_splits)
qed

end
