(* ===== verification/Ip_Tcp.thy ===== *)
theory Ip_Tcp
  imports Checksum Tun_Frame
begin

unbundle bit_operations_syntax

text \<open>
  Header rewriting shared by segmentation and coalescing in
  \<open>tunnel/offload.rs\<close>: the IPv4 total length and header checksum, the IPv6 payload
  length, the TCP checksums over both pseudo headers, and the partial
  pseudo-header sum of a \<open>NEEDS_CSUM\<close> frame.  The lemmas say which bytes each
  rewrite touches and that the checksums it leaves behind verify.
\<close>

section \<open>The code\<close>

definition update_ipv4_lengths_and_checksum :: "bytes \<Rightarrow> nat \<Rightarrow> offload_error + bytes" where
  "update_ipv4_lengths_and_checksum packet packet_len =
    (if length packet < 20 then Inl Ipv4TooShort
     else if packet ! 9 \<noteq> 6 then Inl (Ipv4NotTcp (packet ! 9))
     else
       let ihl = unat (packet ! 0 AND 0x0F) * 4 in
       if ihl < 20 \<or> ihl > length packet then Inl (InvalidIhl ihl)
       else if packet_len > 65535 then Inl (Ipv4TotalLenTooLarge packet_len)
       else
         let packet1 = copy_at 2 (to_be_bytes (of_nat packet_len :: 16 word)) packet;
             packet2 = packet1[10 := 0];
             packet3 = packet2[11 := 0];
             checksum = finalize_checksum (add_bytes 0 (take ihl packet3))
         in Inr (copy_at 10 (to_be_bytes checksum) packet3))"

definition update_ipv6_payload_length :: "bytes \<Rightarrow> nat \<Rightarrow> offload_error + bytes" where
  "update_ipv6_payload_length packet packet_len =
    (if length packet < 40 then Inl Ipv6TooShort
     else if packet_len < 40 then Inl Ipv6LengthUnderflow
     else
       let payload_len = packet_len - 40 in
       if payload_len > 65535 then Inl (Ipv6PayloadTooLarge payload_len)
       else Inr (copy_at 4 (to_be_bytes (of_nat payload_len :: 16 word)) packet))"

definition tcp_checksum_ipv4 :: "bytes \<Rightarrow> nat \<Rightarrow> offload_error + 16 word" where
  "tcp_checksum_ipv4 packet tcp_offset =
    (if length packet < 20 \<or> tcp_offset \<ge> length packet then Inl InvalidTcpOffset4
     else
       let tcp_len = length packet - tcp_offset in
       if tcp_len > 65535 then Inl (TcpTooLarge4 tcp_len)
       else
         let sum1 = add_bytes 0 (sub_bytes 12 20 packet);
             sum2 = sum1 + 6;
             sum3 = sum2 + of_nat tcp_len;
             sum4 = add_bytes sum3 (drop tcp_offset packet)
         in Inr (finalize_checksum sum4))"

definition tcp_checksum_ipv6 :: "bytes \<Rightarrow> nat \<Rightarrow> offload_error + 16 word" where
  "tcp_checksum_ipv6 packet tcp_offset =
    (if length packet < 40 \<or> tcp_offset \<ge> length packet then Inl InvalidTcpOffset6
     else
       let tcp_len = length packet - tcp_offset in
       if tcp_len \<ge> 2 ^ 32 then Inl (TcpTooLarge6 tcp_len)
       else
         let tcp_len_u32 = (of_nat tcp_len :: 32 word);
             sum1 = add_bytes 0 (sub_bytes 8 24 packet);
             sum2 = add_bytes sum1 (sub_bytes 24 40 packet);
             sum3 = sum2 + (drop_bit 16 tcp_len_u32 AND 0xFFFF);
             sum4 = sum3 + (tcp_len_u32 AND 0xFFFF);
             sum5 = sum4 + 6;
             sum6 = add_bytes sum5 (drop tcp_offset packet)
         in Inr (finalize_checksum sum6))"

definition tcp_pseudo_header_partial :: "bytes \<Rightarrow> bool \<Rightarrow> nat \<Rightarrow> 16 word" where
  "tcp_pseudo_header_partial ip_packet is_ipv6 tcp_len =
    (let sum1 =
       (if is_ipv6 then
          add_bytes 0 (sub_bytes 8 40 ip_packet)
            + (drop_bit 16 (of_nat tcp_len :: 32 word) AND 0xFFFF)
            + ((of_nat tcp_len :: 32 word) AND 0xFFFF)
        else
          add_bytes 0 (sub_bytes 12 20 ip_packet) + ((of_nat tcp_len :: 32 word) AND 0xFFFF))
     in fold_checksum (sum1 + 6))"

section \<open>Adjacent byte writes\<close>

lemma list_update2_copy_at:
  assumes "Suc i < length xs"
  shows "xs[i := a, Suc i := b] = copy_at i [a, b] xs"
proof (rule nth_equalityI)
  show "length (xs[i := a, Suc i := b]) = length (copy_at i [a, b] xs)"
    using assms by (simp add: length_copy_at)
  fix j assume "j < length (xs[i := a, Suc i := b])"
  then show "xs[i := a, Suc i := b] ! j = copy_at i [a, b] xs ! j"
    using assms by (auto simp: nth_copy_at nth_list_update less_Suc_eq)
qed

lemma copy_at_copy_at_same:
  "length f = length g \<Longrightarrow> i + length f \<le> length xs \<Longrightarrow> copy_at i f (copy_at i g xs) = copy_at i f xs"
  by (simp add: copy_at_def min_absorb2)

lemma copy_at_single: "i < length xs \<Longrightarrow> xs[i := a] = copy_at i [a] xs"
  by (simp add: copy_at_def upd_conv_take_nth_drop)

lemma sub_bytes_copy_at_disjoint [byte_simps]:
  assumes "b \<le> i \<or> i + length src \<le> a" and "i + length src \<le> length xs" and "b \<le> length xs"
  shows "sub_bytes a b (copy_at i src xs) = sub_bytes a b xs"
  using assms by (intro sub_bytes_eq_iff [THEN iffD2]) (auto simp: length_copy_at nth_copy_at)

section \<open>IPv4 header rewriting\<close>

definition ipv4_ihl :: "bytes \<Rightarrow> nat" where
  "ipv4_ihl p = unat (p ! 0 AND 0x0F) * 4"

lemma ipv4_ihl_le: "ipv4_ihl p \<le> 60"
proof -
  have "unat (p ! 0 AND 0x0F) \<le> unat (0x0F :: byte)" by (simp only: word_and_le1 flip: word_le_nat_alt)
  then show ?thesis by (simp add: ipv4_ihl_def)
qed

text \<open>What the rewrite leaves in a packet it accepts: the stated total length, a
  header checksum that verifies, and every other byte as it was.\<close>

definition ipv4_header_ok :: "bytes \<Rightarrow> bool" where
  "ipv4_header_ok p \<longleftrightarrow> finalize_checksum (add_bytes 0 (take (ipv4_ihl p) p)) = 0"

definition ipv4_rewritten :: "nat \<Rightarrow> bytes \<Rightarrow> bytes" where
  "ipv4_rewritten n p =
    (let q = copy_at 10 [0, 0] (copy_at 2 (to_be_bytes (of_nat n :: 16 word)) p) in
     copy_at 10 (to_be_bytes (finalize_checksum (add_bytes 0 (take (ipv4_ihl p) q)))) q)"

lemma update_ipv4_eq:
  "update_ipv4_lengths_and_checksum p n =
    (if length p < 20 then Inl Ipv4TooShort
     else if p ! 9 \<noteq> 6 then Inl (Ipv4NotTcp (p ! 9))
     else if ipv4_ihl p < 20 \<or> ipv4_ihl p > length p then Inl (InvalidIhl (ipv4_ihl p))
     else if n > 65535 then Inl (Ipv4TotalLenTooLarge n)
     else Inr (ipv4_rewritten n p))"
  by (simp add: update_ipv4_lengths_and_checksum_def ipv4_ihl_def ipv4_rewritten_def Let_def
      list_update2_copy_at [of 10, simplified] length_copy_at be16.enc_length)

lemma length_ipv4_rewritten [byte_simps]: "20 \<le> length p \<Longrightarrow> length (ipv4_rewritten n p) = length p"
  by (simp add: ipv4_rewritten_def Let_def length_copy_at be16.enc_length)

lemma nth_ipv4_rewritten:
  assumes "20 \<le> length p" and "i < length p" and "i \<notin> {2, 3, 10, 11}"
  shows "ipv4_rewritten n p ! i = p ! i"
proof -
  have "\<not> (2 \<le> i \<and> i < 4)" "\<not> (10 \<le> i \<and> i < 12)" using assms(3) by auto
  then show ?thesis
    using assms(1,2)
    by (auto simp: ipv4_rewritten_def Let_def nth_copy_at length_copy_at be16.enc_length)
qed

lemma ipv4_rewritten_total_len:
  assumes "20 \<le> length p" and "n \<le> 65535"
  shows "unat (from_be_bytes (sub_bytes 2 4 (ipv4_rewritten n p)) :: 16 word) = n"
proof -
  have "sub_bytes 2 4 (ipv4_rewritten n p) = to_be_bytes (of_nat n :: 16 word)"
    using assms(1) by (simp add: ipv4_rewritten_def Let_def sub_bytes_copy_at_disjoint
        sub_bytes_copy_at_same length_copy_at be16.enc_length)
  then show ?thesis using assms(2) by (simp add: be16.dec_enc unat_of_nat)
qed

lemma ipv4_rewritten_ihl: "20 \<le> length p \<Longrightarrow> ipv4_ihl (ipv4_rewritten n p) = ipv4_ihl p"
  using nth_ipv4_rewritten [of p 0 n] by (cases p) (simp_all add: ipv4_ihl_def)

lemma ipv4_rewritten_header_ok:
  assumes "20 \<le> length p" and ihl: "20 \<le> ipv4_ihl p" "ipv4_ihl p \<le> length p"
  shows "ipv4_header_ok (ipv4_rewritten n p)"
proof -
  define q where "q = copy_at 2 (to_be_bytes (of_nat n :: 16 word)) p"
  define hd where "hd = take (ipv4_ihl p) q"
  have len: "length q = length p" "length hd = ipv4_ihl p"
    using assms by (simp_all add: q_def hd_def length_copy_at be16.enc_length)
  have "sum16 hd \<le> 65535 * ((length hd + 1) div 2)" by (rule sum16_bound)
  also have "\<dots> \<le> 65535 * 30" using ipv4_ihl_le [of p] len(2) by simp
  finally have "unat (0 :: 32 word) + sum16 hd + 65535 < 2 ^ 32" by simp
  from fill_checksum_verifies [of 10, OF _ _ this]
  have fill: "finalize_checksum (add_bytes 0 (copy_at 10
      (to_be_bytes (finalize_checksum (add_bytes 0 (copy_at 10 [0, 0] hd)))) hd)) = 0"
    using len ihl by simp
  have "take (ipv4_ihl p) (ipv4_rewritten n p) =
      copy_at 10 (to_be_bytes (finalize_checksum (add_bytes 0 (copy_at 10 [0, 0] hd)))) hd"
    using assms len
    by (simp add: ipv4_rewritten_def Let_def flip: q_def)
      (simp add: hd_def take_copy_at_inside copy_at_copy_at_same be16.enc_length length_copy_at)
  then show ?thesis
    using fill assms by (simp add: ipv4_header_ok_def ipv4_rewritten_ihl)
qed

section \<open>TCP checksums\<close>

definition pseudo4 :: "bytes \<Rightarrow> nat \<Rightarrow> 32 word" where
  "pseudo4 p tcp_len = add_bytes 0 (sub_bytes 12 20 p) + 6 + of_nat tcp_len"

definition pseudo6 :: "bytes \<Rightarrow> nat \<Rightarrow> 32 word" where
  "pseudo6 p tcp_len = add_bytes 0 (sub_bytes 8 40 p)
    + (drop_bit 16 (of_nat tcp_len :: 32 word) AND 0xFFFF)
    + ((of_nat tcp_len :: 32 word) AND 0xFFFF) + 6"

lemma sub_bytes_split: "a \<le> b \<Longrightarrow> b \<le> c \<Longrightarrow> sub_bytes a b xs @ sub_bytes b c xs = sub_bytes a c xs"
  using take_add [of "b - a" "c - b" "drop a xs"] by (simp add: sub_bytes_def)

lemma tcp_checksum_ipv4_eq:
  assumes "20 \<le> length p" and "t < length p" and "length p - t \<le> 65535"
  shows "tcp_checksum_ipv4 p t =
    Inr (finalize_checksum (add_bytes (pseudo4 p (length p - t)) (drop t p)))"
  using assms by (simp add: tcp_checksum_ipv4_def Let_def pseudo4_def)

lemma tcp_checksum_ipv6_eq:
  assumes "40 \<le> length p" and "t < length p" and "length p - t < 2 ^ 32"
  shows "tcp_checksum_ipv6 p t =
    Inr (finalize_checksum (add_bytes (pseudo6 p (length p - t)) (drop t p)))"
proof -
  have "add_bytes (add_bytes 0 (sub_bytes 8 24 p)) (sub_bytes 24 40 p) = add_bytes 0 (sub_bytes 8 40 p)"
  proof -
    have "even (length (sub_bytes 8 24 p))" using assms(1) by (simp add: length_sub_bytes)
    then have "sum16 (sub_bytes 8 40 p) = sum16 (sub_bytes 8 24 p) + sum16 (sub_bytes 24 40 p)"
      using sum16_append [of "sub_bytes 8 24 p" "sub_bytes 24 40 p"] sub_bytes_split [of 8 24 40 p]
      by simp
    then show ?thesis by (simp add: add_bytes_eq)
  qed
  then show ?thesis using assms by (simp add: tcp_checksum_ipv6_def Let_def pseudo6_def)
qed

lemma sum16_sub_bytes_bound: "sum16 (sub_bytes a b p) \<le> 65535 * ((b - a + 1) div 2)"
proof -
  have "sum16 (sub_bytes a b p) \<le> 65535 * ((length (sub_bytes a b p) + 1) div 2)"
    by (rule sum16_bound)
  also have "\<dots> \<le> 65535 * ((b - a + 1) div 2)"
    by (intro mult_le_mono2 div_le_mono) (simp add: length_sub_bytes)
  finally show ?thesis .
qed

lemma unat_pseudo4:
  assumes "n \<le> 65535"
  shows "unat (pseudo4 p n) = sum16 (sub_bytes 12 20 p) + 6 + n"
proof -
  have "sum16 (sub_bytes 12 20 p) \<le> 65535 * 4" using sum16_sub_bytes_bound [of 12 20 p] by simp
  then have "sum16 (sub_bytes 12 20 p) + 6 + n < 2 ^ 32" using assms by simp
  moreover have "pseudo4 p n = of_nat (sum16 (sub_bytes 12 20 p) + 6 + n)"
    by (simp add: pseudo4_def add_bytes_eq)
  ultimately show ?thesis by (simp only: unat_of_nat) simp
qed

lemma unat_pseudo6:
  assumes "n < 2 ^ 32"
  shows "unat (pseudo6 p n) = sum16 (sub_bytes 8 40 p) + n div 65536 + n mod 65536 + 6"
proof -
  have n: "unat (of_nat n :: 32 word) = n" using assms by (simp add: unat_of_nat)
  have hi: "drop_bit 16 (of_nat n :: 32 word) AND 0xFFFF = of_nat (n div 65536)"
  proof -
    have "unat (drop_bit 16 (of_nat n :: 32 word) AND 0xFFFF) = n div 65536 mod 65536"
      by (simp add: unat_low_half unat_high_half n)
    also have "\<dots> = n div 65536" using assms by simp
    finally show ?thesis by (metis of_nat_unat ucast_id)
  qed
  have lo: "(of_nat n :: 32 word) AND 0xFFFF = of_nat (n mod 65536)"
    by (metis n of_nat_unat ucast_id unat_low_half)
  have "sum16 (sub_bytes 8 40 p) \<le> 65535 * 16" using sum16_sub_bytes_bound [of 8 40 p] by simp
  moreover have "n div 65536 < 65536" "n mod 65536 < 65536" using assms by simp_all
  ultimately have "sum16 (sub_bytes 8 40 p) + n div 65536 + n mod 65536 + 6 < 2 ^ 32" by simp
  moreover have "pseudo6 p n = of_nat (sum16 (sub_bytes 8 40 p) + n div 65536 + n mod 65536 + 6)"
    unfolding pseudo6_def hi lo by (simp add: add_bytes_eq)
  ultimately show ?thesis by (simp only: unat_of_nat) simp
qed

text \<open>Zeroing the TCP checksum field, summing, and writing the complement gives a
  segment on which the same computation yields zero.\<close>

lemma fill_tcp_checksum:
  assumes t: "t + 20 \<le> length s"
    and small: "unat seed + sum16 (drop t s) + 65535 < 2 ^ 32"
  shows "finalize_checksum (add_bytes seed (drop t (copy_at (t + 16)
     (to_be_bytes (finalize_checksum (add_bytes seed (drop t (copy_at (t + 16) [0, 0] s))))) s))) = 0"
  using fill_checksum_verifies [of 16 "drop t s" seed] t small
  by (simp add: drop_copy_at_inside)

lemma sum16_drop_bound: "sum16 (drop t s) \<le> 65535 * ((length s - t + 1) div 2)"
  using sum16_bound [of "drop t s"] by simp

lemma fill_tcp_checksum_ipv4:
  assumes t: "20 \<le> t" "t + 20 \<le> length s" "length s - t \<le> 65535"
    and c: "tcp_checksum_ipv4 (copy_at (t + 16) [0, 0] s) t = Inr c"
  shows "tcp_checksum_ipv4 (copy_at (t + 16) (to_be_bytes c) s) t = Inr 0"
proof -
  define n where "n = length s - t"
  have pseudo: "pseudo4 (copy_at (t + 16) f s) n = pseudo4 s n" if "length f = 2" for f
    using that t by (simp add: pseudo4_def sub_bytes_copy_at_disjoint)
  have c: "c = finalize_checksum (add_bytes (pseudo4 s n) (drop t (copy_at (t + 16) [0, 0] s)))"
    using c t by (simp add: tcp_checksum_ipv4_eq length_copy_at pseudo flip: n_def)
  have "sum16 (sub_bytes 12 20 s) \<le> 65535 * 4" using sum16_sub_bytes_bound [of 12 20 s] by simp
  moreover have "sum16 (drop t s) \<le> 65535 * 32768"
    using sum16_drop_bound [of t s] t(3) by (auto elim!: order_trans)
  ultimately have "unat (pseudo4 s n) + sum16 (drop t s) + 65535 < 2 ^ 32"
    using t by (simp add: unat_pseudo4 n_def)
  from fill_tcp_checksum [OF t(2) this] show ?thesis
    using t by (simp add: tcp_checksum_ipv4_eq length_copy_at pseudo be16.enc_length
        flip: n_def c)
qed

lemma fill_tcp_checksum_ipv6:
  assumes t: "40 \<le> t" "t + 20 \<le> length s" "length s - t \<le> 65600"
    and c: "tcp_checksum_ipv6 (copy_at (t + 16) [0, 0] s) t = Inr c"
  shows "tcp_checksum_ipv6 (copy_at (t + 16) (to_be_bytes c) s) t = Inr 0"
proof -
  define n where "n = length s - t"
  have pseudo: "pseudo6 (copy_at (t + 16) f s) n = pseudo6 s n" if "length f = 2" for f
    using that t by (simp add: pseudo6_def sub_bytes_copy_at_disjoint)
  have n: "n < 2 ^ 32" using t by (simp add: n_def)
  have c: "c = finalize_checksum (add_bytes (pseudo6 s n) (drop t (copy_at (t + 16) [0, 0] s)))"
    using c t n by (simp add: tcp_checksum_ipv6_eq length_copy_at pseudo flip: n_def)
  have "sum16 (sub_bytes 8 40 s) \<le> 65535 * 16" using sum16_sub_bytes_bound [of 8 40 s] by simp
  moreover have "sum16 (drop t s) \<le> 65535 * 32800"
    using sum16_drop_bound [of t s] t(3) by (auto elim!: order_trans)
  moreover have "n div 65536 \<le> 1" "n mod 65536 \<le> 65535" using t by (simp_all add: n_def)
  ultimately have "unat (pseudo6 s n) + sum16 (drop t s) + 65535 < 2 ^ 32"
    using n by (simp add: unat_pseudo6)
  from fill_tcp_checksum [OF t(2) this] show ?thesis
    using t n by (simp add: tcp_checksum_ipv6_eq length_copy_at pseudo be16.enc_length
        flip: n_def c)
qed

end
