(* ===== verification/Segmentation.thy ===== *)
theory Segmentation
  imports Ip_Tcp
begin

unbundle bit_operations_syntax

text \<open>
  The software fallback of \<open>tunnel/offload.rs\<close> that turns offload metadata into
  plain packets: \<open>segment_tcp_gso_into\<close> cuts a TCP GSO packet into wire-sized
  segments, \<open>materialize_offload_into\<close> dispatches between segmentation, checksum
  completion and passing a packet through.

  The callback \<open>emit\<close> is a state transformer: it receives the state its closure
  captures and one packet, and returns the new state and the callback's result.
  The reused \<open>scratch\<close> buffer is cleared before every use, so it is a local value.
\<close>

section \<open>The code\<close>

type_synonym 's emitter = "'s \<Rightarrow> bytes \<Rightarrow> 's \<times> (offload_error + unit)"

definition ip_header_len_for_tcp :: "bytes \<Rightarrow> byte \<Rightarrow> offload_error + nat" where
  "ip_header_len_for_tcp ip_packet version =
    (if version = 4 then
       (let ihl = unat (ip_packet ! 0 AND 0x0F) * 4 in
        if ihl < 20 \<or> length ip_packet < ihl \<or> ip_packet ! 9 \<noteq> 6
        then Inl Ipv4GsoNotPlainTcp else Inr ihl)
     else if version = 6 then
       (if length ip_packet < 40 \<or> ip_packet ! 6 \<noteq> 6 then Inl Ipv6GsoNotPlainTcp else Inr 40)
     else Inl (UnsupportedIpVersion version))"

text \<open>The checks before the first packet is emitted; the result is the IP version,
  the offset of the TCP header and the length of all headers.\<close>

definition gso_layout :: "virtio_net_hdr \<Rightarrow> bytes \<Rightarrow> offload_error + (byte \<times> nat \<times> nat)" where
  "gso_layout offload ip_packet =
    (if \<not> is_tcp_gso offload then Inl NotTcpGso
     else if ip_packet = [] then Inl EmptyIpPacket
     else
       let version = drop_bit 4 (ip_packet ! 0);
           normalized_type = normalized_gso_type offload
       in
       if (version = 4 \<and> normalized_type = VIRTIO_NET_HDR_GSO_TCPV4) \<or>
          (version = 6 \<and> normalized_type = VIRTIO_NET_HDR_GSO_TCPV6) then
         and_then
           (if needs_checksum offload then Inr (unat (csum_start offload))
            else ip_header_len_for_tcp ip_packet version)
           (\<lambda>tcp_offset.
             if tcp_offset + 20 > length ip_packet
             then Inl (InvalidTcpOffset tcp_offset (length ip_packet))
             else
               let tcp_header_len = unat (drop_bit 4 (ip_packet ! (tcp_offset + 12))) * 4;
                   header_len = tcp_offset + tcp_header_len
               in
               if tcp_header_len < 20 \<or> header_len > length ip_packet
               then Inl (InvalidTcpHeaderLen tcp_header_len tcp_offset (length ip_packet))
               else Inr (version, tcp_offset, header_len))
       else if version = 4 \<or> version = 6 then Inl (VersionGsoMismatch version normalized_type)
       else Inl (UnsupportedIpVersion version))"

text \<open>One iteration of the segmentation loop, up to the call of \<open>emit\<close>.\<close>

definition segment_chunk ::
  "byte \<Rightarrow> nat \<Rightarrow> nat \<Rightarrow> nat \<Rightarrow> bytes \<Rightarrow> nat \<Rightarrow> offload_error + bytes" where
  "segment_chunk version tcp_offset header_len gso ip_packet chunk_offset =
    (let payload = drop header_len ip_packet;
         base_seq = (from_be_bytes (sub_bytes (tcp_offset + 4) (tcp_offset + 8) ip_packet) :: 32 word);
         original_tcp_flags = ip_packet ! (tcp_offset + 13);
         checksum_index = tcp_offset + 16;
         chunk_end = min (chunk_offset + gso) (length payload);
         chunk = sub_bytes chunk_offset chunk_end payload;
         scratch0 = take header_len ip_packet @ chunk
     in
     if chunk_offset \<ge> 2 ^ 32 then Inl (SeqOffsetOutOfRange chunk_offset)
     else
       let seq = base_seq + of_nat chunk_offset;
           scratch1 = copy_at (tcp_offset + 4) (to_be_bytes seq) scratch0;
           scratch2 =
             (if chunk_end < length payload
              then scratch1[tcp_offset + 13 := original_tcp_flags AND NOT (0x01 OR 0x08)]
              else scratch1)
       in
       and_then
         (if version = 4
          then update_ipv4_lengths_and_checksum scratch2 (header_len + length chunk)
          else update_ipv6_payload_length scratch2 (header_len + length chunk))
         (\<lambda>scratch3.
           let scratch4 = scratch3[checksum_index := 0];
               scratch5 = scratch4[checksum_index + 1 := 0]
           in
           and_then
             (if version = 4 then tcp_checksum_ipv4 scratch5 tcp_offset
              else tcp_checksum_ipv6 scratch5 tcp_offset)
             (\<lambda>checksum. Inr (copy_at checksum_index (to_be_bytes checksum) scratch5))))"

function segment_loop ::
  "byte \<Rightarrow> nat \<Rightarrow> nat \<Rightarrow> nat \<Rightarrow> bytes \<Rightarrow> 's emitter \<Rightarrow> nat \<Rightarrow> 's \<Rightarrow> 's \<times> (offload_error + unit)" where
  "segment_loop version tcp_offset header_len gso ip_packet emit chunk_offset st =
    (if gso = 0 \<or> chunk_offset \<ge> length (drop header_len ip_packet) then (st, Inr ())
     else
       case segment_chunk version tcp_offset header_len gso ip_packet chunk_offset of
         Inl e \<Rightarrow> (st, Inl e)
       | Inr segment \<Rightarrow>
           (case emit st segment of
              (st', Inl e) \<Rightarrow> (st', Inl e)
            | (st', Inr _) \<Rightarrow>
                segment_loop version tcp_offset header_len gso ip_packet emit (chunk_offset + gso) st'))"
  by pat_completeness auto

termination segment_loop
  by (relation "measure (\<lambda>(version, tcp_offset, header_len, gso, ip_packet, emit, chunk_offset, st).
        length (drop header_len ip_packet) - chunk_offset)") auto

declare segment_loop.simps [simp del]

definition segment_tcp_gso_into ::
  "virtio_net_hdr \<Rightarrow> bytes \<Rightarrow> 's emitter \<Rightarrow> 's \<Rightarrow> 's \<times> (offload_error + unit)" where
  "segment_tcp_gso_into offload ip_packet emit st =
    (case gso_layout offload ip_packet of
       Inl e \<Rightarrow> (st, Inl e)
     | Inr (version, tcp_offset, header_len) \<Rightarrow>
         let payload = drop header_len ip_packet;
             gso = unat (gso_size offload);
             checksum_index = tcp_offset + 16
         in
         if length payload \<le> gso then
           (if \<not> needs_checksum offload then emit st ip_packet
            else
              let checksum = finalize_checksum (add_bytes 0 (drop tcp_offset ip_packet)) in
              emit st (copy_at checksum_index (to_be_bytes checksum) ip_packet))
         else segment_loop version tcp_offset header_len gso ip_packet emit 0 st)"

text \<open>The collecting callback of the allocating wrappers.\<close>

definition push_packet :: "bytes list emitter" where
  "push_packet out segment = (out @ [segment], Inr ())"

definition collected :: "'a \<times> (offload_error + unit) \<Rightarrow> offload_error + 'a" where
  "collected r = (case r of (out, Inl e) \<Rightarrow> Inl e | (out, Inr _) \<Rightarrow> Inr out)"

definition segment_tcp_gso_packet :: "virtio_net_hdr \<Rightarrow> bytes \<Rightarrow> offload_error + bytes list" where
  "segment_tcp_gso_packet offload ip_packet =
    collected (segment_tcp_gso_into offload ip_packet push_packet [])"

definition validate_checksum_offload ::
  "virtio_net_hdr \<Rightarrow> bytes \<Rightarrow> offload_error + (nat \<times> nat) option" where
  "validate_checksum_offload offload ip_packet =
    (if gso_type offload \<noteq> VIRTIO_NET_HDR_GSO_NONE then Inl (ChecksumNeedsGsoNone (gso_type offload))
     else if ip_packet = [] then Inl EmptyIpPacket
     else if \<not> needs_checksum offload then Inr None
     else
       let unsupported_flags =
         flags offload AND NOT (VIRTIO_NET_HDR_F_NEEDS_CSUM OR VIRTIO_NET_HDR_F_DATA_VALID)
       in
       if unsupported_flags \<noteq> 0 then Inl (UnsupportedChecksumFlags unsupported_flags)
       else
         let start = unat (csum_start offload) in
         if start \<ge> length ip_packet then Inl (InvalidCsumStart start (length ip_packet))
         else
           let checksum_index = start + unat (csum_offset offload) in
           if checksum_index + 2 > length ip_packet
           then Inl (InvalidCsumOffset (unat (csum_offset offload)) checksum_index (length ip_packet))
           else Inr (Some (start, checksum_index)))"

definition materialize_offload_into ::
  "virtio_net_hdr \<Rightarrow> bytes \<Rightarrow> 's emitter \<Rightarrow> 's \<Rightarrow> 's \<times> (offload_error + unit)" where
  "materialize_offload_into offload ip_packet emit st =
    (if is_tcp_gso offload then segment_tcp_gso_into offload ip_packet emit st
     else if gso_type offload \<noteq> VIRTIO_NET_HDR_GSO_NONE
     then (st, Inl (UnsupportedMetaGsoType (gso_type offload)))
     else
       case validate_checksum_offload offload ip_packet of
         Inl e \<Rightarrow> (st, Inl e)
       | Inr None \<Rightarrow> emit st ip_packet
       | Inr (Some (start, checksum_index)) \<Rightarrow>
           let checksum = finalize_checksum (add_bytes 0 (drop start ip_packet)) in
           emit st (copy_at checksum_index (to_be_bytes checksum) ip_packet))"

definition materialize_offload_packet :: "virtio_net_hdr \<Rightarrow> bytes \<Rightarrow> offload_error + bytes list" where
  "materialize_offload_packet offload ip_packet =
    collected (materialize_offload_into offload ip_packet push_packet [])"

definition complete_checksum_offload_packet :: "virtio_net_hdr \<Rightarrow> bytes \<Rightarrow> offload_error + bytes" where
  "complete_checksum_offload_packet offload ip_packet =
    (case validate_checksum_offload offload ip_packet of
       Inl e \<Rightarrow> Inl e
     | Inr None \<Rightarrow> Inr ip_packet
     | Inr (Some (start, checksum_index)) \<Rightarrow>
         let checksum = finalize_checksum (add_bytes 0 (drop start ip_packet)) in
         Inr (copy_at checksum_index (to_be_bytes checksum) ip_packet))"

section \<open>One segment\<close>

text \<open>What a segment must be, relative to the GSO packet it was cut from: the chunk of
  payload at \<open>chunk_offset\<close>, the sequence number advanced by it, FIN and PSH kept only
  on the last segment, consistent IP length fields, checksums that verify, and every
  other header byte copied.\<close>

definition rewritten_fields :: "byte \<Rightarrow> nat \<Rightarrow> nat set" where
  "rewritten_fields version t =
    (if version = 4 then {2, 3, 10, 11} else {4, 5}) \<union> {t + 4..<t + 8} \<union> {t + 13, t + 16, t + 17}"

definition segment_lengths_ok :: "byte \<Rightarrow> bytes \<Rightarrow> bool" where
  "segment_lengths_ok version seg \<longleftrightarrow>
    (if version = 4
     then unat (from_be_bytes (sub_bytes 2 4 seg) :: 16 word) = length seg
     else unat (from_be_bytes (sub_bytes 4 6 seg) :: 16 word) + 40 = length seg)"

definition segment_checksums_ok :: "byte \<Rightarrow> nat \<Rightarrow> bytes \<Rightarrow> bool" where
  "segment_checksums_ok version t seg \<longleftrightarrow>
    (if version = 4
     then ipv4_header_ok seg \<and> tcp_checksum_ipv4 seg t = Inr 0
     else tcp_checksum_ipv6 seg t = Inr 0)"

definition good_segment :: "byte \<Rightarrow> nat \<Rightarrow> nat \<Rightarrow> nat \<Rightarrow> bytes \<Rightarrow> nat \<Rightarrow> bytes \<Rightarrow> bool" where
  "good_segment version t h g p off seg \<longleftrightarrow>
    take h seg @ take g (drop (h + off) p) = seg \<and>
    (from_be_bytes (sub_bytes (t + 4) (t + 8) seg) :: 32 word) =
      from_be_bytes (sub_bytes (t + 4) (t + 8) p) + of_nat off \<and>
    seg ! (t + 13) = (if h + off + g < length p then p ! (t + 13) AND NOT 0x09 else p ! (t + 13)) \<and>
    segment_lengths_ok version seg \<and> segment_checksums_ok version t seg \<and>
    (\<forall>i < h. i \<notin> rewritten_fields version t \<longrightarrow> seg ! i = p ! i)"

text \<open>Packets the segmenter can cut: consistent header lengths and segments that fit
  the IP length fields.\<close>

definition segmentable :: "byte \<Rightarrow> nat \<Rightarrow> nat \<Rightarrow> nat \<Rightarrow> bytes \<Rightarrow> bool" where
  "segmentable version t h g p \<longleftrightarrow>
    0 < g \<and> t + 20 \<le> h \<and> h \<le> length p \<and> length p \<le> 2 ^ 32 \<and>
    (if version = 4
     then 20 \<le> ipv4_ihl p \<and> ipv4_ihl p \<le> t \<and> p ! 9 = 6 \<and> h + g \<le> 65535
     else version = 6 \<and> 40 \<le> t \<and> h + g \<le> 65575)"

text \<open>The buffer before the IP lengths are rewritten.\<close>

definition chunk_draft :: "nat \<Rightarrow> nat \<Rightarrow> nat \<Rightarrow> bytes \<Rightarrow> nat \<Rightarrow> bytes" where
  "chunk_draft t h g p off =
    (let s = copy_at (t + 4)
           (to_be_bytes ((from_be_bytes (sub_bytes (t + 4) (t + 8) p) :: 32 word) + of_nat off))
           (take h p @ take g (drop (h + off) p)) in
     if h + off + g < length p then s[t + 13 := p ! (t + 13) AND NOT 0x09] else s)"

definition chunk_rewritten :: "byte \<Rightarrow> nat \<Rightarrow> bytes \<Rightarrow> bytes" where
  "chunk_rewritten version n d =
    (if version = 4 then ipv4_rewritten n d
     else copy_at 4 (to_be_bytes (of_nat (n - 40) :: 16 word)) d)"

lemma length_chunk_draft:
  assumes "segmentable v t h g p" and "off < length p - h"
  shows "length (chunk_draft t h g p off) = h + min g (length p - h - off)"
  using assms
  by (auto simp: chunk_draft_def Let_def segmentable_def length_copy_at be32.enc_length)

lemma nth_chunk_draft:
  assumes "segmentable v t h g p" and "off < length p - h" and "i < h" and "i \<notin> {t + 4..<t + 8} \<union> {t + 13}"
  shows "chunk_draft t h g p off ! i = p ! i"
  using assms
  by (auto simp: chunk_draft_def Let_def segmentable_def nth_copy_at nth_list_update be32.enc_length
      nth_append)

lemma chunk_draft_flags:
  assumes "segmentable v t h g p" and "off < length p - h"
  shows "chunk_draft t h g p off ! (t + 13) =
    (if h + off + g < length p then p ! (t + 13) AND NOT 0x09 else p ! (t + 13))"
  using assms
  by (auto simp: chunk_draft_def Let_def segmentable_def nth_copy_at length_copy_at be32.enc_length
      nth_append)

lemma chunk_draft_seq:
  assumes "segmentable v t h g p" and "off < length p - h"
  shows "(from_be_bytes (sub_bytes (t + 4) (t + 8) (chunk_draft t h g p off)) :: 32 word) =
    from_be_bytes (sub_bytes (t + 4) (t + 8) p) + of_nat off"
  using assms
  by (auto simp: chunk_draft_def Let_def segmentable_def copy_at_single length_copy_at be32.enc_length
      sub_bytes_copy_at_disjoint sub_bytes_copy_at_same be32.dec_enc)

lemma chunk_draft_payload:
  assumes "segmentable v t h g p" and "off < length p - h"
  shows "drop h (chunk_draft t h g p off) = take g (drop (h + off) p)"
  using assms
  by (auto simp: chunk_draft_def Let_def segmentable_def copy_at_single length_copy_at be32.enc_length
      drop_copy_at)

lemmas chunk_draft_facts =
  length_chunk_draft nth_chunk_draft chunk_draft_flags chunk_draft_seq chunk_draft_payload

lemma segmentable_version: "segmentable v t h g p \<Longrightarrow> v = 4 \<or> v = 6"
  by (auto simp: segmentable_def split: if_splits)

lemma length_chunk_rewritten:
  "20 \<le> length d \<Longrightarrow> length (chunk_rewritten v n d) = length d"
  by (simp add: chunk_rewritten_def length_ipv4_rewritten length_copy_at be16.enc_length)

lemma chunk_rewritten_same:
  assumes "40 \<le> length d" and "i < length d" and "i \<notin> (if v = 4 then {2, 3, 10, 11} else {4, 5})"
  shows "chunk_rewritten v n d ! i = d ! i"
proof (cases "v = 4")
  case True
  then show ?thesis using assms by (simp add: chunk_rewritten_def nth_ipv4_rewritten)
next
  case False
  then have "\<not> (4 \<le> i \<and> i < 6)" using assms(3) by auto
  then show ?thesis
    using assms False by (auto simp: chunk_rewritten_def nth_copy_at be16.enc_length)
qed

lemma update_lengths_eq:
  assumes "segmentable v t h g p" and "off < length p - h"
    and d: "d = chunk_draft t h g p off"
  shows "(if v = 4 then update_ipv4_lengths_and_checksum d (length d)
          else update_ipv6_payload_length d (length d)) = Inr (chunk_rewritten v (length d) d)"
proof -
  have len: "length d = h + min g (length p - h - off)"
    unfolding d by (rule length_chunk_draft [OF assms(1,2)])
  have h: "40 \<le> h" using assms(1) by (auto simp: segmentable_def split: if_splits)
  show ?thesis
  proof (cases "v = 4")
    case True
    then have "20 \<le> t" and p: "p ! 9 = 6" "20 \<le> ipv4_ihl p" "ipv4_ihl p \<le> t" "h + g \<le> 65535" "t + 20 \<le> h"
      using assms(1) by (auto simp: segmentable_def)
    then have "d ! 9 = p ! 9" "d ! 0 = p ! 0"
      unfolding d using h nth_chunk_draft [OF assms(1,2), of 9] nth_chunk_draft [OF assms(1,2), of 0]
      by simp_all
    then show ?thesis
      using True p len h by (simp add: update_ipv4_eq chunk_rewritten_def ipv4_ihl_def)
  next
    case False
    then show ?thesis
      using assms(1) len h
      by (auto simp: update_ipv6_payload_length_def Let_def chunk_rewritten_def segmentable_def)
  qed
qed

text \<open>The finished segment, in terms of the rewritten draft.\<close>

definition chunk_final :: "byte \<Rightarrow> nat \<Rightarrow> bytes \<Rightarrow> offload_error + bytes" where
  "chunk_final v t r =
    and_then (if v = 4 then tcp_checksum_ipv4 (copy_at (t + 16) [0, 0] r) t
              else tcp_checksum_ipv6 (copy_at (t + 16) [0, 0] r) t)
      (\<lambda>c. Inr (copy_at (t + 16) (to_be_bytes c) (copy_at (t + 16) [0, 0] r)))"

lemma sub_bytes_min: "sub_bytes a (min (a + n) (length xs)) xs = take n (drop a xs)"
  by (simp add: sub_bytes_def min_def)

lemma segment_chunk_eq:
  assumes seg: "segmentable v t h g p" and off: "off < length p - h"
    and d: "d = chunk_draft t h g p off"
  shows "segment_chunk v t h g p off = chunk_final v t (chunk_rewritten v (length d) d)"
proof -
  have "length p \<le> 2 ^ 32" using seg by (simp add: segmentable_def)
  then have "off < 2 ^ 32" using off by linarith
  then have in_range: "(2 ^ 32 \<le> off) = False" by simp
  have chunk: "sub_bytes off (min (off + g) (length p - h)) (drop h p) = take g (drop (h + off) p)"
    using sub_bytes_min [of off g "drop h p"] by (simp add: add.commute)
  have last: "min (off + g) (length p - h) < length p - h \<longleftrightarrow> h + off + g < length p"
    using off by auto
  have fin: "(0x01 OR 0x08 :: byte) = 0x09" by simp
  have len: "length d = h + length (take g (drop (h + off) p))"
    using length_chunk_draft [OF seg off] by (simp add: d)
  define r where "r = chunk_rewritten v (length d) d"
  have "Suc (t + 16) < length r"
    using seg len unfolding r_def by (subst length_chunk_rewritten) (auto simp: segmentable_def)
  then have zero: "r[t + 16 := 0, t + 16 + 1 := 0] = copy_at (t + 16) [0, 0] r"
    using list_update2_copy_at [of "t + 16" r 0 0] by simp
  have upd: "(if v = 4 then update_ipv4_lengths_and_checksum d (length d)
          else update_ipv6_payload_length d (length d)) = Inr r"
    unfolding r_def by (rule update_lengths_eq [OF assms])
  show ?thesis
    by (simp only: segment_chunk_def Let_def length_drop chunk last in_range if_False fin
        d [unfolded chunk_draft_def Let_def, symmetric] len [symmetric] upd and_then_simps zero
        chunk_final_def r_def [symmetric])
qed

lemma chunk_final_fields:
  assumes "chunk_final v t r = Inr seg" and "t + 20 \<le> length r"
  obtains c where "seg = copy_at (t + 16) (to_be_bytes (c :: 16 word)) r"
    "(if v = 4 then tcp_checksum_ipv4 (copy_at (t + 16) [0, 0] r) t
      else tcp_checksum_ipv6 (copy_at (t + 16) [0, 0] r) t) = Inr c"
  using assms
  by (auto simp: chunk_final_def and_then_eq_Inr_iff copy_at_copy_at_same be16.enc_length)

lemma drop_chunk_rewritten:
  "12 \<le> a \<Longrightarrow> a \<le> length d \<Longrightarrow> 20 \<le> length d \<Longrightarrow> drop a (chunk_rewritten v n d) = drop a d"
  by (simp add: chunk_rewritten_def ipv4_rewritten_def Let_def drop_copy_at length_copy_at
      be16.enc_length)

lemma sub_bytes_chunk_rewritten:
  "12 \<le> a \<Longrightarrow> a \<le> length d \<Longrightarrow> 20 \<le> length d \<Longrightarrow>
    sub_bytes a b (chunk_rewritten v n d) = sub_bytes a b d"
  by (simp add: sub_bytes_def drop_chunk_rewritten)

lemma chunk_rewritten_lengths:
  assumes "40 \<le> length d" and "if v = 4 then length d \<le> 65535 else length d \<le> 65575"
    and r: "length r = length d" "\<And>i. i < 12 \<Longrightarrow> r ! i = chunk_rewritten v (length d) d ! i"
  shows "segment_lengths_ok v r"
proof -
  have sub: "sub_bytes a b r = sub_bytes a b (chunk_rewritten v (length d) d)" if "b \<le> 12" for a b
    using that assms(1) r by (intro sub_bytes_eq_iff [THEN iffD2]) (auto simp: length_chunk_rewritten)
  show ?thesis
  proof (cases "v = 4")
    case True
    then show ?thesis
      using assms by (simp add: segment_lengths_ok_def sub)
        (simp add: chunk_rewritten_def ipv4_rewritten_total_len)
  next
    case False
    then have "sub_bytes 4 6 r = to_be_bytes (of_nat (length d - 40) :: 16 word)"
      using assms by (simp add: sub)
        (simp add: chunk_rewritten_def sub_bytes_copy_at_same be16.enc_length)
    then show ?thesis
      using assms False by (simp add: segment_lengths_ok_def be16.dec_enc unat_of_nat del: of_nat_diff)
  qed
qed

text \<open>The finished segment \<open>s\<close> differs from the rewritten draft in its TCP checksum only.\<close>

definition chunk_segment :: "byte \<Rightarrow> nat \<Rightarrow> bytes \<Rightarrow> 16 word \<Rightarrow> bytes" where
  "chunk_segment v t d c = copy_at (t + 16) (to_be_bytes c) (chunk_rewritten v (length d) d)"

definition chunk_checksum :: "byte \<Rightarrow> nat \<Rightarrow> bytes \<Rightarrow> offload_error + 16 word" where
  "chunk_checksum v t d =
    (let z = copy_at (t + 16) [0, 0] (chunk_rewritten v (length d) d) in
     if v = 4 then tcp_checksum_ipv4 z t else tcp_checksum_ipv6 z t)"

lemma length_chunk_segment:
  "20 \<le> t \<Longrightarrow> t + 20 \<le> length d \<Longrightarrow> length (chunk_segment v t d c) = length d"
  by (simp add: chunk_segment_def length_copy_at length_chunk_rewritten be16.enc_length)

lemma nth_chunk_segment:
  assumes "20 \<le> t" "t + 20 \<le> length d" "i < length d" "i \<noteq> t + 16" "i \<noteq> t + 17"
  shows "chunk_segment v t d c ! i = chunk_rewritten v (length d) d ! i"
  using assms
  by (auto simp: chunk_segment_def nth_copy_at length_chunk_rewritten be16.enc_length less_Suc_eq)

lemma nth_chunk_segment_same:
  assumes "20 \<le> t" "t + 20 \<le> length d" "i < length d" "i \<noteq> t + 16" "i \<noteq> t + 17"
    and "i \<notin> (if v = 4 then {2, 3, 10, 11} else {4, 5})"
  shows "chunk_segment v t d c ! i = d ! i"
  using assms by (subst nth_chunk_segment) (auto intro: chunk_rewritten_same)

lemma drop_chunk_segment:
  "20 \<le> t \<Longrightarrow> t + 20 \<le> h \<Longrightarrow> h \<le> length d \<Longrightarrow> drop h (chunk_segment v t d c) = drop h d"
  by (simp add: chunk_segment_def drop_copy_at length_chunk_rewritten be16.enc_length
      drop_chunk_rewritten)

lemma seq_chunk_segment:
  "20 \<le> t \<Longrightarrow> t + 20 \<le> length d \<Longrightarrow>
    sub_bytes (t + 4) (t + 8) (chunk_segment v t d c) = sub_bytes (t + 4) (t + 8) d"
  by (simp add: chunk_segment_def sub_bytes_copy_at_disjoint length_chunk_rewritten be16.enc_length
      sub_bytes_chunk_rewritten)

lemma chunk_checksum_defined:
  assumes "20 \<le> t" "t + 20 \<le> length d" "if v = 4 then length d \<le> 65535 else length d \<le> 65575"
  obtains c where "chunk_checksum v t d = Inr c"
  using assms
  by (auto simp: chunk_checksum_def Let_def tcp_checksum_ipv4_eq tcp_checksum_ipv6_eq length_copy_at
      length_chunk_rewritten split: if_splits)

lemma chunk_segment_checksums:
  assumes t: "20 \<le> t" "t + 20 \<le> length d"
    and bound: "if v = 4 then length d \<le> 65535 \<and> 20 \<le> ipv4_ihl d \<and> ipv4_ihl d \<le> t
                else 40 \<le> t \<and> length d \<le> 65575"
    and c: "chunk_checksum v t d = Inr c"
  shows "segment_checksums_ok v t (chunk_segment v t d c)"
proof (cases "v = 4")
  case True
  define r where "r = chunk_rewritten v (length d) d"
  have r: "length r = length d" using t by (simp add: r_def length_chunk_rewritten)
  have "ipv4_header_ok r" "ipv4_ihl r \<le> t"
    using True t bound by (auto simp: r_def chunk_rewritten_def ipv4_rewritten_ihl
        intro!: ipv4_rewritten_header_ok)
  moreover have "ipv4_ihl (chunk_segment v t d c) = ipv4_ihl r"
    using nth_chunk_segment [OF t, of 0 v c] t by (cases "d = []") (auto simp: ipv4_ihl_def r_def)
  moreover have "take n (chunk_segment v t d c) = take n r" if "n \<le> t" for n
    using that t r by (simp add: chunk_segment_def take_copy_at flip: r_def)
  ultimately have "ipv4_header_ok (chunk_segment v t d c)" by (simp add: ipv4_header_ok_def)
  moreover have "tcp_checksum_ipv4 (chunk_segment v t d c) t = Inr 0"
    using c True t r bound unfolding chunk_segment_def
    by (intro fill_tcp_checksum_ipv4) (auto simp: chunk_checksum_def Let_def length_chunk_rewritten)
  ultimately show ?thesis using True by (simp add: segment_checksums_ok_def)
next
  case False
  then have "tcp_checksum_ipv6 (chunk_segment v t d c) t = Inr 0"
    using c t bound unfolding chunk_segment_def
    by (intro fill_tcp_checksum_ipv6) (auto simp: chunk_checksum_def Let_def length_chunk_rewritten)
  then show ?thesis using False by (simp add: segment_checksums_ok_def)
qed

lemma segment_chunk_good:
  assumes seg: "segmentable v t h g p" and off: "off < length p - h"
  obtains s where "segment_chunk v t h g p off = Inr s" and "good_segment v t h g p off s"
proof -
  define d where "d = chunk_draft t h g p off"
  have len: "length d = h + min g (length p - h - off)"
    unfolding d_def by (rule length_chunk_draft [OF seg off])
  have t: "20 \<le> t" "t + 20 \<le> h" using seg by (auto simp: segmentable_def split: if_splits)
  then have td: "t + 20 \<le> length d" using len by simp
  have bound: "if v = 4 then length d \<le> 65535 else length d \<le> 65575"
    using seg len by (auto simp: segmentable_def)
  obtain c where c: "chunk_checksum v t d = Inr c"
    using chunk_checksum_defined [OF t(1) td bound] .
  define s where "s = chunk_segment v t d c"
  have "segment_chunk v t h g p off = Inr s"
    using c t td unfolding segment_chunk_eq [OF seg off d_def] chunk_final_def s_def chunk_segment_def
    by (simp add: copy_at_copy_at_same be16.enc_length length_chunk_rewritten chunk_checksum_def Let_def
        split: if_splits)
  moreover have "good_segment v t h g p off s"
    unfolding good_segment_def
  proof (intro conjI allI impI)
    have "drop h s = take g (drop (h + off) p)"
      unfolding s_def d_def using t chunk_draft_payload [OF seg off] len
      by (subst drop_chunk_segment) (auto simp flip: d_def)
    then show "take h s @ take g (drop (h + off) p) = s" by (metis append_take_drop_id)
    show "(from_be_bytes (sub_bytes (t + 4) (t + 8) s) :: 32 word) =
        from_be_bytes (sub_bytes (t + 4) (t + 8) p) + of_nat off"
      using chunk_draft_seq [OF seg off] seq_chunk_segment [OF t(1) td, of v c]
      by (simp add: s_def flip: d_def)
    show "s ! (t + 13) = (if h + off + g < length p then p ! (t + 13) AND NOT 9 else p ! (t + 13))"
      using chunk_draft_flags [OF seg off] nth_chunk_segment_same [OF t(1) td, of "t + 13" v c] t td
      by (simp add: s_def flip: d_def)
    show "segment_lengths_ok v s"
      using t td bound by (intro chunk_rewritten_lengths [of d])
        (auto simp: s_def length_chunk_segment intro!: nth_chunk_segment)
    have "ipv4_ihl d = ipv4_ihl p"
      using t nth_chunk_draft [OF seg off, of 0] by (simp add: ipv4_ihl_def d_def)
    then show "segment_checksums_ok v t s"
      unfolding s_def using c t td bound seg
      by (intro chunk_segment_checksums) (auto simp: segmentable_def)
    show "s ! i = p ! i" if "i < h" "i \<notin> rewritten_fields v t" for i
      using that t td len nth_chunk_segment_same [OF t(1) td, of i v c]
        nth_chunk_draft [OF seg off, of i]
      by (auto simp: rewritten_fields_def s_def simp flip: d_def split: if_splits)
  qed
  ultimately show thesis by (rule that)
qed

section \<open>The whole packet\<close>

definition chunk_count :: "nat \<Rightarrow> nat \<Rightarrow> nat" where
  "chunk_count g n = (n + g - 1) div g"

lemma chunk_count_iff:
  assumes "0 < g"
  shows "k < chunk_count g n \<longleftrightarrow> k * g < n"
proof -
  have "k < (n + g - 1) div g \<longleftrightarrow> Suc k * g \<le> n + g - 1"
    using assms by (simp add: less_eq_div_iff_mult_less_eq Suc_le_eq [symmetric])
  also have "\<dots> \<longleftrightarrow> k * g < n" using assms by auto
  finally show ?thesis by (simp add: chunk_count_def)
qed

lemma segment_loop_collects:
  assumes "0 < g" and "\<And>k. k < n \<Longrightarrow> segment_chunk v t h g p (k * g) = Inr (f k)"
    and n: "n = chunk_count g (length p - h)" and "j \<le> n"
  shows "segment_loop v t h g p push_packet (j * g) out = (out @ map f [j..<n], Inr ())"
  using \<open>j \<le> n\<close>
proof (induction "n - j" arbitrary: j out)
  case 0
  then have "\<not> j < n" by simp
  then have "length p - h \<le> j * g" using chunk_count_iff [OF assms(1)] n by simp
  then show ?case using 0 by (subst segment_loop.simps) simp
next
  case (Suc x)
  then have "j < n" by simp
  then have "j * g < length p - h" using chunk_count_iff [OF assms(1)] n by simp
  then show ?case
    using Suc.hyps(1) [of "Suc j" "out @ [f j]"] Suc.hyps(2) \<open>j < n\<close> assms(1,2)
    by (subst segment_loop.simps) (simp add: push_packet_def upt_conv_Cons add.commute)
qed

lemma concat_chunks: "concat (map (\<lambda>k. take g (drop (k * g) xs)) [0..<n]) = take (n * g) xs"
proof (induction n)
  case (Suc n)
  then show ?case using take_add [of "n * g" g xs] by (simp add: add.commute)
qed simp

text \<open>Segmentation is total on packets the segmenter can cut: the segments, in order,
  are good segments and carry exactly the original payload.\<close>

lemma segment_packet_collects:
  assumes lay: "gso_layout offload p = Inr (v, t, h)"
    and seg: "segmentable v t h (unat (gso_size offload)) p"
    and big: "unat (gso_size offload) < length p - h"
  obtains f where
    "segment_tcp_gso_packet offload p =
      Inr (map f [0..<chunk_count (unat (gso_size offload)) (length p - h)])"
    "\<And>k. k < chunk_count (unat (gso_size offload)) (length p - h) \<Longrightarrow>
      good_segment v t h (unat (gso_size offload)) p (k * unat (gso_size offload)) (f k)"
proof -
  define g where "g = unat (gso_size offload)"
  define n where "n = chunk_count g (length p - h)"
  have g: "0 < g" using seg by (simp add: segmentable_def g_def)
  have "\<exists>s. segment_chunk v t h g p (k * g) = Inr s \<and> good_segment v t h g p (k * g) s" if "k < n" for k
  proof -
    have "k * g < length p - h" using that chunk_count_iff [OF g] by (simp add: n_def)
    from segment_chunk_good [OF seg [folded g_def] this] show ?thesis by blast
  qed
  then obtain f where f: "\<And>k. k < n \<Longrightarrow> segment_chunk v t h g p (k * g) = Inr (f k)"
    "\<And>k. k < n \<Longrightarrow> good_segment v t h g p (k * g) (f k)" by metis
  have "segment_tcp_gso_packet offload p = Inr (map f [0..<n])"
    using segment_loop_collects [OF g f(1) n_def, where j = 0 and out = "[]"] lay big
    by (simp add: segment_tcp_gso_packet_def segment_tcp_gso_into_def Let_def collected_def
        flip: g_def)
  with f(2) show thesis by (intro that [of f]) (simp_all flip: g_def n_def)
qed

lemma good_segment_payload:
  assumes "good_segment v t h g p off s" and "h \<le> length s"
  shows "drop h s = take g (drop (h + off) p)"
proof -
  have "take h s @ take g (drop (h + off) p) = s" using assms(1) by (simp add: good_segment_def)
  then have "drop h s = drop h (take h s @ take g (drop (h + off) p))" by simp
  also have "\<dots> = take g (drop (h + off) p)" using assms(2) by simp
  finally show ?thesis .
qed

lemma good_segment_length:
  assumes "good_segment v t h g p off s" and "off < length p - h" and "0 < g"
  shows "h \<le> length s"
proof (rule ccontr)
  assume "\<not> h \<le> length s"
  then have "take h s = s" by simp
  moreover have "take h s @ take g (drop (h + off) p) = s" using assms(1) by (simp add: good_segment_def)
  ultimately have "take g (drop (h + off) p) = []" by simp
  then show False using assms(2,3) by simp
qed

text \<open>C12: cutting a TCP GSO packet succeeds on every packet whose
  headers are consistent and whose segments fit the IP length fields.  It yields
  \<open>ceil(payload / gso_size)\<close> segments, in order; their payloads concatenate to the
  original payload and no segment carries more than \<open>gso_size\<close> bytes; segment \<open>k\<close> has its
  sequence number advanced by \<open>k * gso_size\<close> modulo $2^{32}$, FIN/PSH only on the last
  segment, length fields equal to its real length, IPv4 header and TCP checksums that
  verify, and all other header bytes unchanged.\<close>

theorem segmentation_correct:
  assumes "gso_layout offload p = Inr (v, t, h)"
    and "g = unat (gso_size offload)"
    and "segmentable v t h g p"
    and "g < length p - h"
  shows "\<exists>segs. segment_tcp_gso_packet offload p = Inr segs \<and>
    length segs = chunk_count g (length p - h) \<and>
    concat (map (drop h) segs) = drop h p \<and>
    (\<forall>k < length segs. length (drop h (segs ! k)) \<le> g \<and>
       good_segment v t h g p (k * g) (segs ! k))"
proof -
  define n where "n = chunk_count g (length p - h)"
  have g: "0 < g" using assms(3) by (simp add: segmentable_def)
  obtain f where f: "segment_tcp_gso_packet offload p = Inr (map f [0..<n])"
    "\<And>k. k < n \<Longrightarrow> good_segment v t h g p (k * g) (f k)"
    using segment_packet_collects [OF assms(1) assms(3,4) [unfolded assms(2)]]
    unfolding n_def assms(2) by blast
  have pay: "drop h (f k) = take g (drop (k * g) (drop h p))" if "k < n" for k
    using good_segment_payload [OF f(2) [OF that]] good_segment_length [OF f(2) [OF that] _ g]
      that chunk_count_iff [OF g] by (simp add: n_def add.commute)
  have "concat (map (drop h) (map f [0..<n])) =
      concat (map (\<lambda>k. take g (drop (k * g) (drop h p))) [0..<n])"
    by (rule arg_cong [where f = concat]) (simp add: pay)
  also have "\<dots> = take (n * g) (drop h p)" by (rule concat_chunks)
  also have "\<dots> = drop h p"
    using chunk_count_iff [OF g, of n "length p - h"] by (simp add: n_def)
  finally show ?thesis using f pay by (intro exI [of _ "map f [0..<n]"]) (simp add: n_def)
qed

definition sample_gso_hdr :: virtio_net_hdr where
  "sample_gso_hdr = \<lparr> flags = 1, gso_type = 1, hdr_len = 40, gso_size = 2,
     csum_start = 20, csum_offset = 16, num_buffers = 0 \<rparr>"

definition sample_gso_packet :: bytes where
  "sample_gso_packet =
    [0x45, 0, 0, 45, 0, 1, 0, 0, 64, 6, 0, 0, 10, 0, 0, 1, 10, 0, 0, 2,
     0, 80, 1, 187, 0, 0, 0, 100, 0, 0, 0, 9, 0x50, 0x18, 1, 0, 0, 0, 0, 0,
     1, 2, 3, 4, 5]"

theorem segmentation_correct_witness:
  "\<exists>segs. segment_tcp_gso_packet sample_gso_hdr sample_gso_packet = Inr segs \<and>
    length segs = 3 \<and> concat (map (drop 40) segs) = [1, 2, 3, 4, 5]"
proof -
  have "gso_layout sample_gso_hdr sample_gso_packet = Inr (4, 20, 40)" by code_simp
  moreover have "2 = unat (gso_size sample_gso_hdr)" by code_simp
  moreover have "segmentable 4 20 40 2 sample_gso_packet" 
    by (simp add: segmentable_def sample_gso_packet_def ipv4_ihl_def)
  moreover have "2 < length sample_gso_packet - 40" by code_simp
  ultimately obtain segs where "segment_tcp_gso_packet sample_gso_hdr sample_gso_packet = Inr segs"
    "length segs = chunk_count 2 (length sample_gso_packet - 40)"
    "concat (map (drop 40) segs) = drop 40 sample_gso_packet"
    using segmentation_correct [of sample_gso_hdr sample_gso_packet 4 20 40 2] by blast
  then show ?thesis by (auto simp: sample_gso_packet_def chunk_count_def)
qed

section \<open>Streaming and collecting agree\<close>

text \<open>Feeding a list of packets to a callback, stopping at its first error.\<close>

fun emit_all :: "'s emitter \<Rightarrow> 's \<Rightarrow> bytes list \<Rightarrow> 's \<times> (offload_error + unit)" where
  "emit_all emit st [] = (st, Inr ())"
| "emit_all emit st (seg # segs) =
    (case emit st seg of (st', Inl e) \<Rightarrow> (st', Inl e) | (st', Inr _) \<Rightarrow> emit_all emit st' segs)"

definition replay :: "'s emitter \<Rightarrow> 's \<Rightarrow> bytes list \<times> (offload_error + unit) \<Rightarrow> 's \<times> (offload_error + unit)" where
  "replay emit st run = (case run of (segs, r) \<Rightarrow>
    (case emit_all emit st segs of (st', Inl e) \<Rightarrow> (st', Inl e) | (st', Inr _) \<Rightarrow> (st', r)))"

lemma push_packet_simp [simp]: "push_packet out seg = (out @ [seg], Inr ())"
  by (simp add: push_packet_def)

lemma segment_loop_push_acc:
  "segment_loop v t h g p push_packet off out =
    (case segment_loop v t h g p push_packet off [] of (segs, r) \<Rightarrow> (out @ segs, r))"
proof (induction "length p - h - off" arbitrary: off out rule: less_induct)
  case less
  show ?case
  proof (cases "g = 0 \<or> off \<ge> length (drop h p)")
    case True
    then show ?thesis by (simp add: segment_loop.simps)
  next
    case False
    then have lt: "length p - h - (off + g) < length p - h - off" by auto
    show ?thesis
      using False less [OF lt, of "out @ [_]"] less [OF lt, of "[_]"]
      by (subst (1 2) segment_loop.simps) (auto split: sum.splits prod.splits)
  qed
qed

lemma segment_loop_replay:
  "segment_loop v t h g p emit off st = replay emit st (segment_loop v t h g p push_packet off [])"
proof (induction "length p - h - off" arbitrary: off st rule: less_induct)
  case less
  show ?case
  proof (cases "g = 0 \<or> off \<ge> length (drop h p)")
    case True
    then show ?thesis by (simp add: segment_loop.simps replay_def)
  next
    case False
    then have lt: "length p - h - (off + g) < length p - h - off" by auto
    show ?thesis
    proof (cases "segment_chunk v t h g p off")
      case (Inl e)
      then show ?thesis using False by (simp add: segment_loop.simps replay_def)
    next
      case (Inr seg)
      then show ?thesis
        using False less [OF lt] segment_loop_push_acc [of v t h g p "off + g" "[seg]"]
        by (subst (1 2) segment_loop.simps) (auto simp: replay_def split: sum.splits prod.splits)
    qed
  qed
qed

lemma replay_single: "replay emit st ([pkt], Inr ()) = emit st pkt"
  by (auto simp: replay_def split: sum.splits prod.splits)

lemma segment_into_replay:
  "segment_tcp_gso_into offload p emit st = replay emit st (segment_tcp_gso_into offload p push_packet [])"
  unfolding segment_tcp_gso_into_def
  by (cases "gso_layout offload p")
    (auto simp: replay_def [of _ _ "([], _)"] replay_single Let_def intro: segment_loop_replay
      split: prod.splits)

lemma materialize_replay:
  "materialize_offload_into offload p emit st =
    replay emit st (materialize_offload_into offload p push_packet [])"
  unfolding materialize_offload_into_def
  by (auto simp: replay_def [of _ _ "([], _)"] replay_single Let_def intro: segment_into_replay
      split: sum.splits option.splits prod.splits)

text \<open>the streaming materializer hands its callback exactly the
  packets that the allocating variant collects, in the same order, stops at the first
  error of the callback, and otherwise ends with the same result.\<close>

theorem materialize_streams:
  "materialize_offload_into offload p emit st =
    (case materialize_offload_into offload p push_packet [] of (packets, result) \<Rightarrow>
      (case emit_all emit st packets of
         (st', Inl e) \<Rightarrow> (st', Inl e)
       | (st', Inr _) \<Rightarrow> (st', result)))"
  using materialize_replay [of offload p emit st] by (simp add: replay_def)

section \<open>Completing a partial checksum\<close>

text \<open>\<open>completed start idx p\<close> is what both checksum-completion branches emit.\<close>

definition completed :: "nat \<Rightarrow> nat \<Rightarrow> bytes \<Rightarrow> bytes" where
  "completed start idx p =
    copy_at idx (to_be_bytes (finalize_checksum (add_bytes 0 (drop start p)))) p"

lemma completed_verifies:
  assumes idx: "start \<le> idx" "idx + 2 \<le> length p" "even (idx - start)" and len: "length p \<le> 65575"
    and seed: "0 < unat seed" "unat seed \<le> 2 ^ 24"
      "unat seed mod 65535 = unat (from_be_bytes (sub_bytes idx (idx + 2) p) :: 16 word) mod 65535"
  shows "finalize_checksum (add_bytes seed (drop start (completed start idx p))) = 0"
proof -
  have "sum16 (drop start p) \<le> 65535 * ((length p + 1) div 2)"
    using sum16_drop_bound [of start p] by (auto elim!: order_trans intro!: mult_le_mono2 div_le_mono)
  also have "\<dots> \<le> 65535 * 32788" using len by simp
  finally have "unat seed + sum16 (drop start p) + 65535 < 2 ^ 32" using seed(2) by simp
  moreover have "sub_bytes (idx - start) (idx - start + 2) (drop start p) = sub_bytes idx (idx + 2) p"
    using idx(1) by (simp add: sub_bytes_def)
  moreover have "drop start (completed start idx p) =
      copy_at (idx - start) (to_be_bytes (finalize_checksum (add_bytes 0 (drop start p)))) (drop start p)"
    using idx by (simp add: completed_def drop_copy_at_inside)
  ultimately show ?thesis
    using complete_partial_verifies [of "idx - start" "drop start p" seed] idx seed by simp
qed

lemma completed_frame:
  assumes "idx + 2 \<le> length p"
  shows "length (completed start idx p) = length p"
    and "i < length p \<Longrightarrow> i \<noteq> idx \<Longrightarrow> i \<noteq> idx + 1 \<Longrightarrow> completed start idx p ! i = p ! i"
  using assms by (auto simp: completed_def length_copy_at nth_copy_at be16.enc_length less_Suc_eq)

lemma validate_checksum_offload_Some:
  assumes "validate_checksum_offload offload p = Inr (Some (start, idx))"
  shows "gso_type offload = VIRTIO_NET_HDR_GSO_NONE" "start = unat (csum_start offload)"
    "idx = start + unat (csum_offset offload)" "idx + 2 \<le> length p"
  using assms by (auto simp: validate_checksum_offload_def Let_def split: if_splits)

lemma not_tcp_gso_none: "gso_type offload = VIRTIO_NET_HDR_GSO_NONE \<Longrightarrow> \<not> is_tcp_gso offload"
  by (simp add: is_tcp_gso_def virtio_consts)

text \<open>C18: a packet whose metadata asks for checksum completion
  and whose checksum field holds a partial sum congruent to the pseudo-header seed is
  materialized as exactly one packet of the same length, differing only in the two checksum
  bytes, and summing it with that seed gives the all-ones value a receiver checks for.  The
  allocating routine produces the same packet.\<close>

theorem checksum_completion_verifies:
  assumes "validate_checksum_offload offload p = Inr (Some (start, idx))"
    and "even (unat (csum_offset offload))" and "length p \<le> 65575"
    and "0 < unat seed" and "unat seed \<le> 2 ^ 24"
    and "unat seed mod 65535 = unat (from_be_bytes (sub_bytes idx (idx + 2) p) :: 16 word) mod 65535"
  shows "\<exists>q. materialize_offload_packet offload p = Inr [q] \<and>
    complete_checksum_offload_packet offload p = Inr q \<and> length q = length p \<and>
    (\<forall>i < length p. i \<noteq> idx \<and> i \<noteq> idx + 1 \<longrightarrow> q ! i = p ! i) \<and>
    fold_checksum (add_bytes seed (drop start q)) = 0xFFFF"
proof (intro exI conjI)
  note v = validate_checksum_offload_Some [OF assms(1)]
  show "materialize_offload_packet offload p = Inr [completed start idx p]"
    using assms(1) v(1) not_tcp_gso_none [OF v(1)]
    by (simp add: materialize_offload_packet_def materialize_offload_into_def collected_def
        completed_def Let_def)
  show "complete_checksum_offload_packet offload p = Inr (completed start idx p)"
    using assms(1) by (simp add: complete_checksum_offload_packet_def completed_def Let_def)
  show "length (completed start idx p) = length p" using v(4) by (rule completed_frame)
  show "\<forall>i < length p. i \<noteq> idx \<and> i \<noteq> idx + 1 \<longrightarrow> completed start idx p ! i = p ! i"
    using completed_frame(2) [OF v(4)] by blast
  have "finalize_checksum (add_bytes seed (drop start (completed start idx p))) = 0"
    using v assms by (intro completed_verifies) simp_all
  then show "fold_checksum (add_bytes seed (drop start (completed start idx p))) = 0xFFFF"
    by (simp add: finalize_zero_iff_ones)
qed

definition sample_csum_hdr :: virtio_net_hdr where
  "sample_csum_hdr = \<lparr> flags = 1, gso_type = 0, hdr_len = 0, gso_size = 0,
     csum_start = 4, csum_offset = 2, num_buffers = 0 \<rparr>"

theorem checksum_completion_verifies_witness:
  "\<exists>q. materialize_offload_packet sample_csum_hdr [0x45, 0, 0, 10, 1, 2, 0, 7, 3, 4] = Inr [q] \<and>
    fold_checksum (add_bytes 7 (drop 4 q)) = 0xFFFF"
proof -
  have "validate_checksum_offload sample_csum_hdr [0x45, 0, 0, 10, 1, 2, 0, 7, 3, 4] = Inr (Some (4, 6))"
    by code_simp
  moreover have "even (unat (csum_offset sample_csum_hdr))" by code_simp
  moreover have "unat (7 :: 32 word) mod 65535 =
      unat (from_be_bytes (sub_bytes 6 (6 + 2) [0x45, 0, 0, 10, 1, 2, 0, 7, 3, 4 :: byte]) :: 16 word) mod 65535"
    by (simp add: sub_bytes_def)
  ultimately show ?thesis
    using checksum_completion_verifies
      [of sample_csum_hdr "[0x45, 0, 0, 10, 1, 2, 0, 7, 3, 4]" 4 6 7] by fastforce
qed

end
