(* ===== verification/Stream_Framing.thy ===== *)
theory Stream_Framing
  imports Signaling Segmentation
begin

text \<open>
  \<open>tunnel/stream.rs\<close>: the control-channel frames, and the mapping of IP packets to
  unreliable datagrams.  The arena that packets are copied into is drained by the function
  that fills it, so a copied packet is the packet.  The QUIC connection is a record of its two
  datagram operations on an abstract connection state.
\<close>

section \<open>Control frames\<close>

definition FRAME_LEN_PREFIX :: nat where "FRAME_LEN_PREFIX = 4"

definition MAX_FRAME_BODY :: nat where "MAX_FRAME_BODY = 2 + VIRTIO_NET_HDR_LEN + 65535"

definition HEARTBEAT_BODY_LEN :: nat where "HEARTBEAT_BODY_LEN = 1 + 8"

datatype frame = ServerAddrsFrame bytes | PingFrame "64 word" | PongFrame "64 word"

definition classify :: "bytes \<Rightarrow> ('n4, 'n6) vpn_error + frame" where
  "classify body =
    (case body of
       [] \<Rightarrow> Inl (Signaling ''Empty frame body'')
     | type_byte # rest \<Rightarrow>
         (case from_byte type_byte of
            Some ServerAddrs \<Rightarrow> Inr (ServerAddrsFrame rest)
          | Some kind \<Rightarrow>
              if length rest \<noteq> 8 then Inl (Signaling ''Heartbeat frame body'')
              else let seq = from_be_bytes rest in
                   Inr (if kind = Ping then PingFrame seq else PongFrame seq)
          | None \<Rightarrow> Inl (Signaling ''Unknown frame message type'')))"

definition encode_server_addrs_frame ::
  "server_addrs_msg json \<Rightarrow> bytes \<Rightarrow> server_addrs_msg \<Rightarrow> bytes \<times> (('n4, 'n6) vpn_error + nat)" where
  "encode_server_addrs_frame js buf msg =
    (case server_addrs_encode js msg of
       Inl e \<Rightarrow> (buf, Inl e)
     | Inr body \<Rightarrow>
         let body_len = 1 + length body in
         if body_len > MAX_FRAME_BODY then (buf, Inl (Signaling ''Server addrs frame too large''))
         else (buf @ to_be_bytes (of_nat body_len :: 32 word) @ as_byte ServerAddrs # body,
               Inr (FRAME_LEN_PREFIX + body_len)))"

definition encode_heartbeat_frame :: "data_message_type \<Rightarrow> 64 word \<Rightarrow> bytes" where
  "encode_heartbeat_frame kind seq =
    to_be_bytes (of_nat HEARTBEAT_BODY_LEN :: 32 word) @ as_byte kind # to_be_bytes seq"

text \<open>The body is what the source leaves in the first bytes of its buffer.\<close>

definition read_frame :: "recv_stream \<Rightarrow> ('n4, 'n6) vpn_error + (bytes \<times> recv_stream) option" where
  "read_frame s =
    (case read_exact FRAME_LEN_PREFIX s of
       Inl (FinishedEarly n) \<Rightarrow>
         if n = 0 then Inr None else Inl (ConnectionLost ''control stream read error'')
     | Inl ReadError \<Rightarrow> Inl (ConnectionLost ''control stream read error'')
     | Inr (len_buf, s') \<Rightarrow>
         let body_len = unat (from_be_bytes len_buf :: 32 word) in
         if body_len = 0 \<or> body_len > MAX_FRAME_BODY then Inl (Signaling ''Invalid frame length'')
         else case read_exact body_len s' of
                Inl _ \<Rightarrow> Inl (ConnectionLost ''control stream read error mid-frame'')
              | Inr r \<Rightarrow> Inr (Some r))"

text \<open>Frames given to the stream in order; \<open>put\<close> is the chunked write of the stream.\<close>

definition write_frames ::
  "('w \<Rightarrow> bytes list \<Rightarrow> 'w \<times> (string + unit)) \<Rightarrow> 'w \<Rightarrow> bytes list \<Rightarrow>
     'w \<times> bytes list \<times> (('n4, 'n6) vpn_error + unit)" where
  "write_frames put w pending =
    (case put w pending of
       (w', Inl e) \<Rightarrow> (w', pending, Inl (ConnectionLost ''QUIC stream write error''))
     | (w', Inr _) \<Rightarrow> (w', [], Inr ()))"

section \<open>Datagrams\<close>

record datagram_send_outcome =
  sent :: "64 word"
  dropped_too_large :: "64 word"
  dropped_other :: "64 word"

definition outcome_add :: "datagram_send_outcome \<Rightarrow> datagram_send_outcome \<Rightarrow> datagram_send_outcome" where
  "outcome_add a b = \<lparr> sent = sent a + sent b,
     dropped_too_large = dropped_too_large a + dropped_too_large b,
     dropped_other = dropped_other a + dropped_other b \<rparr>"

definition copy_packet_to_arena :: "bytes \<Rightarrow> bytes \<Rightarrow> bytes \<times> bytes" where
  "copy_packet_to_arena arena packet =
    (let extended = arena @ packet in (drop (length packet) extended, take (length packet) extended))"

definition prepare_one_datagram ::
  "nat option \<Rightarrow> bytes \<Rightarrow> bytes list \<times> datagram_send_outcome \<Rightarrow> bytes list \<times> datagram_send_outcome" where
  "prepare_one_datagram max_size packet st =
    (case (max_size, st) of
       (Some mx, pending, out) \<Rightarrow>
         if length packet \<le> mx then (pending @ [snd (copy_packet_to_arena [] packet)], out)
         else (pending, out\<lparr>dropped_too_large := dropped_too_large out + 1\<rparr>)
     | (None, pending, out) \<Rightarrow> (pending, out\<lparr>dropped_other := dropped_other out + 1\<rparr>))"

definition prepare_ip_datagrams ::
  "nat option \<Rightarrow> virtio_net_hdr option \<Rightarrow> bytes \<Rightarrow> bytes list \<times> datagram_send_outcome \<Rightarrow>
     bytes list \<times> datagram_send_outcome" where
  "prepare_ip_datagrams max_size offload packet st =
    (case offload of
       Some hdr \<Rightarrow>
         (case materialize_offload_into hdr packet (\<lambda>s seg. (prepare_one_datagram max_size seg s, Inr ())) st of
            ((pending, out), Inl e) \<Rightarrow> (pending, out\<lparr>dropped_other := dropped_other out + 1\<rparr>)
          | (st', Inr _) \<Rightarrow> st')
     | None \<Rightarrow> prepare_one_datagram max_size packet st)"

datatype send_datagram_error = TooLarge | SendFailed string

record 'c quic_conn =
  try_send_many :: "'c \<Rightarrow> bytes list \<Rightarrow> 'c \<times> (send_datagram_error + nat)"
  send_wait :: "'c \<Rightarrow> bytes \<Rightarrow> 'c \<times> (send_datagram_error + unit)"

text \<open>The fallback loop that sends the rest one datagram at a time.\<close>

fun send_one_by_one ::
  "'c quic_conn \<Rightarrow> 'c \<Rightarrow> bytes list \<Rightarrow> datagram_send_outcome \<Rightarrow>
     'c \<times> datagram_send_outcome \<times> (send_datagram_error + unit)" where
  "send_one_by_one q c [] out = (c, out, Inr ())"
| "send_one_by_one q c (d # rest) out =
    (case send_wait q c d of
       (c', Inr _) \<Rightarrow> send_one_by_one q c' rest (out\<lparr>sent := sent out + 1\<rparr>)
     | (c', Inl TooLarge) \<Rightarrow>
         send_one_by_one q c' rest (out\<lparr>dropped_too_large := dropped_too_large out + 1\<rparr>)
     | (c', Inl e) \<Rightarrow>
         (c', out\<lparr>dropped_other := dropped_other out + of_nat (length (d # rest))\<rparr>, Inl e))"

function send_datagram_batch ::
  "'c quic_conn \<Rightarrow> 'c \<Rightarrow> bytes list \<Rightarrow> datagram_send_outcome \<Rightarrow>
     'c \<times> datagram_send_outcome \<times> (send_datagram_error + unit)" where
  "send_datagram_batch q c [] out = (c, out, Inr ())"
| "send_datagram_batch q c (d # rest) out =
    (case try_send_many q c (d # rest) of
       (c', Inr 0) \<Rightarrow>
         (case send_wait q c' d of
            (c'', Inr _) \<Rightarrow> send_datagram_batch q c'' rest (out\<lparr>sent := sent out + 1\<rparr>)
          | (c'', Inl TooLarge) \<Rightarrow>
              send_datagram_batch q c'' rest (out\<lparr>dropped_too_large := dropped_too_large out + 1\<rparr>)
          | (c'', Inl e) \<Rightarrow>
              (c'', out\<lparr>dropped_other := dropped_other out + of_nat (length (d # rest))\<rparr>, Inl e))
     | (c', Inr (Suc n)) \<Rightarrow>
         send_datagram_batch q c' (drop n rest) (out\<lparr>sent := sent out + of_nat (Suc n)\<rparr>)
     | (c', Inl TooLarge) \<Rightarrow> send_one_by_one q c' (d # rest) out
     | (c', Inl e) \<Rightarrow>
         (c', out\<lparr>dropped_other := dropped_other out + of_nat (length (d # rest))\<rparr>, Inl e))"
  by pat_completeness auto

termination send_datagram_batch
  by (relation "measure (\<lambda>(q, c, ds, out). length ds)") auto

section \<open>Frames survive the stream\<close>

text \<open>The messages of the control channel and their frames; the receiver's loop.\<close>

datatype control_msg = SendAddrs server_addrs_msg | SendPing "64 word" | SendPong "64 word"

fun frame_bytes :: "server_addrs_msg json \<Rightarrow> control_msg \<Rightarrow> bytes" where
  "frame_bytes js (SendAddrs msg) =
    fst (encode_server_addrs_frame js [] msg :: bytes \<times> ((unit, unit) vpn_error + nat))"
| "frame_bytes js (SendPing seq) = encode_heartbeat_frame Ping seq"
| "frame_bytes js (SendPong seq) = encode_heartbeat_frame Pong seq"

fun frame_of :: "server_addrs_msg json \<Rightarrow> control_msg \<Rightarrow> frame" where
  "frame_of js (SendAddrs msg) = ServerAddrsFrame (the (to_vec js msg))"
| "frame_of js (SendPing seq) = PingFrame seq"
| "frame_of js (SendPong seq) = PongFrame seq"

fun encodable :: "server_addrs_msg json \<Rightarrow> control_msg \<Rightarrow> bool" where
  "encodable js (SendAddrs msg) = (\<exists>body. to_vec js msg = Some body \<and> 1 + length body \<le> MAX_FRAME_BODY)"
| "encodable js _ = True"

definition frame_body :: "server_addrs_msg json \<Rightarrow> control_msg \<Rightarrow> bytes" where
  "frame_body js m = drop 4 (frame_bytes js m)"

lemma frame_layout:
  assumes "encodable js m"
  shows "frame_bytes js m = to_be_bytes (of_nat (length (frame_body js m)) :: 32 word) @ frame_body js m"
    and "frame_body js m \<noteq> []" "length (frame_body js m) \<le> MAX_FRAME_BODY"
    and "classify (frame_body js m) = Inr (frame_of js m)"
  using assms
  by (cases m; auto simp: frame_body_def encode_server_addrs_frame_def server_addrs_encode_def Let_def
      encode_heartbeat_frame_def HEARTBEAT_BODY_LEN_def MAX_FRAME_BODY_def be32.enc_length be64.enc_length
      be64.dec_enc classify_def from_byte_def; fail)+

lemma read_frame_written:
  assumes "body \<noteq> []" and "length body \<le> MAX_FRAME_BODY"
  shows "read_frame (to_be_bytes (of_nat (length body) :: 32 word) @ body @ rest, e) = Inr (Some (body, rest, e))"
proof -
  have "length body < 2 ^ 32" using assms(2) by (simp add: MAX_FRAME_BODY_def VIRTIO_NET_HDR_LEN_def)
  then show ?thesis
    using assms unat_length_prefix [of body]
    by (simp add: read_frame_def FRAME_LEN_PREFIX_def Let_def be32.enc_length)
qed

lemma read_frame_frame:
  "encodable js m \<Longrightarrow> read_frame (frame_bytes js m @ rest, e) = Inr (Some (frame_body js m, rest, e))"
  using read_frame_written [of "frame_body js m" rest e] by (simp add: frame_layout(1-3))

function read_control :: "recv_stream \<Rightarrow> ('n4, 'n6) vpn_error + frame list" where
  "read_control s =
    (case read_frame s of
       Inl e \<Rightarrow> Inl e
     | Inr None \<Rightarrow> Inr []
     | Inr (Some (body, s')) \<Rightarrow>
         and_then (classify body) (\<lambda>f. and_then (read_control s') (\<lambda>fs. Inr (f # fs))))"
  by pat_completeness auto

lemma read_frame_shrinks:
  "read_frame s = Inr (Some (body, s')) \<Longrightarrow> length (fst s') < length (fst s)"
  by (auto simp: read_frame_def read_exact_def FRAME_LEN_PREFIX_def Let_def
      split: sum.splits read_exact_error.splits if_splits stream_end.splits)

termination read_control
  by (relation "measure (\<lambda>s. length (fst s))") (auto dest: read_frame_shrinks)

declare read_control.simps [simp del]

text \<open>C37. Control messages written to the stream one after the other are read
  back, classified, as the same messages in the same order; the reader stops cleanly at the end
  of the stream.\<close>

theorem control_stream_roundtrip:
  assumes "\<forall>m \<in> set ms. encodable js m"
  shows "read_control (concat (map (frame_bytes js) ms), Finished) = Inr (map (frame_of js) ms)"
  using assms
proof (induction ms)
  case Nil
  show ?case by (subst read_control.simps) (simp add: read_frame_def read_exact_def FRAME_LEN_PREFIX_def)
next
  case (Cons m ms)
  then have "encodable js m" by simp
  then show ?case
    using Cons by (subst read_control.simps) (simp add: read_frame_frame frame_layout(4))
qed

definition sample_addrs_json :: "server_addrs_msg json" where
  "sample_addrs_json = \<lparr> to_vec = (\<lambda>m. if m = [V4 9] then Some [0x5B, 0x39, 0x5D] else None),
     from_slice = (\<lambda>b. if b = [0x5B, 0x39, 0x5D] then Some [V4 9] else None) \<rparr>"

theorem control_stream_roundtrip_witness:
  "read_control (concat (map (frame_bytes sample_addrs_json) [SendPing 5, SendAddrs [V4 9], SendPong 6]), Finished) =
    Inr [PingFrame 5, ServerAddrsFrame [0x5B, 0x39, 0x5D], PongFrame 6]"
  using control_stream_roundtrip [of "[SendPing 5, SendAddrs [V4 9], SendPong 6]" sample_addrs_json]
  by (simp add: sample_addrs_json_def MAX_FRAME_BODY_def VIRTIO_NET_HDR_LEN_def)

text \<open>The reader never takes a cut-off frame for a frame or for the end of the stream:
  of the proper prefixes of a frame, the empty one ends the stream cleanly if the peer finished
  it, and every other one (and every broken stream) is a lost connection. A length of zero or
  above the limit is refused before any of the body is read.\<close>

theorem read_frame_truncated:
  assumes "encodable js m" and "k < length (frame_bytes js m)"
  shows "read_frame (take k (frame_bytes js m), e) =
      (if k = 0 \<and> e = Finished then Inr None
       else if k < FRAME_LEN_PREFIX then Inl (ConnectionLost ''control stream read error'')
       else Inl (ConnectionLost ''control stream read error mid-frame'')) \<and>
    (n = 0 \<or> MAX_FRAME_BODY < unat (n :: 32 word) \<longrightarrow>
      read_frame (to_be_bytes n @ rest, e) = Inl (Signaling ''Invalid frame length''))"
proof (intro conjI impI)
  note m = frame_layout [OF assms(1)]
  let ?len = "to_be_bytes (of_nat (length (frame_body js m)) :: 32 word)"
  have "length (frame_body js m) < 2 ^ 32"
    using m(3) by (simp add: MAX_FRAME_BODY_def VIRTIO_NET_HDR_LEN_def)
  note u = unat_length_prefix [OF this]
  show "read_frame (take k (frame_bytes js m), e) =
      (if k = 0 \<and> e = Finished then Inr None
       else if k < FRAME_LEN_PREFIX then Inl (ConnectionLost ''control stream read error'')
       else Inl (ConnectionLost ''control stream read error mid-frame''))"
  proof (cases "k < 4")
    case True
    then have "length (take k (frame_bytes js m)) < 4" "length (take k (frame_bytes js m)) = k" using assms(2) by simp_all
    then show ?thesis
      using True by (cases e) (simp_all add: read_frame_def FRAME_LEN_PREFIX_def read_exact_short)
  next
    case False
    then have t: "take k (frame_bytes js m) = ?len @ take (k - 4) (frame_body js m)"
      by (subst m(1)) (simp add: be32.enc_length)
    have short: "length (take (k - 4) (frame_body js m)) < length (frame_body js m)"
      using assms(2) m(1) False be32.enc_length by (metis (no_types, lifting) add_diff_cancel_left'
          diff_less_mono length_append length_take min_less_iff_disj not_less)
    show ?thesis
      unfolding t using False u m(2,3) read_exact_short [OF short]
      by (simp add: read_frame_def FRAME_LEN_PREFIX_def Let_def be32.enc_length)
  qed
  assume "n = 0 \<or> MAX_FRAME_BODY < unat n"
  then show "read_frame (to_be_bytes n @ rest, e) = Inl (Signaling ''Invalid frame length'')"
    by (auto simp: read_frame_def FRAME_LEN_PREFIX_def Let_def be32.enc_length be32.dec_enc)
qed

theorem read_frame_truncated_witness:
  "read_frame (take 6 (encode_heartbeat_frame Ping 5), Finished) =
    Inl (ConnectionLost ''control stream read error mid-frame'')"
proof -
  have "6 < length (frame_bytes sample_addrs_json (SendPing 5))"
    by (simp add: encode_heartbeat_frame_def be32.enc_length be64.enc_length)
  from read_frame_truncated [OF _ this, THEN conjunct1, simplified] show ?thesis
    by (simp only: FRAME_LEN_PREFIX_def) simp
qed

section \<open>Datagram accounting\<close>

definition accounted :: "datagram_send_outcome \<Rightarrow> 64 word" where
  "accounted out = sent out + dropped_too_large out + dropped_other out"

lemma send_one_by_one_accounts:
  "send_one_by_one q c ds out = (c', out', r) \<Longrightarrow>
    accounted out' = accounted out + of_nat (length ds) \<and> (r = Inr () \<longrightarrow> dropped_other out' = dropped_other out)"
  by (induction q c ds out rule: send_one_by_one.induct)
    (auto simp: accounted_def split: prod.splits sum.splits send_datagram_error.splits)

text \<open>C38. Whatever the connection answers, sending a batch terminates and counts every
  datagram exactly once: the three counters together grow by the size of the batch (as 64-bit
  numbers). A batch that ends without an error drops nothing but oversized datagrams. The
  connection only has to report no more datagrams queued than it was given.\<close>

theorem batch_accounts_every_datagram:
  assumes "\<forall>c ds c' n. try_send_many q c ds = (c', Inr n) \<longrightarrow> n \<le> length ds"
    and "send_datagram_batch q c ds out = (c', out', r)"
  shows "accounted out' = accounted out + of_nat (length ds) \<and>
    (r = Inr () \<longrightarrow> dropped_other out' = dropped_other out)"
  using assms
proof (induction q c ds out rule: send_datagram_batch.induct)
  case (2 q c d rest out)
  obtain c1 t where t: "try_send_many q c (d # rest) = (c1, t)" by force
  show ?case
  proof (cases t)
    case (Inl e)
    then show ?thesis
      using 2(5) t send_one_by_one_accounts [of q c1 "d # rest" out c' out' r]
      by (cases e) (auto simp: accounted_def simp del: send_one_by_one.simps)
  next
    case (Inr n)
    show ?thesis
    proof (cases n)
      case 0
      obtain c2 w where w: "send_wait q c1 d = (c2, w)" by force
      then show ?thesis
        using 2 t Inr 0
        by (auto simp: accounted_def algebra_simps split: sum.splits send_datagram_error.splits)
    next
      case (Suc k)
      then have k: "k \<le> length rest" using 2(4) t Inr by fastforce
      then have "of_nat (length (drop k rest)) + of_nat (Suc k) = (of_nat (length (d # rest)) :: 64 word)"
        by (simp add: of_nat_diff algebra_simps)
      then show ?thesis
        using 2 t Inr Suc by (auto simp: accounted_def algebra_simps)
    qed
  qed
qed (simp add: accounted_def)

definition sample_conn :: "nat quic_conn" where
  "sample_conn = \<lparr> try_send_many = (\<lambda>c ds. (c, if c = 0 then Inr (length ds) else Inr 0)),
     send_wait = (\<lambda>c d. (c - 1, if length d \<le> 2 then Inr () else Inl TooLarge)) \<rparr>"

definition no_outcome :: datagram_send_outcome where
  "no_outcome = \<lparr> sent = 0, dropped_too_large = 0, dropped_other = 0 \<rparr>"

theorem batch_accounts_every_datagram_witness:
  "send_datagram_batch sample_conn 1 [[1, 2, 3], [4], [5, 6]] no_outcome =
      (0, \<lparr> sent = 2, dropped_too_large = 1, dropped_other = 0 \<rparr>, Inr ()) \<and>
    accounted \<lparr> sent = 2, dropped_too_large = 1, dropped_other = 0 \<rparr> = accounted no_outcome + 3"
proof -
  have run: "send_datagram_batch sample_conn 1 [[1, 2, 3], [4], [5, 6]] no_outcome =
      (0, \<lparr> sent = 2, dropped_too_large = 1, dropped_other = 0 \<rparr>, Inr ())"
    by (simp add: sample_conn_def no_outcome_def)
  have "\<forall>c ds c' n. try_send_many sample_conn c ds = (c', Inr n) \<longrightarrow> n \<le> length ds"
    by (auto simp: sample_conn_def)
  from batch_accounts_every_datagram [OF this run] run show ?thesis by simp
qed

lemma emit_all_total: "emit_all (\<lambda>s seg. (f seg s, Inr ())) st segs = (fold f segs st, Inr ())"
  by (induction segs arbitrary: st) simp_all

definition fits :: "nat option \<Rightarrow> bytes \<Rightarrow> bool" where
  "fits max_size packet \<longleftrightarrow> (case max_size of None \<Rightarrow> False | Some mx \<Rightarrow> length packet \<le> mx)"

lemma prepare_one_simp:
  "prepare_one_datagram max_size packet (pending, out) =
    (if fits max_size packet then (pending @ [packet], out)
     else if max_size = None then (pending, out\<lparr>dropped_other := dropped_other out + 1\<rparr>)
     else (pending, out\<lparr>dropped_too_large := dropped_too_large out + 1\<rparr>))"
  by (simp add: prepare_one_datagram_def fits_def copy_packet_to_arena_def Let_def split: option.split)

lemma fold_prepare_one:
  "fold (prepare_one_datagram max_size) segs (pending, out) =
    (let refused = of_nat (length (filter (\<lambda>p. \<not> fits max_size p) segs)) in
     (pending @ filter (fits max_size) segs,
      if max_size = None then out\<lparr>dropped_other := dropped_other out + refused\<rparr>
      else out\<lparr>dropped_too_large := dropped_too_large out + refused\<rparr>))"
proof (cases max_size)
  case None
  have "fold (prepare_one_datagram None) segs (pending, out) =
      (pending, out\<lparr>dropped_other := dropped_other out + of_nat (length segs)\<rparr>)"
    by (induction segs arbitrary: pending out) (simp_all add: prepare_one_simp fits_def algebra_simps)
  then show ?thesis by (simp add: None fits_def)
next
  case (Some mx)
  have "fold (prepare_one_datagram (Some mx)) segs (pending, out) =
      (pending @ filter (fits (Some mx)) segs,
       out\<lparr>dropped_too_large := dropped_too_large out + of_nat (length (filter (\<lambda>p. \<not> fits (Some mx) p) segs))\<rparr>)"
    by (induction segs arbitrary: pending out) (simp_all add: prepare_one_simp algebra_simps)
  then show ?thesis by (simp add: Some)
qed

lemma prepare_offload_eq:
  "prepare_ip_datagrams max_size (Some hdr) packet (pending, out) =
    (case materialize_offload_into hdr packet push_packet [] of (segs, result) \<Rightarrow>
      let refused = of_nat (length (filter (\<lambda>p. \<not> fits max_size p) segs));
          failed = (case result of Inl _ \<Rightarrow> 1 | Inr _ \<Rightarrow> 0) in
      (pending @ filter (fits max_size) segs,
       out\<lparr>dropped_too_large := dropped_too_large out + (if max_size = None then 0 else refused),
           dropped_other := dropped_other out + (if max_size = None then refused else 0) + failed\<rparr>))"
proof -
  obtain segs result where m: "materialize_offload_into hdr packet push_packet [] = (segs, result)" by force
  have "materialize_offload_into hdr packet (\<lambda>s seg. (prepare_one_datagram max_size seg s, Inr ())) (pending, out) =
      (fold (prepare_one_datagram max_size) segs (pending, out), result)"
    by (subst materialize_replay) (simp add: replay_def m emit_all_total)
  then show ?thesis
    by (simp add: prepare_ip_datagrams_def fold_prepare_one m Let_def split: sum.split)
qed

text \<open>From a packet with offload metadata exactly those of its materialized packets
  that fit the connection's datagram limit are queued, unchanged and in order; every other one
  is counted, as oversized when there is a limit and as another drop when the peer takes no
  datagrams; and a packet that cannot be materialized adds one more drop, after the packets cut
  from it before the error.\<close>

theorem prepared_datagrams:
  "prepare_ip_datagrams max_size (Some hdr) packet (pending, out) =
    (case materialize_offload_into hdr packet push_packet [] of (segs, result) \<Rightarrow>
      let refused = of_nat (length (filter (\<lambda>p. \<not> fits max_size p) segs));
          failed = (case result of Inl _ \<Rightarrow> 1 | Inr _ \<Rightarrow> 0) in
      (pending @ filter (fits max_size) segs,
       out\<lparr>dropped_too_large := dropped_too_large out + (if max_size = None then 0 else refused),
           dropped_other := dropped_other out + (if max_size = None then refused else 0) + failed\<rparr>))"
  by (rule prepare_offload_eq)

end
