(* ===== verification/Packet_Ip.thy ===== *)
theory Packet_Ip
  imports Ip_Net
begin

unbundle bit_operations_syntax

text \<open>
  The packet parsing both tunnel ends share: source and destination addresses, UDP ports and
  the self-encapsulation filter of \<open>tunnel/server.rs\<close> and \<open>tunnel/client.rs\<close>.  A \<open>PacketIp\<close> is
  an \<open>ip_addr\<close>.
\<close>

definition IPV4_MIN_HEADER :: nat where "IPV4_MIN_HEADER = 20"
definition IPV6_MIN_HEADER :: nat where "IPV6_MIN_HEADER = 40"
definition IP_VERSION_4 :: byte where "IP_VERSION_4 = 4"
definition IP_VERSION_6 :: byte where "IP_VERSION_6 = 6"

definition read_ipv4_addr :: "bytes \<Rightarrow> nat \<Rightarrow> 32 word" where
  "read_ipv4_addr packet off = from_be_bytes (sub_bytes off (off + 4) packet)"

definition read_ipv6_addr :: "bytes \<Rightarrow> nat \<Rightarrow> 128 word" where
  "read_ipv6_addr packet off = from_be_bytes (sub_bytes off (off + 16) packet)"

definition extract_source_ip :: "bytes \<Rightarrow> ip_addr option" where
  "extract_source_ip packet =
    (let len = length packet in
     if len < IPV4_MIN_HEADER then None
     else
       let version = drop_bit 4 (packet ! 0) in
       if version = IP_VERSION_4 then Some (V4 (read_ipv4_addr packet 12))
       else if version = IP_VERSION_6 then
         (if len < IPV6_MIN_HEADER then None else Some (V6 (read_ipv6_addr packet 8)))
       else None)"

definition extract_dest_ip :: "bytes \<Rightarrow> ip_addr option" where
  "extract_dest_ip packet =
    (let len = length packet in
     if len < IPV4_MIN_HEADER then None
     else
       let version = drop_bit 4 (packet ! 0) in
       if version = IP_VERSION_4 then Some (V4 (read_ipv4_addr packet 16))
       else if version = IP_VERSION_6 then
         (if len < IPV6_MIN_HEADER then None else Some (V6 (read_ipv6_addr packet 24)))
       else None)"

definition extract_udp_ports :: "bytes \<Rightarrow> (16 word \<times> 16 word) option" where
  "extract_udp_ports packet =
    (if length packet < IPV4_MIN_HEADER then None
     else if drop_bit 4 (packet ! 0) = IP_VERSION_4 then
       (let ihl = unat (packet ! 0 AND 0x0F) * 4 in
        if ihl < IPV4_MIN_HEADER \<or> length packet < ihl + 8 then None
        else if packet ! 9 \<noteq> 17 then None
        else Some (from_be_bytes [packet ! ihl, packet ! (ihl + 1)],
                   from_be_bytes [packet ! (ihl + 2), packet ! (ihl + 3)]))
     else if drop_bit 4 (packet ! 0) = IP_VERSION_6 then
       (if length packet < IPV6_MIN_HEADER + 8 then None
        else if packet ! 6 \<noteq> 17 then None
        else Some (from_be_bytes [packet ! 40, packet ! 41], from_be_bytes [packet ! 42, packet ! 43]))
     else None)"

definition packet_has_local_iroh_udp_port :: "bytes \<Rightarrow> 16 word set \<Rightarrow> bool" where
  "packet_has_local_iroh_udp_port packet blocked_ports =
    (if blocked_ports = {} then False
     else case extract_udp_ports packet of
            None \<Rightarrow> False
          | Some (src_port, dst_port) \<Rightarrow> src_port \<in> blocked_ports \<or> dst_port \<in> blocked_ports)"

text \<open>The client's own copies.\<close>

definition client_extract_udp_ports :: "bytes \<Rightarrow> (16 word \<times> 16 word) option" where
  "client_extract_udp_ports packet =
    (let IPV4_MIN_HEADER_BYTES = 20; IPV6_MIN_HEADER_BYTES = 40 in
     if length packet < IPV4_MIN_HEADER_BYTES then None
     else if drop_bit 4 (packet ! 0) = 4 then
       (let ihl = unat (packet ! 0 AND 0x0F) * 4 in
        if ihl < IPV4_MIN_HEADER_BYTES \<or> length packet < ihl + 8 then None
        else if packet ! 9 \<noteq> 17 then None
        else Some (from_be_bytes [packet ! ihl, packet ! (ihl + 1)],
                   from_be_bytes [packet ! (ihl + 2), packet ! (ihl + 3)]))
     else if drop_bit 4 (packet ! 0) = 6 then
       (if length packet < IPV6_MIN_HEADER_BYTES + 8 then None
        else if packet ! 6 \<noteq> 17 then None
        else Some (from_be_bytes [packet ! 40, packet ! 41], from_be_bytes [packet ! 42, packet ! 43]))
     else None)"

definition client_packet_has_local_iroh_udp_port :: "bytes \<Rightarrow> 16 word set \<Rightarrow> bool" where
  "client_packet_has_local_iroh_udp_port packet blocked_ports =
    (if blocked_ports = {} then False
     else case client_extract_udp_ports packet of
            None \<Rightarrow> False
          | Some (src_port, dst_port) \<Rightarrow> src_port \<in> blocked_ports \<or> dst_port \<in> blocked_ports)"

section \<open>UDP packets\<close>

text \<open>What it is for a packet to carry a UDP header with given ports right after its IP header,
  stated on the layout rather than on indices.\<close>

definition udp_after :: "nat \<Rightarrow> bytes \<Rightarrow> 16 word \<Rightarrow> 16 word \<Rightarrow> bool" where
  "udp_after h packet src dst \<longleftrightarrow>
    (\<exists>ip rest. packet = ip @ to_be_bytes src @ to_be_bytes dst @ rest \<and> length ip = h \<and> 4 \<le> length rest)"

definition udp_packet :: "bytes \<Rightarrow> 16 word \<Rightarrow> 16 word \<Rightarrow> bool" where
  "udp_packet packet src dst \<longleftrightarrow>
    (\<exists>b \<in> set (take 1 packet).
       drop_bit 4 b = 4 \<and> 20 \<le> unat (b AND 0x0F) * 4 \<and> packet ! 9 = 17 \<and>
         udp_after (unat (b AND 0x0F) * 4) packet src dst \<or>
       drop_bit 4 b = 6 \<and> packet ! 6 = 17 \<and> udp_after 40 packet src dst)"

lemma take2_drop: "i + 1 < length p \<Longrightarrow> take 2 (drop i p) = [p ! i, p ! (i + 1)]"
proof -
  assume "i + 1 < length p"
  then have "drop i p = p ! i # p ! (i + 1) # drop (i + 2) p" by (simp add: Cons_nth_drop_Suc)
  then show ?thesis by (simp add: numeral_2_eq_2)
qed

lemma udp_after_iff:
  "udp_after h packet src dst \<longleftrightarrow> h + 8 \<le> length packet \<and>
    from_be_bytes [packet ! h, packet ! (h + 1)] = src \<and> from_be_bytes [packet ! (h + 2), packet ! (h + 3)] = dst"
    (is "?L \<longleftrightarrow> ?R")
proof
  assume ?L
  then obtain ip rest where p: "packet = ip @ to_be_bytes src @ to_be_bytes dst @ rest" "length ip = h" "4 \<le> length rest"
    by (auto simp: udp_after_def)
  have "[packet ! h, packet ! (h + 1)] = take 2 (drop h packet)"
    "[packet ! (h + 2), packet ! (h + 3)] = take 2 (drop (h + 2) packet)"
    using p take2_drop [of h packet] take2_drop [of "h + 2" packet]
    by (simp_all add: be16.enc_length numeral_3_eq_3)
  moreover have "drop h packet = to_be_bytes src @ to_be_bytes dst @ rest" "drop (h + 2) packet = to_be_bytes dst @ rest"
    using p by (simp_all add: be16.enc_length)
  ultimately show ?R using p by (simp add: be16.enc_length be16.dec_enc)
next
  assume r: ?R
  have s: "to_be_bytes src = take 2 (drop h packet)" "to_be_bytes dst = take 2 (drop (h + 2) packet)"
    using r take2_drop [of h packet] take2_drop [of "h + 2" packet] be16.enc_dec
    by (auto simp: numeral_3_eq_3)
  have "packet = take h packet @ take 2 (drop h packet) @ take 2 (drop (h + 2) packet) @ drop (h + 4) packet"
  proof -
    have "drop h packet = take 2 (drop h packet) @ drop (h + 2) packet"
      using append_take_drop_id [of 2 "drop h packet"] by (simp add: add.commute)
    also have "drop (h + 2) packet = take 2 (drop (h + 2) packet) @ drop (h + 4) packet"
      using append_take_drop_id [of 2 "drop (h + 2) packet"] by (simp add: eval_nat_numeral)
    finally have "drop h packet = take 2 (drop h packet) @ take 2 (drop (h + 2) packet) @ drop (h + 4) packet" .
    then show ?thesis using append_take_drop_id [of h packet] by simp
  qed
  then have "packet = take h packet @ to_be_bytes src @ to_be_bytes dst @ drop (h + 4) packet" by (simp only: s)
  moreover have "length (take h packet) = h" "4 \<le> length (drop (h + 4) packet)"
    using r [THEN conjunct1] by simp_all
  ultimately show ?L unfolding udp_after_def by blast
qed

lemma client_server_ports_agree: "client_extract_udp_ports packet = extract_udp_ports packet"
  by (simp add: client_extract_udp_ports_def extract_udp_ports_def Let_def IPV4_MIN_HEADER_def
      IPV6_MIN_HEADER_def IP_VERSION_4_def IP_VERSION_6_def)

lemma extract_udp_ports_iff: "extract_udp_ports packet = Some (src, dst) \<longleftrightarrow> udp_packet packet src dst"
proof (cases packet)
  case Nil
  then show ?thesis by (simp add: extract_udp_ports_def udp_packet_def IPV4_MIN_HEADER_def)
next
  case (Cons b bs)
  have "drop_bit 4 b = 4 \<Longrightarrow> drop_bit 4 b \<noteq> 6" by simp
  then show ?thesis
    by (auto simp: extract_udp_ports_def udp_packet_def udp_after_iff Cons Let_def IPV4_MIN_HEADER_def
        IPV6_MIN_HEADER_def IP_VERSION_4_def IP_VERSION_6_def)
qed

text \<open>C39. The filter that keeps the tunnel from carrying its own transport
  drops a packet exactly when it is a UDP packet over IPv4 (with any options) or directly over
  IPv6 whose source or destination port is one of the endpoint's local ports. Both ends of the
  tunnel decide alike.\<close>

theorem self_encapsulation_filter_exact:
  "(packet_has_local_iroh_udp_port packet ports \<longleftrightarrow>
      (\<exists>src dst. udp_packet packet src dst \<and> (src \<in> ports \<or> dst \<in> ports))) \<and>
    client_packet_has_local_iroh_udp_port packet ports = packet_has_local_iroh_udp_port packet ports"
proof
  show "packet_has_local_iroh_udp_port packet ports \<longleftrightarrow>
      (\<exists>src dst. udp_packet packet src dst \<and> (src \<in> ports \<or> dst \<in> ports))"
    unfolding extract_udp_ports_iff [symmetric]
    by (auto simp: packet_has_local_iroh_udp_port_def split: option.splits)
  show "client_packet_has_local_iroh_udp_port packet ports = packet_has_local_iroh_udp_port packet ports"
    by (simp add: client_packet_has_local_iroh_udp_port_def packet_has_local_iroh_udp_port_def
        client_server_ports_agree)
qed

end
