(* ===== verification/Client_Queue.thy ===== *)
theory Client_Queue
  imports Prelude
begin

text \<open>
  The byte-budgeted outbound queue of one client (\<open>tunnel/server.rs\<close>).  Producers and the
  writer share one atomic counter, so the state carries, besides the counter and the channel,
  the batch the writer holds and the pushes that have reserved their budget but not yet sent
  or given it back.  Each atomic operation is one function; \<open>try_push\<close> is their composition
  with nothing in between, and \<open>queue_step\<close> lets any number of producers and the writer
  interleave at the atomic operations.
\<close>

definition CLIENT_QUEUE_BYTES :: nat where "CLIENT_QUEUE_BYTES = 16 * 1024 * 1024"
definition QUEUED_DATAGRAM_OVERHEAD :: nat where "QUEUED_DATAGRAM_OVERHEAD = 64"
definition WRITE_BATCH_SIZE :: nat where "WRITE_BATCH_SIZE = 256"

definition queued_datagram_cost :: "nat \<Rightarrow> nat" where
  "queued_datagram_cost len = len + QUEUED_DATAGRAM_OVERHEAD"

record client_queue =
  cq_channel :: "bytes list"
  cq_receiver_alive :: bool
  cq_queued_bytes :: nat

definition client_queue_new :: client_queue where
  "client_queue_new = \<lparr> cq_channel = [], cq_receiver_alive = True, cq_queued_bytes = 0 \<rparr>"

datatype try_send_error = Full bytes | Closed bytes

text \<open>The reservation returns the counter's previous value.\<close>

definition push_reserve :: "client_queue \<Rightarrow> bytes \<Rightarrow> client_queue \<times> nat" where
  "push_reserve q datagram =
    (q\<lparr>cq_queued_bytes := cq_queued_bytes q + queued_datagram_cost (length datagram)\<rparr>, cq_queued_bytes q)"

definition push_finish :: "client_queue \<Rightarrow> bytes \<Rightarrow> nat \<Rightarrow> client_queue \<times> (try_send_error + unit)" where
  "push_finish q datagram before =
    (let cost = queued_datagram_cost (length datagram) in
     if before + cost > CLIENT_QUEUE_BYTES
     then (q\<lparr>cq_queued_bytes := cq_queued_bytes q - cost\<rparr>, Inl (Full datagram))
     else if cq_receiver_alive q then (q\<lparr>cq_channel := cq_channel q @ [datagram]\<rparr>, Inr ())
     else (q\<lparr>cq_queued_bytes := cq_queued_bytes q - cost\<rparr>, Inl (Closed datagram)))"

definition try_push :: "client_queue \<Rightarrow> bytes \<Rightarrow> client_queue \<times> (try_send_error + unit)" where
  "try_push q datagram = (case push_reserve q datagram of (q', before) \<Rightarrow> push_finish q' datagram before)"

definition recv_many :: "client_queue \<Rightarrow> bytes list \<Rightarrow> nat \<Rightarrow> client_queue \<times> bytes list \<times> nat" where
  "recv_many q batch limit =
    (let got = take limit (cq_channel q) in
     (q\<lparr>cq_channel := drop limit (cq_channel q)\<rparr>, batch @ got, length got))"

definition batch_cost :: "bytes list \<Rightarrow> nat" where
  "batch_cost batch = sum_list (map (\<lambda>d. queued_datagram_cost (length d)) batch)"

definition release :: "client_queue \<Rightarrow> bytes list \<Rightarrow> client_queue" where
  "release q batch = q\<lparr>cq_queued_bytes := cq_queued_bytes q - batch_cost batch\<rparr>"

section \<open>Interleaved producers and writer\<close>

text \<open>Pushes in flight: the datagram and the counter value its reservation saw.\<close>

record queue_state =
  qs_queue :: client_queue
  qs_batch :: "bytes list"
  qs_inflight :: "(bytes \<times> nat) list"

inductive queue_step :: "queue_state \<Rightarrow> queue_state \<Rightarrow> bool" where
  reserve: "push_reserve (qs_queue s) d = (q, before) \<Longrightarrow>
    queue_step s (s\<lparr>qs_queue := q, qs_inflight := (d, before) # qs_inflight s\<rparr>)"
| finish: "qs_inflight s = xs @ (d, before) # ys \<Longrightarrow> push_finish (qs_queue s) d before = (q, r) \<Longrightarrow>
    queue_step s (s\<lparr>qs_queue := q, qs_inflight := xs @ ys\<rparr>)"
| receive: "cq_receiver_alive (qs_queue s) \<Longrightarrow> qs_batch s = [] \<Longrightarrow>
    recv_many (qs_queue s) [] WRITE_BATCH_SIZE = (q, batch, n) \<Longrightarrow>
    queue_step s (s\<lparr>qs_queue := q, qs_batch := batch\<rparr>)"
| written: "queue_step s (s\<lparr>qs_queue := release (qs_queue s) (qs_batch s), qs_batch := []\<rparr>)"
| stopped: "queue_step s (s\<lparr>qs_queue := (qs_queue s)\<lparr>cq_receiver_alive := False\<rparr>\<rparr>)"

definition queue_init :: queue_state where
  "queue_init = \<lparr> qs_queue = client_queue_new, qs_batch = [], qs_inflight = [] \<rparr>"

definition inflight_cost :: "(bytes \<times> nat) list \<Rightarrow> nat" where
  "inflight_cost xs = batch_cost (map fst xs)"

definition granted :: "(bytes \<times> nat) \<Rightarrow> bool" where
  "granted r \<longleftrightarrow> snd r + queued_datagram_cost (length (fst r)) \<le> CLIENT_QUEUE_BYTES"

text \<open>The counter is exactly what is queued, held by the writer or reserved; and what is
  queued, held or reserved with success stays within the budget.\<close>

definition queue_inv :: "queue_state \<Rightarrow> bool" where
  "queue_inv s \<longleftrightarrow>
    cq_queued_bytes (qs_queue s) =
      batch_cost (cq_channel (qs_queue s)) + batch_cost (qs_batch s) + inflight_cost (qs_inflight s) \<and>
    batch_cost (cq_channel (qs_queue s)) + batch_cost (qs_batch s) +
      inflight_cost (filter granted (qs_inflight s)) \<le> CLIENT_QUEUE_BYTES"

lemma batch_cost_simps [simp]:
  "batch_cost [] = 0"
  "batch_cost (d # ds) = queued_datagram_cost (length d) + batch_cost ds"
  "batch_cost (xs @ ys) = batch_cost xs + batch_cost ys"
  by (simp_all add: batch_cost_def)

lemma inflight_cost_simps [simp]:
  "inflight_cost [] = 0"
  "inflight_cost (x # xs) = queued_datagram_cost (length (fst x)) + inflight_cost xs"
  "inflight_cost (xs @ ys) = inflight_cost xs + inflight_cost ys"
  by (simp_all add: inflight_cost_def)

lemma batch_cost_take_drop: "batch_cost (take n ds) + batch_cost (drop n ds) = batch_cost ds"
  by (metis append_take_drop_id batch_cost_simps(3))

lemma inflight_cost_filter: "inflight_cost (filter P xs) \<le> inflight_cost xs"
  by (induction xs) auto

lemma queue_init_inv: "queue_inv queue_init"
  by (simp add: queue_inv_def queue_init_def client_queue_new_def)

lemma queue_step_inv: "queue_step s t \<Longrightarrow> queue_inv s \<Longrightarrow> queue_inv t"
proof (induction rule: queue_step.induct)
  case (reserve s d q before)
  then have q: "q = (qs_queue s)\<lparr>cq_queued_bytes := cq_queued_bytes (qs_queue s) + queued_datagram_cost (length d)\<rparr>"
    "before = cq_queued_bytes (qs_queue s)" by (auto simp: push_reserve_def)
  have "batch_cost (cq_channel (qs_queue s)) + batch_cost (qs_batch s) + inflight_cost (filter granted (qs_inflight s)) \<le> before"
    using reserve.prems q(2) inflight_cost_filter [of granted "qs_inflight s"] by (simp add: queue_inv_def)
  then show ?case using reserve.prems q by (auto simp: queue_inv_def granted_def)
next
  case (finish s xs d before ys q r)
  then show ?case
    by (auto simp: queue_inv_def push_finish_def Let_def granted_def split: if_splits)
next
  case (receive s q batch n)
  then show ?case
    using batch_cost_take_drop [of WRITE_BATCH_SIZE "cq_channel (qs_queue s)"]
    by (auto simp: queue_inv_def recv_many_def Let_def)
qed (auto simp: queue_inv_def release_def)

lemma queue_reachable_inv: "queue_step\<^sup>*\<^sup>* queue_init s \<Longrightarrow> queue_inv s"
  by (induction rule: rtranclp_induct) (auto intro: queue_init_inv queue_step_inv)

text \<open>C40. Whatever number of producers push at the same time and however they
  interleave with the writer, the datagrams in a client's queue together with the batch its
  writer holds never cost more than the budget; the counter accounts exactly for them and the
  pushes in flight, so no subtraction ever underflows, and it returns to zero when everything
  is delivered.\<close>

theorem queue_within_budget:
  assumes "queue_step\<^sup>*\<^sup>* queue_init s"
  shows "batch_cost (cq_channel (qs_queue s)) + batch_cost (qs_batch s) \<le> CLIENT_QUEUE_BYTES \<and>
    cq_queued_bytes (qs_queue s) =
      batch_cost (cq_channel (qs_queue s)) + batch_cost (qs_batch s) + inflight_cost (qs_inflight s) \<and>
    (cq_channel (qs_queue s) = [] \<and> qs_batch s = [] \<and> qs_inflight s = [] \<longrightarrow> cq_queued_bytes (qs_queue s) = 0)"
  using queue_reachable_inv [OF assms] by (simp add: queue_inv_def)

theorem queue_within_budget_witness:
  "\<exists>s. queue_step\<^sup>*\<^sup>* queue_init s \<and> qs_inflight s = [([1, 2], 0)] \<and>
    cq_queued_bytes (qs_queue s) =
      batch_cost (cq_channel (qs_queue s)) + batch_cost (qs_batch s) + inflight_cost (qs_inflight s)"
proof -
  define s where "s = queue_init\<lparr>qs_queue := client_queue_new\<lparr>cq_queued_bytes := 66\<rparr>, qs_inflight := [([1, 2], 0)]\<rparr>"
  have "push_reserve (qs_queue queue_init) [1, 2] = (client_queue_new\<lparr>cq_queued_bytes := 66\<rparr>, 0)"
    by (simp add: push_reserve_def queue_init_def client_queue_new_def queued_datagram_cost_def QUEUED_DATAGRAM_OVERHEAD_def)
  from queue_step.reserve [OF this] have "queue_step queue_init s" by (simp add: s_def queue_init_def)
  then have "queue_step\<^sup>*\<^sup>* queue_init s" by (rule r_into_rtranclp)
  with queue_within_budget [OF this] show ?thesis by (intro exI [of _ s]) (simp add: s_def)
qed

lemma try_push_eq:
  "try_push q d =
    (if cq_queued_bytes q + queued_datagram_cost (length d) > CLIENT_QUEUE_BYTES then (q, Inl (Full d))
     else if \<not> cq_receiver_alive q then (q, Inl (Closed d))
     else (q\<lparr>cq_channel := cq_channel q @ [d],
            cq_queued_bytes := cq_queued_bytes q + queued_datagram_cost (length d)\<rparr>, Inr ()))"
  by (cases q) (simp add: try_push_def push_reserve_def push_finish_def Let_def)

text \<open>A push that nothing interleaves with: it is refused as full exactly when the
  datagram's cost would exceed the budget, as closed exactly when it fits but the writer is
  gone, and otherwise appends the datagram and charges its cost; a refused push leaves the
  queue as it was and hands the datagram back.\<close>

theorem try_push_outcomes:
  "try_push q d =
    (if cq_queued_bytes q + queued_datagram_cost (length d) > CLIENT_QUEUE_BYTES then (q, Inl (Full d))
     else if \<not> cq_receiver_alive q then (q, Inl (Closed d))
     else (q\<lparr>cq_channel := cq_channel q @ [d],
            cq_queued_bytes := cq_queued_bytes q + queued_datagram_cost (length d)\<rparr>, Inr ()))"
  by (rule try_push_eq)

end
