(* ===== verification/Coalesce.thy ===== *)
theory Coalesce
  imports Segmentation
begin

unbundle bit_operations_syntax

text \<open>
  Write-side coalescing of \<open>tunnel/offload.rs\<close>: \<open>parse_coalescible_tcp\<close> recognises
  pure-data TCP segments, \<open>plan_tun_write_groups\<close> partitions a drained batch into runs,
  and \<open>assemble_tcp_gso_superframe\<close> merges a run into one GSO super-frame.  The main
  result is that coalescing is lossless for the byte stream: segmenting the assembled
  frame again gives back the payloads and sequence numbers of the run.
\<close>

section \<open>The code\<close>

definition TCP_FLAGS_NO_COALESCE :: byte where
  "TCP_FLAGS_NO_COALESCE = 0x01 OR 0x02 OR 0x04 OR 0x20"

record tcp_segment_meta =
  is_ipv6 :: bool
  ip_header_len :: nat
  tcp_header_len :: nat
  seq :: "32 word"
  payload_len :: nat

definition header_len :: "tcp_segment_meta \<Rightarrow> nat" where
  "header_len m = ip_header_len m + tcp_header_len m"

text \<open>The version match of \<open>parse_coalescible_tcp\<close>: address family and IP header length.\<close>

definition coalescible_ip :: "bytes \<Rightarrow> (bool \<times> nat) option" where
  "coalescible_ip packet =
    (if packet = [] then None
     else
       let version = drop_bit 4 (packet ! 0) in
       if version = 4 then
         (if length packet < 20 then None
          else if packet ! 0 AND 0x0F \<noteq> 5 \<or> packet ! 9 \<noteq> 6 then None
          else if (from_be_bytes [packet ! 6, packet ! 7] :: 16 word) AND 0x3FFF \<noteq> 0 then None
          else if packet ! 1 AND 0x03 \<noteq> 0 then None
          else if unat (from_be_bytes [packet ! 2, packet ! 3] :: 16 word) \<noteq> length packet then None
          else Some (False, 20))
       else if version = 6 then
         (if length packet < 40 then None
          else if packet ! 6 \<noteq> 6 then None
          else
            let traffic_class = push_bit 4 (packet ! 0) OR drop_bit 4 (packet ! 1) in
            if traffic_class AND 0x03 \<noteq> 0 then None
            else if unat (from_be_bytes [packet ! 4, packet ! 5] :: 16 word) \<noteq> length packet - 40
            then None
            else Some (True, 40))
       else None)"

definition parse_coalescible_tcp :: "bytes \<Rightarrow> tcp_segment_meta option" where
  "parse_coalescible_tcp packet =
    (case coalescible_ip packet of
       None \<Rightarrow> None
     | Some (v6, tcp_offset) \<Rightarrow>
         if length packet < tcp_offset + 20 then None
         else
           let tcp_hlen = unat (drop_bit 4 (packet ! (tcp_offset + 12))) * 4 in
           if tcp_hlen < 20 \<or> tcp_offset + tcp_hlen > length packet then None
           else if packet ! (tcp_offset + 13) AND TCP_FLAGS_NO_COALESCE \<noteq> 0 then None
           else
             let plen = length packet - tcp_offset - tcp_hlen in
             if plen = 0 then None
             else Some \<lparr> is_ipv6 = v6, ip_header_len = tcp_offset, tcp_header_len = tcp_hlen,
               seq = from_be_bytes [packet ! (tcp_offset + 4), packet ! (tcp_offset + 5),
                 packet ! (tcp_offset + 6), packet ! (tcp_offset + 7)],
               payload_len = plen \<rparr>)"

definition can_chain ::
  "bytes \<Rightarrow> tcp_segment_meta \<Rightarrow> bytes \<Rightarrow> tcp_segment_meta \<Rightarrow> bool" where
  "can_chain a ma b mb =
    (if is_ipv6 ma \<noteq> is_ipv6 mb \<or> tcp_header_len ma \<noteq> tcp_header_len mb then False
     else if is_ipv6 ma \<and>
       (sub_bytes 0 4 a \<noteq> sub_bytes 0 4 b \<or> sub_bytes 8 40 a \<noteq> sub_bytes 8 40 b \<or> a ! 7 \<noteq> b ! 7)
     then False
     else if \<not> is_ipv6 ma \<and>
       (a ! 1 \<noteq> b ! 1 \<or> a ! 8 \<noteq> b ! 8 \<or> sub_bytes 12 20 a \<noteq> sub_bytes 12 20 b)
     then False
     else
       let t = ip_header_len ma in
       if sub_bytes t (t + 4) a \<noteq> sub_bytes t (t + 4) b
         \<or> sub_bytes (t + 8) (t + 12) a \<noteq> sub_bytes (t + 8) (t + 12) b
         \<or> sub_bytes (t + 14) (t + 16) a \<noteq> sub_bytes (t + 14) (t + 16) b
         \<or> sub_bytes (t + 20) (t + tcp_header_len ma) a \<noteq> sub_bytes (t + 20) (t + tcp_header_len mb) b
       then False
       else seq mb = seq ma + of_nat (payload_len ma))"

text \<open>The inner loop of \<open>plan_tun_write_groups\<close>: it returns the end of the run.\<close>

function extend_run :: "bytes list \<Rightarrow> nat \<Rightarrow> nat \<Rightarrow> tcp_segment_meta \<Rightarrow> nat \<Rightarrow> nat" where
  "extend_run batch seg_size merged_ip_len prev e =
    (if e < length batch then
       (case parse_coalescible_tcp (batch ! e) of
          None \<Rightarrow> e
        | Some nxt \<Rightarrow>
            if payload_len nxt > seg_size
              \<or> merged_ip_len + payload_len nxt > 65535
              \<or> \<not> can_chain (batch ! (e - 1)) prev (batch ! e) nxt
            then e
            else if payload_len nxt < seg_size then e + 1
            else extend_run batch seg_size (merged_ip_len + payload_len nxt) nxt (e + 1))
     else e)"
  by pat_completeness auto

termination extend_run
  by (relation "measure (\<lambda>(batch, seg_size, merged_ip_len, prev, e). length batch - e)") auto

declare extend_run.simps [simp del]

lemma extend_run_ge: "e \<le> extend_run batch g n prev e"
  by (induction batch g n prev e rule: extend_run.induct)
    (subst extend_run.simps, auto split: option.splits)

function plan_from :: "bytes list \<Rightarrow> nat \<Rightarrow> (nat \<times> nat \<times> bool) list" where
  "plan_from batch i =
    (if i < length batch then
       (case parse_coalescible_tcp (batch ! i) of
          None \<Rightarrow> (i, i + 1, False) # plan_from batch (i + 1)
        | Some first \<Rightarrow>
            let e = extend_run batch (payload_len first) (header_len first + payload_len first)
              first (i + 1)
            in (i, e, e - i \<ge> 2) # plan_from batch e)
     else [])"
  by pat_completeness auto

termination plan_from
proof (relation "measure (\<lambda>(batch, i). length batch - i)")
  fix batch :: "bytes list" and i first e
  assume "i < length batch"
    and "e = extend_run batch (payload_len first) (header_len first + payload_len first) first (i + 1)"
  then show "((batch, e), batch, i) \<in> measure (\<lambda>(batch, i). length batch - i)"
    using extend_run_ge [of "i + 1" batch "payload_len first"
        "header_len first + payload_len first" first] by auto
qed auto

declare plan_from.simps [simp del]

definition plan_tun_write_groups :: "bytes list \<Rightarrow> (nat \<times> nat \<times> bool) list" where
  "plan_tun_write_groups batch = plan_from batch 0"

fun total_payload_of :: "nat \<Rightarrow> bytes list \<Rightarrow> offload_error + nat" where
  "total_payload_of hlen [] = Inr 0"
| "total_payload_of hlen (segment # segments) =
    (if length segment < hlen \<or> length segment - hlen = 0 then Inl SegmentShorterThanHeaders
     else and_then (total_payload_of hlen segments) (\<lambda>n. Inr (length segment - hlen + n)))"

definition assemble_tcp_gso_superframe :: "bytes \<Rightarrow> bytes list \<Rightarrow> bytes \<times> (offload_error + unit)" where
  "assemble_tcp_gso_superframe out segments =
    (if length segments < 2 then (out, Inl (TooFewSegments (length segments)))
     else
       case parse_coalescible_tcp (segments ! 0) of
         None \<Rightarrow> (out, Inl FirstNotCoalescible)
       | Some first \<Rightarrow>
           let hlen = header_len first in
           (case total_payload_of hlen segments of
              Inl e \<Rightarrow> (out, Inl e)
            | Inr total_payload \<Rightarrow>
                let merged_ip_len = hlen + total_payload in
                if merged_ip_len > 65535 then (out, Inl (MergedTooLarge merged_ip_len))
                else
                  let virtio = \<lparr>
                        flags = VIRTIO_NET_HDR_F_NEEDS_CSUM,
                        gso_type = (if is_ipv6 first then VIRTIO_NET_HDR_GSO_TCPV6
                                    else VIRTIO_NET_HDR_GSO_TCPV4),
                        hdr_len = of_nat hlen,
                        gso_size = of_nat (payload_len first),
                        csum_start = of_nat (ip_header_len first),
                        csum_offset = 16,
                        num_buffers = 0 \<rparr>;
                      ip_frame = take hlen (segments ! 0) @ concat (map (drop hlen) segments)
                  in
                  (case (if is_ipv6 first then update_ipv6_payload_length ip_frame merged_ip_len
                         else update_ipv4_lengths_and_checksum ip_frame merged_ip_len) of
                     Inl e \<Rightarrow> (to_bytes virtio @ ip_frame, Inl e)
                   | Inr ip_frame1 \<Rightarrow>
                       let checksum_index = ip_header_len first + 16;
                           ip_frame2 = ip_frame1[checksum_index := 0];
                           ip_frame3 = ip_frame2[checksum_index + 1 := 0];
                           tcp_len = tcp_header_len first + total_payload;
                           partial = tcp_pseudo_header_partial ip_frame3 (is_ipv6 first) tcp_len
                       in (to_bytes virtio @ copy_at checksum_index (to_be_bytes partial) ip_frame3,
                           Inr ()))))"

section \<open>What parsing guarantees\<close>

abbreviation meta :: "bytes \<Rightarrow> tcp_segment_meta" where
  "meta p \<equiv> the (parse_coalescible_tcp p)"

lemma coalescible_ipD:
  assumes "coalescible_ip p = Some (v6, t)"
  shows "p \<noteq> []" and "t = (if v6 then 40 else 20)" and "drop_bit 4 (p ! 0) = (if v6 then 6 else 4)"
    and "\<not> v6 \<Longrightarrow> p ! 0 AND 0x0F = 5 \<and> p ! 9 = 6 \<and> length p \<le> 65535"
    and "v6 \<Longrightarrow> p ! 6 = 6 \<and> length p \<le> 65575"
proof -
  have b: "unat (w :: 16 word) \<le> 65535" for w using unat_less_exp [of w] by simp
  show "p \<noteq> []" "t = (if v6 then 40 else 20)" "drop_bit 4 (p ! 0) = (if v6 then 6 else 4)"
    using assms by (auto simp: coalescible_ip_def Let_def split: if_splits)
  show "\<not> v6 \<Longrightarrow> p ! 0 AND 0x0F = 5 \<and> p ! 9 = 6 \<and> length p \<le> 65535"
    using assms b [of "from_be_bytes [p ! 2, p ! 3]"]
    by (auto simp: coalescible_ip_def Let_def split: if_splits)
  show "v6 \<Longrightarrow> p ! 6 = 6 \<and> length p \<le> 65575"
    using assms b [of "from_be_bytes [p ! 4, p ! 5]"]
    by (auto simp: coalescible_ip_def Let_def split: if_splits)
qed

lemma sub_bytes4:
  assumes "a + 4 \<le> length p"
  shows "sub_bytes a (a + 4) p = [p ! a, p ! (a + 1), p ! (a + 2), p ! (a + 3)]"
  using assms by (intro nth_equalityI) (auto simp: sub_bytes_def less_Suc_eq numeral_eq_Suc)

lemma parse_coalescible_tcpD:
  assumes "parse_coalescible_tcp p = Some m"
  shows "ip_header_len m = (if is_ipv6 m then 40 else 20)"
    and "coalescible_ip p = Some (is_ipv6 m, ip_header_len m)"
    and "tcp_header_len m = unat (drop_bit 4 (p ! (ip_header_len m + 12))) * 4"
    and "20 \<le> tcp_header_len m"
    and "p ! (ip_header_len m + 13) AND TCP_FLAGS_NO_COALESCE = 0"
    and "header_len m + payload_len m = length p" and "0 < payload_len m"
    and "seq m = from_be_bytes (sub_bytes (ip_header_len m + 4) (ip_header_len m + 8) p)"
proof -
  obtain v6 t where ip: "coalescible_ip p = Some (v6, t)"
    using assms by (auto simp: parse_coalescible_tcp_def split: option.splits)
  note m = assms [unfolded parse_coalescible_tcp_def ip, simplified, unfolded Let_def]
  have eqs: "is_ipv6 m = v6" "ip_header_len m = t" using m by (auto split: if_splits)
  show "coalescible_ip p = Some (is_ipv6 m, ip_header_len m)" using ip eqs by simp
  show "ip_header_len m = (if is_ipv6 m then 40 else 20)" using coalescible_ipD(2) [OF ip] eqs by simp
  show "tcp_header_len m = unat (drop_bit 4 (p ! (ip_header_len m + 12))) * 4"
    "20 \<le> tcp_header_len m" "p ! (ip_header_len m + 13) AND TCP_FLAGS_NO_COALESCE = 0"
    "header_len m + payload_len m = length p" "0 < payload_len m"
    using m by (auto simp: header_len_def split: if_splits)
  have "t + 4 + 4 \<le> length p" using m by (auto split: if_splits)
  from sub_bytes4 [OF this] show "seq m = from_be_bytes (sub_bytes (ip_header_len m + 4) (ip_header_len m + 8) p)"
    using m by (auto simp: eqs ac_simps split: if_splits)
qed

lemma can_chainD:
  assumes "can_chain a ma b mb"
  shows "is_ipv6 ma = is_ipv6 mb" and "tcp_header_len ma = tcp_header_len mb"
    and "seq mb = seq ma + of_nat (payload_len ma)"
  using assms by (auto simp: can_chain_def Let_def split: if_splits)

section \<open>The plan is an ordered partition into coalescible runs\<close>

text \<open>A run that may be merged: at least two coalescible segments, each chaining to the
  next, of one payload size except for a final segment that may be shorter, and together
  within the 16-bit length field.\<close>

definition coalescible_run :: "bytes list \<Rightarrow> bool" where
  "coalescible_run segs \<longleftrightarrow>
    2 \<le> length segs \<and> (\<forall>s \<in> set segs. parse_coalescible_tcp s \<noteq> None) \<and>
    (\<forall>j < length segs - 1. can_chain (segs ! j) (meta (segs ! j)) (segs ! Suc j) (meta (segs ! Suc j)) \<and>
       payload_len (meta (segs ! j)) = payload_len (meta (segs ! 0))) \<and>
    payload_len (meta (segs ! (length segs - 1))) \<le> payload_len (meta (segs ! 0)) \<and>
    header_len (meta (segs ! 0)) + sum_list (map (\<lambda>s. payload_len (meta s)) segs) \<le> 65535"

text \<open>The invariant of the inner loop, on indices of the batch.\<close>

definition run_upto :: "bytes list \<Rightarrow> nat \<Rightarrow> nat \<Rightarrow> bool" where
  "run_upto batch i e \<longleftrightarrow> i < e \<and> e \<le> length batch \<and>
    (\<forall>k. i \<le> k \<and> k < e \<longrightarrow> parse_coalescible_tcp (batch ! k) \<noteq> None) \<and>
    (\<forall>k. i \<le> k \<and> Suc k < e \<longrightarrow>
       can_chain (batch ! k) (meta (batch ! k)) (batch ! Suc k) (meta (batch ! Suc k)) \<and>
       payload_len (meta (batch ! k)) = payload_len (meta (batch ! i))) \<and>
    payload_len (meta (batch ! (e - 1))) \<le> payload_len (meta (batch ! i)) \<and>
    (2 \<le> e - i \<longrightarrow> header_len (meta (batch ! i))
       + sum_list (map (\<lambda>k. payload_len (meta (batch ! k))) [i..<e]) \<le> 65535)"

lemma extend_run_upto:
  assumes "run_upto batch i e" and "prev = meta (batch ! (e - 1))"
    and "payload_len prev = g" and "g = payload_len (meta (batch ! i))"
    and "n = header_len (meta (batch ! i)) + sum_list (map (\<lambda>k. payload_len (meta (batch ! k))) [i..<e])"
  shows "run_upto batch i (extend_run batch g n prev e)"
  using assms
proof (induction batch g n prev e rule: extend_run.induct)
  case (1 batch g n prev e)
  show ?case
  proof (cases "e < length batch \<and> (\<exists>nxt. parse_coalescible_tcp (batch ! e) = Some nxt \<and>
      payload_len nxt \<le> g \<and> n + payload_len nxt \<le> 65535 \<and> can_chain (batch ! (e - 1)) prev (batch ! e) nxt)")
    case False
    then have "extend_run batch g n prev e = e"
      by (subst extend_run.simps) (auto split: option.splits)
    then show ?thesis using 1 by simp
  next
    case True
    then obtain nxt where nxt: "e < length batch" "parse_coalescible_tcp (batch ! e) = Some nxt"
      "payload_len nxt \<le> g" "n + payload_len nxt \<le> 65535" "can_chain (batch ! (e - 1)) prev (batch ! e) nxt"
      by blast
    have ie: "i < e" using 1(2) by (simp add: run_upto_def)
    have step: "run_upto batch i (Suc e)"
      using 1(2-) nxt ie unfolding run_upto_def
      by (auto simp: less_Suc_eq Suc_diff_Suc)
    show ?thesis
    proof (cases "payload_len nxt < g")
      case True
      then have "extend_run batch g n prev e = Suc e"
        using nxt by (subst extend_run.simps) (auto split: option.splits)
      then show ?thesis using step by simp
    next
      case False
      then have "extend_run batch g n prev e = extend_run batch g (n + payload_len nxt) nxt (e + 1)"
        using nxt by (subst extend_run.simps) (auto split: option.splits)
      moreover have "run_upto batch i (extend_run batch g (n + payload_len nxt) nxt (e + 1))"
      proof (rule 1(1) [OF nxt(1,2)])
        show "n + payload_len nxt = header_len (meta (batch ! i)) +
            sum_list (map (\<lambda>k. payload_len (meta (batch ! k))) [i..<e + 1])"
          unfolding 1(6) using ie nxt(2) by simp
      qed (use nxt False step 1(5) in simp_all)
      ultimately show ?thesis by simp
    qed
  qed
qed

lemma run_upto_coalescible:
  assumes run: "run_upto batch i e" and two: "2 \<le> e - i"
  shows "coalescible_run (sub_bytes i e batch)"
proof -
  have ie: "i < e" "e \<le> length batch" using run by (simp_all add: run_upto_def)
  have len: "length (sub_bytes i e batch) = e - i" using ie by (simp add: length_sub_bytes min_def)
  have nth: "sub_bytes i e batch ! j = batch ! (i + j)" if "j < e - i" for j
    using ie that by (simp add: nth_sub_bytes)
  have map: "map (\<lambda>k. f (batch ! k)) [i..<e] = map f (sub_bytes i e batch)" for f :: "bytes \<Rightarrow> nat"
    by (rule nth_equalityI) (simp_all add: len nth)
  have at: "can_chain (batch ! k) (meta (batch ! k)) (batch ! Suc k) (meta (batch ! Suc k)) \<and>
      payload_len (meta (batch ! k)) = payload_len (meta (batch ! i))" if "i \<le> k" "Suc k < e" for k
    using run that unfolding run_upto_def by blast
  have fin: "payload_len (meta (batch ! (e - 1))) \<le> payload_len (meta (batch ! i))"
    "header_len (meta (batch ! i)) + sum_list (map (\<lambda>k. payload_len (meta (batch ! k))) [i..<e]) \<le> 65535"
    using run two unfolding run_upto_def by blast+
  show ?thesis
    unfolding coalescible_run_def len
  proof (intro conjI ballI allI impI)
    show "parse_coalescible_tcp s \<noteq> None" if "s \<in> set (sub_bytes i e batch)" for s
      using that run by (auto simp: in_set_conv_nth len nth run_upto_def)
    show "can_chain (sub_bytes i e batch ! j) (meta (sub_bytes i e batch ! j))
        (sub_bytes i e batch ! Suc j) (meta (sub_bytes i e batch ! Suc j))"
      "payload_len (meta (sub_bytes i e batch ! j)) = payload_len (meta (sub_bytes i e batch ! 0))"
      if "j < e - i - 1" for j
      using at [of "i + j"] that ie by (simp_all add: nth)
    show "payload_len (meta (sub_bytes i e batch ! (e - i - 1))) \<le> payload_len (meta (sub_bytes i e batch ! 0))"
      using fin(1) two by (simp add: nth)
    show "header_len (meta (sub_bytes i e batch ! 0)) +
        sum_list (map (\<lambda>s. payload_len (meta s)) (sub_bytes i e batch)) \<le> 65535"
      using fin(2) two map [of "\<lambda>s. payload_len (meta s)"] by (simp add: nth)
  qed (use two in simp)
qed

lemma run_upto_single:
  "i < length batch \<Longrightarrow> parse_coalescible_tcp (batch ! i) = Some m \<Longrightarrow> run_upto batch i (i + 1)"
  by (auto simp: run_upto_def less_Suc_eq)

lemma plan_run:
  assumes "i < length batch" and "parse_coalescible_tcp (batch ! i) = Some m"
    and "e = extend_run batch (payload_len m) (header_len m + payload_len m) m (i + 1)"
  shows "run_upto batch i e"
  unfolding assms(3)
  by (rule extend_run_upto [OF run_upto_single [OF assms(1,2)]]) (simp_all add: assms(2))

text \<open>\<open>partitions i n groups\<close>: the groups are consecutive, non-empty index ranges from \<open>i\<close>
  to \<open>n\<close>, marked for merging exactly when they have two or more members.\<close>

fun partitions :: "nat \<Rightarrow> nat \<Rightarrow> (nat \<times> nat \<times> bool) list \<Rightarrow> bool" where
  "partitions i n [] \<longleftrightarrow> i = n"
| "partitions i n ((a, b, c) # groups) \<longleftrightarrow>
    a = i \<and> a < b \<and> b \<le> n \<and> c = (2 \<le> b - a) \<and> partitions b n groups"

lemma plan_from_partitions:
  "i \<le> length batch \<Longrightarrow>
    partitions i (length batch) (plan_from batch i) \<and>
    (\<forall>(a, b, c) \<in> set (plan_from batch i). c \<longrightarrow> coalescible_run (sub_bytes a b batch))"
proof (induction batch i rule: plan_from.induct)
  case (1 batch i)
  show ?case
  proof (cases "i < length batch")
    case True
    show ?thesis
    proof (cases "parse_coalescible_tcp (batch ! i)")
      case None
      then show ?thesis
        using True 1(1) [OF True None] by (subst (1 2) plan_from.simps) simp
    next
      case (Some m)
      define e where "e = extend_run batch (payload_len m) (header_len m + payload_len m) m (i + 1)"
      have run: "run_upto batch i e" by (rule plan_run [OF True Some e_def])
      then have "i < e" "e \<le> length batch" by (simp_all add: run_upto_def)
      moreover have "plan_from batch i = (i, e, 2 \<le> e - i) # plan_from batch e"
        using True Some by (subst plan_from.simps) (simp add: e_def Let_def)
      ultimately show ?thesis
        using 1(2) [OF True Some e_def] run_upto_coalescible [OF run] by auto
    qed
  next
    case False
    then show ?thesis using 1(3) by (subst (1 2) plan_from.simps) simp
  qed
qed

lemma partitions_concat:
  "partitions i n groups \<Longrightarrow> n \<le> length xs \<Longrightarrow>
    concat (map (\<lambda>(a, b, c). sub_bytes a b xs) groups) = sub_bytes i n xs"
proof (induction i n groups rule: partitions.induct)
  case (2 i n a b c groups)
  then show ?case using sub_bytes_split [of a b n xs] by simp
qed (simp add: sub_bytes_def)

text \<open>C16: \<open>plan_tun_write_groups\<close> splits a write batch into
  consecutive non-empty groups that together are the whole batch in its original order; a
  group is marked for merging exactly when it has at least two packets, and then it is a
  coalescible run: same-flow segments with contiguous sequence numbers, one payload size
  except possibly a shorter last one, and a merged length within the 16-bit limit.\<close>

theorem plan_partitions_batch:
  "partitions 0 (length batch) (plan_tun_write_groups batch) \<and>
   concat (map (\<lambda>(a, b, c). sub_bytes a b batch) (plan_tun_write_groups batch)) = batch \<and>
   (\<forall>(a, b, c) \<in> set (plan_tun_write_groups batch). c \<longrightarrow> coalescible_run (sub_bytes a b batch))"
  using plan_from_partitions [of 0 batch] partitions_concat [of 0 "length batch" "plan_from batch 0" batch]
  by (simp add: plan_tun_write_groups_def sub_bytes_def [of 0 "length batch"])

section \<open>Coalescing a run is lossless\<close>

lemma concat_uniform:
  assumes "\<And>j. Suc j < length xss \<Longrightarrow> length (xss ! j) = g" and "k < length xss"
    and "length (xss ! k) \<le> g"
  shows "take g (drop (k * g) (concat xss)) = xss ! k"
  using assms
proof (induction xss arbitrary: k)
  case (Cons x xss)
  show ?case
  proof (cases "xss = []")
    case True
    then show ?thesis using Cons.prems by simp
  next
    case False
    then have x: "length x = g" using Cons.prems(1) [of 0] by simp
    show ?thesis
    proof (cases k)
      case (Suc j)
      have "length (xss ! i) = g" if "Suc i < length xss" for i
        using Cons.prems(1) [of "Suc i"] that by simp
      then show ?thesis using Cons.IH [of j] Cons.prems Suc x by simp
    qed (simp add: x)
  qed
qed simp

lemma length_concat_uniform:
  assumes "\<And>j. Suc j < length xss \<Longrightarrow> length (xss ! j) = g" and "xss \<noteq> []"
  shows "length (concat xss) = (length xss - 1) * g + length (last xss)"
  using assms
proof (induction xss)
  case (Cons x xss)
  show ?case
  proof (cases "xss = []")
    case False
    have "length (xss ! i) = g" if "Suc i < length xss" for i
      using Cons.prems(1) [of "Suc i"] that by simp
    then have "length (concat xss) = (length xss - 1) * g + length (last xss)"
      using Cons.IH False by blast
    moreover have "length x = g" using Cons.prems(1) [of 0] False by simp
    moreover obtain n where "length xss = Suc n" using False by (cases xss) auto
    ultimately show ?thesis using False by simp
  qed simp
qed simp

lemma chunk_count_uniform:
  assumes "\<And>j. Suc j < length xss \<Longrightarrow> length (xss ! j) = g" and "xss \<noteq> []"
    and "0 < length (last xss)" and "length (last xss) \<le> g"
  shows "chunk_count g (length (concat xss)) = length xss"
proof -
  have g: "0 < g" using assms(3,4) by linarith
  have len: "length (concat xss) = (length xss - 1) * g + length (last xss)"
    by (rule length_concat_uniform [OF assms(1,2)])
  have "k < chunk_count g (length (concat xss)) \<longleftrightarrow> k < length xss" for k
  proof -
    have "k * g < length (concat xss) \<longleftrightarrow> k \<le> length xss - 1"
    proof
      assume "k * g < length (concat xss)"
      also have "\<dots> \<le> Suc (length xss - 1) * g" using len assms(4) by simp
      finally have "k < Suc (length xss - 1)" using g by (simp only: mult_less_cancel2)
      then show "k \<le> length xss - 1" by simp
    next
      assume "k \<le> length xss - 1"
      then have "k * g \<le> (length xss - 1) * g" by (rule mult_le_mono1)
      then show "k * g < length (concat xss)" using len assms(3) by linarith
    qed
    then show ?thesis using assms(2) by (cases xss) (auto simp: chunk_count_iff [OF g])
  qed
  then show ?thesis by (metis linorder_neqE_nat less_irrefl)
qed

text \<open>The facts about a coalescible run that the merge relies on.\<close>

lemma coalescible_run_meta:
  assumes "coalescible_run segs" and "k < length segs"
  shows "is_ipv6 (meta (segs ! k)) = is_ipv6 (meta (segs ! 0))"
    and "header_len (meta (segs ! k)) = header_len (meta (segs ! 0))"
    and "length (segs ! k) = header_len (meta (segs ! 0)) + payload_len (meta (segs ! k))"
    and "seq (meta (segs ! k)) = seq (meta (segs ! 0)) + of_nat (k * payload_len (meta (segs ! 0)))"
    and "0 < payload_len (meta (segs ! k))"
    and "payload_len (meta (segs ! k)) \<le> payload_len (meta (segs ! 0))"
    and "parse_coalescible_tcp (segs ! k) = Some (meta (segs ! k))"
proof -
  have parse: "parse_coalescible_tcp (segs ! j) = Some (meta (segs ! j))" if "j < length segs" for j
  proof -
    have "parse_coalescible_tcp (segs ! j) \<noteq> None"
      using assms(1) nth_mem [OF that] unfolding coalescible_run_def by blast
    then show ?thesis by simp
  qed
  have chain: "can_chain (segs ! j) (meta (segs ! j)) (segs ! Suc j) (meta (segs ! Suc j)) \<and>
      payload_len (meta (segs ! j)) = payload_len (meta (segs ! 0))" if "Suc j < length segs" for j
  proof -
    have "j < length segs - 1" using that by simp
    then show ?thesis using assms(1) unfolding coalescible_run_def by blast
  qed
  have ind: "is_ipv6 (meta (segs ! k)) = is_ipv6 (meta (segs ! 0)) \<and>
      tcp_header_len (meta (segs ! k)) = tcp_header_len (meta (segs ! 0)) \<and>
      seq (meta (segs ! k)) = seq (meta (segs ! 0)) + of_nat (k * payload_len (meta (segs ! 0)))"
    using assms(2)
  proof (induction k)
    case (Suc j)
    note step = chain [OF Suc.prems]
    from can_chainD [OF step [THEN conjunct1]] step [THEN conjunct2] Suc
    show ?case by (simp add: algebra_simps)
  qed simp
  note dk = parse_coalescible_tcpD [OF parse [OF assms(2)]]
  have "0 < length segs" using assms(2) by (rule le_less_trans [OF le0])
  note d0 = parse_coalescible_tcpD [OF parse [OF this]]
  show "is_ipv6 (meta (segs ! k)) = is_ipv6 (meta (segs ! 0))"
    "seq (meta (segs ! k)) = seq (meta (segs ! 0)) + of_nat (k * payload_len (meta (segs ! 0)))"
    using ind by blast+
  show hl: "header_len (meta (segs ! k)) = header_len (meta (segs ! 0))"
    unfolding header_len_def dk(1) d0(1) using ind by simp
  show "length (segs ! k) = header_len (meta (segs ! 0)) + payload_len (meta (segs ! k))"
    using dk(6) unfolding hl by simp
  show "0 < payload_len (meta (segs ! k))" by (rule dk(7))
  show "payload_len (meta (segs ! k)) \<le> payload_len (meta (segs ! 0))"
  proof (cases "Suc k < length segs")
    case True
    then show ?thesis using chain [OF True] by simp
  next
    case False
    then have "k = length segs - 1" using assms(2) by simp
    moreover have "payload_len (meta (segs ! (length segs - 1))) \<le> payload_len (meta (segs ! 0))"
      using assms(1) unfolding coalescible_run_def by blast
    ultimately show ?thesis by simp
  qed
  show "parse_coalescible_tcp (segs ! k) = Some (meta (segs ! k))" by (rule parse [OF assms(2)])
qed

definition merged_frame :: "bytes list \<Rightarrow> bytes" where
  "merged_frame segs =
    (let h = header_len (meta (segs ! 0)) in take h (segs ! 0) @ concat (map (drop h) segs))"

definition merged_hdr :: "tcp_segment_meta \<Rightarrow> virtio_net_hdr" where
  "merged_hdr m = \<lparr> flags = VIRTIO_NET_HDR_F_NEEDS_CSUM,
     gso_type = (if is_ipv6 m then VIRTIO_NET_HDR_GSO_TCPV6 else VIRTIO_NET_HDR_GSO_TCPV4),
     hdr_len = of_nat (header_len m), gso_size = of_nat (payload_len m),
     csum_start = of_nat (ip_header_len m), csum_offset = 16, num_buffers = 0 \<rparr>"

definition ip_version :: "tcp_segment_meta \<Rightarrow> byte" where
  "ip_version m = (if is_ipv6 m then 6 else 4)"

lemma total_payload_of_eq:
  "(\<And>s. s \<in> set segs \<Longrightarrow> h < length s) \<Longrightarrow>
    total_payload_of h segs = Inr (length (concat (map (drop h) segs)))"
proof (induction segs)
  case (Cons s segs)
  have "h < length s" using Cons.prems by simp
  moreover have "total_payload_of h segs = Inr (length (concat (map (drop h) segs)))"
    using Cons by simp
  ultimately show ?case by simp
qed simp

lemma coalescible_run_payload:
  assumes run: "coalescible_run segs" and h: "h = header_len (meta (segs ! 0))"
    and g: "g = payload_len (meta (segs ! 0))"
  shows "\<And>s. s \<in> set segs \<Longrightarrow> h < length s"
    and "length (concat (map (drop h) segs)) = sum_list (map (\<lambda>s. payload_len (meta s)) segs)"
    and "k < length segs \<Longrightarrow> take g (drop (k * g) (concat (map (drop h) segs))) = drop h (segs ! k)"
    and "chunk_count g (length (concat (map (drop h) segs))) = length segs"
    and "g < length (concat (map (drop h) segs))"
proof -
  note mk = coalescible_run_meta [OF run]
  show sh: "h < length s" if s: "s \<in> set segs" for s
  proof -
    from s obtain j where "j < length segs" "s = segs ! j" by (auto simp: in_set_conv_nth)
    then show ?thesis using mk(3,5) [of j] h by simp
  qed
  have len: "length (drop h (segs ! j)) = payload_len (meta (segs ! j))" if "j < length segs" for j
    using mk(3) [OF that] h by simp
  have "map (\<lambda>s. length (drop h s)) segs = map (\<lambda>s. payload_len (meta s)) segs"
    by (rule nth_equalityI) (simp_all add: len [simplified])
  then show "length (concat (map (drop h) segs)) = sum_list (map (\<lambda>s. payload_len (meta s)) segs)"
    by (simp only: length_concat map_map comp_def)
  have two: "2 \<le> length segs" using run by (simp add: coalescible_run_def)
  have uni: "length (map (drop h) segs ! j) = g" if "Suc j < length (map (drop h) segs)" for j
  proof -
    have "j < length segs - 1" using that by simp
    then have "payload_len (meta (segs ! j)) = g"
      using run unfolding coalescible_run_def g by blast
    then show ?thesis using len [of j] that by simp
  qed
  show "take g (drop (k * g) (concat (map (drop h) segs))) = drop h (segs ! k)" if "k < length segs"
    using concat_uniform [of "map (drop h) segs" g k, OF uni] that len [OF that] mk(6) [OF that]
    by (simp add: g)
  have ne: "map (drop h) segs \<noteq> []" using two by (cases segs) simp_all
  then have last: "length (last (map (drop h) segs)) = payload_len (meta (segs ! (length segs - 1)))"
    using len [of "length segs - 1"] two by (simp add: last_conv_nth)
  show "chunk_count g (length (concat (map (drop h) segs))) = length segs"
    using chunk_count_uniform [of "map (drop h) segs" g, OF uni ne] last mk(5,6) [of "length segs - 1"] two g
    by simp
  have "g \<le> (length segs - 1) * g" using two by (cases "length segs - 1") auto
  then show "g < length (concat (map (drop h) segs))"
    using length_concat_uniform [of "map (drop h) segs" g, OF uni ne] unfolding last length_map
    using mk(5) [of "length segs - 1"] two by linarith
qed

lemma merged_frame_facts:
  assumes run: "coalescible_run segs" and m: "m = meta (segs ! 0)"
    and d: "d = merged_frame segs"
  shows "length d = header_len m + length (concat (map (drop (header_len m)) segs))"
    and "length d \<le> 65535" and "drop (header_len m) d = concat (map (drop (header_len m)) segs)"
    and "\<And>i. i < header_len m \<Longrightarrow> d ! i = segs ! 0 ! i"
    and "parse_coalescible_tcp (segs ! 0) = Some m"
proof -
  have two: "2 \<le> length segs" using run by (simp add: coalescible_run_def)
  then have hl: "header_len m < length (segs ! 0)"
    using coalescible_run_payload(1) [OF run refl refl, of "segs ! 0"] by (cases segs) (simp_all add: m)
  show len: "length d = header_len m + length (concat (map (drop (header_len m)) segs))"
    using hl by (simp add: d merged_frame_def m Let_def)
  have "header_len m + sum_list (map (\<lambda>s. payload_len (meta s)) segs) \<le> 65535"
    using run unfolding coalescible_run_def m by blast
  then show "length d \<le> 65535"
    using len coalescible_run_payload(2) [OF run refl refl] by (simp add: m)
  show "drop (header_len m) d = concat (map (drop (header_len m)) segs)"
    using hl by (simp add: d merged_frame_def m Let_def)
  show "d ! i = segs ! 0 ! i" if "i < header_len m" for i
    using hl that by (simp add: d merged_frame_def m Let_def nth_append)
  show "parse_coalescible_tcp (segs ! 0) = Some m"
    unfolding m using two by (intro coalescible_run_meta(7) [OF run]) linarith
qed

lemma merged_update_lengths:
  assumes "parse_coalescible_tcp p = Some m" and "\<And>i. i < header_len m \<Longrightarrow> d ! i = p ! i"
    and "header_len m \<le> length d" and "length d \<le> 65535"
  shows "(if is_ipv6 m then update_ipv6_payload_length d (length d)
     else update_ipv4_lengths_and_checksum d (length d)) = Inr (chunk_rewritten (ip_version m) (length d) d)"
proof -
  note pm = parse_coalescible_tcpD [OF assms(1)]
  have hl: "40 \<le> header_len m" "is_ipv6 m \<Longrightarrow> 60 \<le> header_len m"
    using pm(1,4) by (simp_all add: header_len_def)
  show ?thesis
  proof (cases "is_ipv6 m")
    case True
    then show ?thesis
      using hl assms(3,4) by (simp add: update_ipv6_payload_length_def Let_def chunk_rewritten_def ip_version_def)
  next
    case False
    then have "p ! 0 AND 0x0F = 5" "p ! 9 = 6" using coalescible_ipD(4) [OF pm(2)] by simp_all
    moreover have "d ! 0 = p ! 0" "d ! 9 = p ! 9" using hl assms(2) by simp_all
    ultimately show ?thesis
      using False hl assms(3,4)
      by (simp add: update_ipv4_eq chunk_rewritten_def ip_version_def ipv4_ihl_def)
  qed
qed

text \<open>The frame the assembler leaves in the buffer.\<close>

definition superframe_checksum :: "bytes list \<Rightarrow> 16 word" where
  "superframe_checksum segs =
    (let m = meta (segs ! 0); d = merged_frame segs in
     tcp_pseudo_header_partial
       (copy_at (ip_header_len m + 16) [0, 0] (chunk_rewritten (ip_version m) (length d) d))
       (is_ipv6 m) (length d - ip_header_len m))"

lemma assemble_run:
  assumes run: "coalescible_run segs" and m: "m = meta (segs ! 0)" and d: "d = merged_frame segs"
  shows "assemble_tcp_gso_superframe out segs =
    (to_bytes (merged_hdr m)
       @ chunk_segment (ip_version m) (ip_header_len m) d (superframe_checksum segs), Inr ())"
proof -
  note mf = merged_frame_facts [OF assms]
  note pm = parse_coalescible_tcpD [OF mf(5)]
  define total where "total = length (concat (map (drop (header_len m)) segs))"
  define r where "r = chunk_rewritten (ip_version m) (length d) d"
  have two: "\<not> length segs < 2" using run by (simp add: coalescible_run_def)
  have tot: "total_payload_of (header_len m) segs = Inr total"
    unfolding total_def m using coalescible_run_payload(1) [OF run refl refl]
    by (intro total_payload_of_eq) simp
  have len: "header_len m + total = length d" using mf(1) by (simp add: total_def)
  have small: "\<not> 65535 < length d" using mf(2) by simp
  have hl: "40 \<le> header_len m" "ip_header_len m + 20 \<le> header_len m"
    using pm(1,4) by (simp_all add: header_len_def)
  have lr: "length r = length d" unfolding r_def using hl len by (subst length_chunk_rewritten) auto
  have zero: "r[ip_header_len m + 16 := 0, ip_header_len m + 16 + 1 := 0]
      = copy_at (ip_header_len m + 16) [0, 0] r"
    using list_update2_copy_at [of "ip_header_len m + 16" r 0 0] hl len lr by simp
  have upd: "(if is_ipv6 m then update_ipv6_payload_length d (length d)
      else update_ipv4_lengths_and_checksum d (length d)) = Inr r"
    unfolding r_def using mf hl len by (intro merged_update_lengths [OF mf(5)]) simp_all
  have tl: "tcp_header_len m + total = length d - ip_header_len m"
    using len by (simp add: header_len_def)
  have d': "take (header_len m) (segs ! 0) @ concat (map (drop (header_len m)) segs) = d"
    by (simp add: d merged_frame_def m Let_def)
  have "assemble_tcp_gso_superframe out segs = (to_bytes (merged_hdr m) @
      copy_at (ip_header_len m + 16) (to_be_bytes (superframe_checksum segs))
        (copy_at (ip_header_len m + 16) [0, 0] r), Inr ())"
    by (simp only: assemble_tcp_gso_superframe_def two mf(5) option.case tot sum.case Let_def len small
        d' upd zero tl if_False option.sel merged_hdr_def superframe_checksum_def m [symmetric] d [symmetric]
        r_def [symmetric])
  then show ?thesis
    using hl len lr
    by (simp add: chunk_segment_def copy_at_copy_at_same be16.enc_length flip: r_def)
qed

lemma superframe_layout:
  assumes run: "coalescible_run segs" and m: "m = meta (segs ! 0)" and d: "d = merged_frame segs"
    and ip: "ip = chunk_segment (ip_version m) (ip_header_len m) d c"
  shows "gso_layout (merged_hdr m) ip = Inr (ip_version m, ip_header_len m, header_len m)"
    and "unat (gso_size (merged_hdr m)) = payload_len m"
    and "segmentable (ip_version m) (ip_header_len m) (header_len m) (payload_len m) ip"
    and "is_tcp_gso (merged_hdr m)" and "length ip = length d"
    and "drop (header_len m) ip = concat (map (drop (header_len m)) segs)"
    and "sub_bytes (ip_header_len m + 4) (ip_header_len m + 8) ip =
      sub_bytes (ip_header_len m + 4) (ip_header_len m + 8) (segs ! 0)"
proof -
  define t where "t = ip_header_len m"
  note mf = merged_frame_facts [OF run m d]
  note pm = parse_coalescible_tcpD [OF mf(5), folded t_def]
  note cd = coalescible_ipD [OF pm(2)]
  have t: "20 \<le> t" "t + 20 \<le> header_len m" "t = (if is_ipv6 m then 40 else 20)"
    using pm(1,4) by (simp_all add: header_len_def t_def)
  have pl: "0 < payload_len m" "header_len m + payload_len m = length (segs ! 0)" using pm(6,7) by simp_all
  have big: "payload_len m < length (concat (map (drop (header_len m)) segs))"
    using coalescible_run_payload(5) [OF run refl refl] by (simp add: m)
  have td: "t + 20 \<le> length d" "header_len m + payload_len m \<le> 65535"
    using t mf(1,2) big by linarith+
  have nth: "ip ! i = segs ! 0 ! i" if "i < header_len m" "i \<notin> {2, 3, 4, 5, 10, 11, t + 16, t + 17}" for i
    using nth_chunk_segment_same [OF t(1) td(1), of i "ip_version m" c] that mf(1,4)
    by (simp add: ip flip: t_def)
  have len: "length ip = length d" using length_chunk_segment [OF t(1) td(1)] by (simp add: ip t_def)
  have ne: "ip \<noteq> []" using len td by auto
  have ip0: "ip ! 0 = segs ! 0 ! 0" "ip ! 9 = segs ! 0 ! 9" "ip ! (t + 12) = segs ! 0 ! (t + 12)"
    using nth [of 0] nth [of 9] nth [of "t + 12"] t by auto
  have g16: "unat (of_nat (payload_len m) :: 16 word) = payload_len m"
    "unat (of_nat t :: 16 word) = t" using td t by (simp_all add: unat_of_nat)
  then show g: "unat (gso_size (merged_hdr m)) = payload_len m" by (simp add: merged_hdr_def)
  then have "gso_size (merged_hdr m) \<noteq> 0" using pl(1) by (metis less_irrefl unat_0)
  then show tcp: "is_tcp_gso (merged_hdr m)"
    by (simp add: is_tcp_gso_def merged_hdr_def virtio_consts)
  show "gso_layout (merged_hdr m) ip = Inr (ip_version m, ip_header_len m, header_len m)"
    using tcp ne cd(3) ip0 g16 td len pm(3,4) pl mf(1)
    by (auto simp: gso_layout_def Let_def normalized_gso_type_def needs_checksum_def merged_hdr_def
        virtio_consts ip_version_def header_len_def simp flip: t_def)
  have "\<not> is_ipv6 m \<Longrightarrow> ipv4_ihl ip = 20"
    using cd(4) ip0(1) by (simp add: ipv4_ihl_def)
  then show "segmentable (ip_version m) (ip_header_len m) (header_len m) (payload_len m) ip"
    using t td len mf(1,2) pl(1) cd(4) ip0(2)
    by (auto simp: segmentable_def ip_version_def simp flip: t_def)
  show "length ip = length d" by (rule len)
  show "drop (header_len m) ip = concat (map (drop (header_len m)) segs)"
    using drop_chunk_segment [OF t(1,2)] mf(1,3) by (simp add: ip t_def)
  have "sub_bytes (t + 4) (t + 8) ip = sub_bytes (t + 4) (t + 8) d"
    using seq_chunk_segment [OF t(1) td(1)] by (simp add: ip t_def)
  also have "\<dots> = sub_bytes (t + 4) (t + 8) (segs ! 0)"
    using t td pl(2) mf(4) by (intro sub_bytes_eq_iff [THEN iffD2]) auto
  finally show "sub_bytes (ip_header_len m + 4) (ip_header_len m + 8) ip =
      sub_bytes (ip_header_len m + 4) (ip_header_len m + 8) (segs ! 0)" by (simp add: t_def)
qed

text \<open>C13: merging a coalescible run never fails, the frame written to
  the device is accepted by the frame parser, and cutting it again with the segmenter
  yields as many segments as the run had, each with the payload bytes and the sequence number
  of the corresponding original segment and with valid lengths and checksums.\<close>

theorem coalesce_segment_roundtrip:
  assumes "coalescible_run segs" and "m = meta (segs ! 0)"
  shows "\<exists>frame hdr ip resegs.
    assemble_tcp_gso_superframe out segs = (frame, Inr ()) \<and>
    split_tun_frame frame True = Inr (Some hdr, ip) \<and>
    segment_tcp_gso_packet hdr ip = Inr resegs \<and>
    length resegs = length segs \<and>
    (\<forall>k < length segs.
      drop (header_len m) (resegs ! k) = drop (header_len m) (segs ! k) \<and>
      (from_be_bytes (sub_bytes (ip_header_len m + 4) (ip_header_len m + 8) (resegs ! k)) :: 32 word)
        = seq (meta (segs ! k)) \<and>
      segment_lengths_ok (ip_version m) (resegs ! k) \<and>
      segment_checksums_ok (ip_version m) (ip_header_len m) (resegs ! k))"
proof -
  define d where "d = merged_frame segs"
  define ip where "ip = chunk_segment (ip_version m) (ip_header_len m) d (superframe_checksum segs)"
  note lay = superframe_layout [OF assms d_def ip_def]
  note pay = coalescible_run_payload [OF assms(1) refl refl, folded assms(2)]
  note mf = merged_frame_facts [OF assms d_def]
  have asm: "assemble_tcp_gso_superframe out segs = (to_bytes (merged_hdr m) @ ip, Inr ())"
    unfolding ip_def by (rule assemble_run [OF assms d_def])
  have "0 < length ip" using lay(5) mf(1) pay(5) by linarith
  then have "ip \<noteq> []" by simp
  then have spl: "split_tun_frame (to_bytes (merged_hdr m) @ ip) True = Inr (Some (merged_hdr m), ip)"
    using lay(4) by (simp add: split_hdr_append merged_hdr_def virtio_consts)
  have len: "length ip - header_len m = length (concat (map (drop (header_len m)) segs))"
    using lay(5) mf(1) by simp
  obtain f where f: "segment_tcp_gso_packet (merged_hdr m) ip = Inr (map f [0..<length segs])"
    "\<And>k. k < length segs \<Longrightarrow>
      good_segment (ip_version m) (ip_header_len m) (header_len m) (payload_len m) ip (k * payload_len m) (f k)"
    using segment_packet_collects [OF lay(1), unfolded lay(2) len, OF lay(3) pay(5)] unfolding pay(4) by blast
  have key: "drop (header_len m) (f k) = drop (header_len m) (segs ! k) \<and>
      (from_be_bytes (sub_bytes (ip_header_len m + 4) (ip_header_len m + 8) (f k)) :: 32 word) = seq (meta (segs ! k))"
    if k: "k < length segs" for k
  proof
    have kg: "k * payload_len m < length ip - header_len m"
      using k pay(4) chunk_count_iff [of "payload_len m"] pay(5) lay(3) unfolding len segmentable_def by metis
    have "drop (header_len m) (f k) = take (payload_len m) (drop (k * payload_len m) (drop (header_len m) ip))"
      using good_segment_payload [OF f(2) [OF k]] good_segment_length [OF f(2) [OF k] kg] lay(3)
      by (simp add: segmentable_def add.commute)
    then show "drop (header_len m) (f k) = drop (header_len m) (segs ! k)"
      unfolding lay(6) using pay(3) [OF k] by simp
    have "0 < length segs" using k by linarith
    from parse_coalescible_tcpD(8) [OF mf(5)] coalescible_run_meta(4) [OF assms(1) k]
    show "(from_be_bytes (sub_bytes (ip_header_len m + 4) (ip_header_len m + 8) (f k)) :: 32 word)
        = seq (meta (segs ! k))"
      using f(2) [OF k] lay(7) by (simp add: good_segment_def flip: assms(2))
  qed
  show ?thesis
  proof (intro exI conjI allI impI)
    show "assemble_tcp_gso_superframe out segs = (to_bytes (merged_hdr m) @ ip, Inr ())" by (rule asm)
    show "split_tun_frame (to_bytes (merged_hdr m) @ ip) True = Inr (Some (merged_hdr m), ip)" by (rule spl)
    show "segment_tcp_gso_packet (merged_hdr m) ip = Inr (map f [0..<length segs])" by (rule f(1))
  qed (use key f(2) in \<open>simp_all add: good_segment_def\<close>)
qed

definition sample_segment1 :: bytes where
  "sample_segment1 =
    [0x45, 0, 0, 42, 0, 1, 0, 0, 64, 6, 0, 0, 10, 0, 0, 1, 10, 0, 0, 2,
     0, 80, 1, 187, 0, 0, 0, 100, 0, 0, 0, 9, 0x50, 0x10, 1, 0, 0, 0, 0, 0, 1, 2]"

definition sample_segment2 :: bytes where
  "sample_segment2 =
    [0x45, 0, 0, 41, 0, 2, 0, 0, 64, 6, 0, 0, 10, 0, 0, 1, 10, 0, 0, 2,
     0, 80, 1, 187, 0, 0, 0, 102, 0, 0, 0, 9, 0x50, 0x10, 1, 0, 0, 0, 0, 0, 3]"

lemma sample_parse:
  "parse_coalescible_tcp sample_segment1 = Some \<lparr> is_ipv6 = False, ip_header_len = 20,
     tcp_header_len = 20, seq = 100, payload_len = 2 \<rparr>"
  "parse_coalescible_tcp sample_segment2 = Some \<lparr> is_ipv6 = False, ip_header_len = 20,
     tcp_header_len = 20, seq = 102, payload_len = 1 \<rparr>"
  by (simp_all add: parse_coalescible_tcp_def coalescible_ip_def Let_def TCP_FLAGS_NO_COALESCE_def
      sample_segment1_def sample_segment2_def from_be_bytes_def)

lemma sample_run: "coalescible_run [sample_segment1, sample_segment2]"
proof -
  have "can_chain sample_segment1 (meta sample_segment1) sample_segment2 (meta sample_segment2)"
    by (simp add: sample_parse can_chain_def Let_def sub_bytes_def)
      (simp add: sample_segment1_def sample_segment2_def)
  then show ?thesis by (simp add: coalescible_run_def sample_parse header_len_def)
qed

theorem coalesce_segment_roundtrip_witness:
  "\<exists>frame hdr ip resegs.
    assemble_tcp_gso_superframe [] [sample_segment1, sample_segment2] = (frame, Inr ()) \<and>
    split_tun_frame frame True = Inr (Some hdr, ip) \<and>
    segment_tcp_gso_packet hdr ip = Inr resegs \<and> length resegs = 2"
  using coalesce_segment_roundtrip [OF sample_run refl, of "[]"] by auto

lemma sample_plan: "plan_tun_write_groups [sample_segment1, sample_segment2] = [(0, 2, True)]"
  using sample_run
  by (simp add: plan_tun_write_groups_def plan_from.simps extend_run.simps sample_parse header_len_def
      coalescible_run_def)

theorem plan_partitions_batch_witness:
  "plan_tun_write_groups [sample_segment1, sample_segment2] = [(0, 2, True)] \<and>
   coalescible_run (sub_bytes 0 2 [sample_segment1, sample_segment2])"
  using plan_partitions_batch [of "[sample_segment1, sample_segment2]"] by (simp add: sample_plan sub_bytes_def)

section \<open>The partial checksum of a super-frame\<close>

lemma and_low_half_small: "n \<le> 65535 \<Longrightarrow> (of_nat n :: 32 word) AND 0xFFFF = of_nat n"
  by (simp add: word_unat_eq_iff unat_low_half unat_of_nat)

lemma tcp_pseudo_header_partial_eq:
  assumes "n \<le> 65535"
  shows "tcp_pseudo_header_partial p False n = fold_checksum (pseudo4 p n)"
    and "tcp_pseudo_header_partial p True n = fold_checksum (pseudo6 p n)"
  using and_low_half_small [OF assms]
  by (simp_all add: tcp_pseudo_header_partial_def pseudo4_def pseudo6_def ac_simps)

lemma completed_tcp_verifies:
  assumes t: "20 \<le> t" "t + 20 \<le> length p" "length p \<le> 65535" and v: "(v :: byte) = 6 \<Longrightarrow> 40 \<le> t"
    and f: "from_be_bytes (sub_bytes (t + 16) (t + 16 + 2) p) =
      fold_checksum (if v = 6 then pseudo6 p (length p - t) else pseudo4 p (length p - t))"
  defines "q \<equiv> completed t (t + 16) p"
  shows "if v = 6 then tcp_checksum_ipv6 q t = Inr 0 else tcp_checksum_ipv4 q t = Inr 0"
proof -
  define n where "n = length p - t"
  define seed where "seed = (if v = 6 then pseudo6 p n else pseudo4 p n)"
  have n: "n \<le> 65535" "n < 2 ^ 32" using t by (simp_all add: n_def)
  have "sum16 (sub_bytes 12 20 p) \<le> 65535 * 4" "sum16 (sub_bytes 8 40 p) \<le> 65535 * 16"
    using sum16_sub_bytes_bound [of 12 20 p] sum16_sub_bytes_bound [of 8 40 p] by simp_all
  then have seed: "0 < unat seed" "unat seed \<le> 2 ^ 24"
    using n by (simp_all add: seed_def unat_pseudo4 unat_pseudo6)
  have "unat seed mod 65535 =
      unat (from_be_bytes (sub_bytes (t + 16) (t + 16 + 2) p) :: 16 word) mod 65535"
    unfolding f n_def [symmetric] seed_def [symmetric] by (simp add: unat_fold_checksum oc_fold_mod)
  then have fin: "finalize_checksum (add_bytes seed (drop t q)) = 0"
    unfolding q_def using t seed by (intro completed_verifies) simp_all
  have q: "length q = length p" using t by (simp add: q_def completed_frame)
  have pseudo: "pseudo4 q n = pseudo4 p n" "v = 6 \<Longrightarrow> pseudo6 q n = pseudo6 p n"
    using t v by (simp_all add: q_def completed_def pseudo4_def pseudo6_def sub_bytes_copy_at_disjoint
        be16.enc_length)
  show ?thesis
    using fin q pseudo n t v
    by (cases "v = 6") (simp_all add: tcp_checksum_ipv4_eq tcp_checksum_ipv6_eq seed_def flip: n_def)
qed

lemma superframe_header_facts:
  assumes run: "coalescible_run segs" and m: "m = meta (segs ! 0)" and d: "d = merged_frame segs"
  shows "20 \<le> ip_header_len m" "ip_header_len m + 20 \<le> length d" "length d \<le> 65535"
    "ip_version m = 6 \<longleftrightarrow> is_ipv6 m" "ip_version m = 4 \<longleftrightarrow> \<not> is_ipv6 m"
    "is_ipv6 m \<Longrightarrow> 40 \<le> ip_header_len m" "\<not> is_ipv6 m \<Longrightarrow> ipv4_ihl d = 20"
proof -
  note mf = merged_frame_facts [OF assms]
  note pm = parse_coalescible_tcpD [OF mf(5)]
  show "20 \<le> ip_header_len m" "ip_header_len m + 20 \<le> length d" "length d \<le> 65535"
    "ip_version m = 6 \<longleftrightarrow> is_ipv6 m" "ip_version m = 4 \<longleftrightarrow> \<not> is_ipv6 m" "is_ipv6 m \<Longrightarrow> 40 \<le> ip_header_len m"
    using pm(1,4) mf(1,2) by (simp_all add: ip_version_def header_len_def)
  have "d ! 0 = segs ! 0 ! 0" using mf(4) [of 0] pm(4) by (simp add: header_len_def)
  then show "\<not> is_ipv6 m \<Longrightarrow> ipv4_ihl d = 20"
    using coalescible_ipD(4) [OF pm(2)] by (simp add: ipv4_ihl_def)
qed

lemma superframe_ipv4_header_ok:
  assumes t: "20 \<le> t" "t + 20 \<le> length d" and ihl: "ipv4_ihl d = 20"
  shows "ipv4_header_ok (chunk_segment 4 t d c)"
proof -
  have "ipv4_ihl (chunk_segment 4 t d c) = 20"
    using nth_chunk_segment_same [OF t, of 0 4 c] t ihl by (cases "d = []") (auto simp: ipv4_ihl_def)
  then show ?thesis
    using ipv4_rewritten_header_ok [of d "length d"] ipv4_rewritten_ihl [of d "length d"] t ihl
    by (simp add: ipv4_header_ok_def chunk_segment_def take_copy_at chunk_rewritten_def length_ipv4_rewritten)
qed

lemma superframe_field:
  assumes run: "coalescible_run segs" and m: "m = meta (segs ! 0)" and d: "d = merged_frame segs"
    and t: "t = ip_header_len m" and ip: "ip = chunk_segment (ip_version m) t d (superframe_checksum segs)"
  shows "(from_be_bytes (sub_bytes (t + 16) (t + 16 + 2) ip) :: 16 word) =
    fold_checksum (if ip_version m = 6 then pseudo6 ip (length ip - t) else pseudo4 ip (length ip - t))"
proof -
  note hf = superframe_header_facts [OF run m d, folded t]
  define r where "r = chunk_rewritten (ip_version m) (length d) d"
  have r: "length r = length d" using hf(1,2) by (simp add: r_def length_chunk_rewritten)
  have ip: "ip = copy_at (t + 16) (to_be_bytes (superframe_checksum segs)) r"
    by (simp add: ip chunk_segment_def r_def)
  have li: "length ip = length d" using r hf(2) by (simp add: ip length_copy_at be16.enc_length)
  have same: "pseudo4 (copy_at (t + 16) f r) n = pseudo4 r n"
    "is_ipv6 m \<Longrightarrow> pseudo6 (copy_at (t + 16) f r) n = pseudo6 r n" if "length f = 2" for f n
    using that hf r by (simp_all add: pseudo4_def pseudo6_def sub_bytes_copy_at_disjoint)
  have "superframe_checksum segs =
      fold_checksum (if is_ipv6 m then pseudo6 r (length d - t) else pseudo4 r (length d - t))"
    using hf same [of "[0, 0]" "length d - t"] tcp_pseudo_header_partial_eq [of "length d - t"]
    by (simp add: superframe_checksum_def Let_def flip: m d t r_def)
  moreover have "sub_bytes (t + 16) (t + 16 + 2) ip = to_be_bytes (superframe_checksum segs)"
    unfolding ip using hf(2) r by (intro sub_bytes_copy_at_same) (simp_all add: be16.enc_length)
  moreover have "pseudo4 ip n = pseudo4 r n" "is_ipv6 m \<Longrightarrow> pseudo6 ip n = pseudo6 r n" for n
    unfolding ip using same [OF be16.enc_length] by blast+
  ultimately show ?thesis unfolding hf(4) li by (simp add: be16.dec_enc)
qed

text \<open>C17: the super-frame of a coalescible run carries a consistent IP
  length and, for IPv4, a valid header checksum, and its TCP checksum field holds the partial
  pseudo-header sum that \<open>NEEDS_CSUM\<close> promises: completing the checksum over the TCP part,
  as the kernel does, gives a segment whose TCP checksum verifies.\<close>

theorem superframe_partial_checksum:
  assumes "coalescible_run segs" and "m = meta (segs ! 0)"
  shows "\<exists>ip. assemble_tcp_gso_superframe out segs = (to_bytes (merged_hdr m) @ ip, Inr ()) \<and>
    segment_lengths_ok (ip_version m) ip \<and>
    (\<not> is_ipv6 m \<longrightarrow> ipv4_header_ok ip) \<and>
    (let q = completed (ip_header_len m) (ip_header_len m + 16) ip in
     if is_ipv6 m then tcp_checksum_ipv6 q (ip_header_len m) = Inr 0
     else tcp_checksum_ipv4 q (ip_header_len m) = Inr 0)"
proof -
  define d where "d = merged_frame segs"
  define t where "t = ip_header_len m"
  define ip where "ip = chunk_segment (ip_version m) t d (superframe_checksum segs)"
  note hf = superframe_header_facts [OF assms d_def, folded t_def]
  have li: "length ip = length d" using hf(1,2) by (simp add: ip_def length_chunk_segment)
  have "if ip_version m = 6 then tcp_checksum_ipv6 (completed t (t + 16) ip) t = Inr 0
      else tcp_checksum_ipv4 (completed t (t + 16) ip) t = Inr 0"
    using hf li by (intro completed_tcp_verifies superframe_field [OF assms d_def t_def ip_def]) simp_all
  moreover have "segment_lengths_ok (ip_version m) ip"
    using hf(1-3) nth_chunk_segment [OF hf(1,2)] unfolding ip_def
    by (intro chunk_rewritten_lengths [of d]) (auto simp: length_chunk_segment)
  moreover have "ipv4_header_ok ip" if "\<not> is_ipv6 m"
    using superframe_ipv4_header_ok [OF hf(1,2) hf(7) [OF that]] that hf(5) unfolding ip_def by simp
  ultimately show ?thesis
    using assemble_run [OF assms d_def] hf(4)
    by (cases "is_ipv6 m"; intro exI [of _ ip]) (simp_all add: ip_def t_def Let_def)
qed

theorem superframe_partial_checksum_witness:
  "\<exists>ip. assemble_tcp_gso_superframe [] [sample_segment1, sample_segment2] =
      (to_bytes (merged_hdr (meta sample_segment1)) @ ip, Inr ()) \<and>
    ipv4_header_ok ip \<and> tcp_checksum_ipv4 (completed 20 36 ip) 20 = Inr 0"
  using superframe_partial_checksum [OF sample_run refl, of "[]"] by (auto simp: sample_parse Let_def)

end
