(* ===== verification/Tun_Device.thy ===== *)
theory Tun_Device
  imports Coalesce Errors
begin

text \<open>
  The TUN reader's frame splitting and the TUN writer of \<open>net/device.rs\<close> (the variant for
  devices with optional virtio headers).  The device itself is outside: \<open>put\<close> is its
  \<open>write_all\<close>, one call per frame, and its error is an I/O error.
\<close>

record tun_reader =
  tr_packet_information_enabled :: bool
  tr_vnet_hdr_enabled :: bool

text \<open>\<open>pi_len\<close> is the \<open>tun\<close> crate's \<open>PACKET_INFORMATION_LENGTH\<close>.\<close>

definition split_frame :: "nat \<Rightarrow> tun_reader \<Rightarrow> bytes \<Rightarrow> string + (virtio_net_hdr option \<times> bytes)" where
  "split_frame pi_len r frame =
    (let parse = (\<lambda>f v. case split_tun_frame f v of Inl _ \<Rightarrow> Inl ''invalid TUN frame'' | Inr x \<Rightarrow> Inr x) in
     if tr_packet_information_enabled r then
       (if length frame \<le> pi_len
        then Inl ''TUN frame shorter than packet information header''
        else parse (drop pi_len frame) False)
     else parse frame (tr_vnet_hdr_enabled r))"

record 'w tun_writer =
  tw_inner :: 'w
  tw_vnet_hdr_enabled :: bool
  tw_offload_enabled :: bool
  tw_scratch :: bytes

type_synonym 'w device_put = "'w \<Rightarrow> bytes \<Rightarrow> 'w \<times> (string + unit)"

definition write_frame ::
  "'w device_put \<Rightarrow> 'w tun_writer \<Rightarrow> bytes \<Rightarrow> 'w tun_writer \<times> (('n4, 'n6) vpn_error + unit)" where
  "write_frame put w frame =
    (case put (tw_inner w) frame of
       (i, Inl e) \<Rightarrow> (w\<lparr>tw_inner := i\<rparr>, Inl (Network e))
     | (i, Inr _) \<Rightarrow> (w\<lparr>tw_inner := i\<rparr>, Inr ()))"

definition write_packet ::
  "'w device_put \<Rightarrow> 'w tun_writer \<Rightarrow> virtio_net_hdr option \<Rightarrow> bytes \<Rightarrow>
     'w tun_writer \<times> (('n4, 'n6) vpn_error + unit)" where
  "write_packet put w offload ip_packet =
    (if \<not> tw_vnet_hdr_enabled w then
       (if offload \<noteq> None
        then (w, Inl (TunDevice ''received offload metadata but local TUN does not use vnet headers''))
        else if ip_packet = [] then (w, Inl (TunDevice ''cannot compose TUN frame with empty IP payload''))
        else write_frame put w ip_packet)
     else
       case compose_tun_frame (tw_scratch w) (tw_vnet_hdr_enabled w) offload ip_packet of
         (scratch, Inl _) \<Rightarrow> (w\<lparr>tw_scratch := scratch\<rparr>, Inl (TunDevice ''cannot compose TUN frame''))
       | (scratch, Inr _) \<Rightarrow> write_frame put (w\<lparr>tw_scratch := scratch\<rparr>) scratch)"

fun write_each ::
  "'w device_put \<Rightarrow> 'w tun_writer \<Rightarrow> bytes list \<Rightarrow> 'w tun_writer \<times> (('n4, 'n6) vpn_error + unit)" where
  "write_each put w [] = (w, Inr ())"
| "write_each put w (packet # packets) =
    (case write_packet put w None packet of
       (w', Inl e) \<Rightarrow> (w', Inl e)
     | (w', Inr _) \<Rightarrow> write_each put w' packets)"

definition write_group ::
  "'w device_put \<Rightarrow> 'w tun_writer \<Rightarrow> bytes list \<Rightarrow> nat \<times> nat \<times> bool \<Rightarrow>
     'w tun_writer \<times> (('n4, 'n6) vpn_error + unit)" where
  "write_group put w batch grp =
    (case grp of (start, stop, coalesce) \<Rightarrow>
       if \<not> coalesce then write_packet put w None (batch ! start)
       else
         case assemble_tcp_gso_superframe (tw_scratch w) (sub_bytes start stop batch) of
           (scratch, Inr _) \<Rightarrow> write_frame put (w\<lparr>tw_scratch := scratch\<rparr>) scratch
         | (scratch, Inl _) \<Rightarrow> write_each put (w\<lparr>tw_scratch := scratch\<rparr>) (sub_bytes start stop batch))"

fun write_planned_groups ::
  "'w device_put \<Rightarrow> 'w tun_writer \<Rightarrow> bytes list \<Rightarrow> (nat \<times> nat \<times> bool) list \<Rightarrow>
     'w tun_writer \<times> (('n4, 'n6) vpn_error + unit)" where
  "write_planned_groups put w batch [] = (w, Inr ())"
| "write_planned_groups put w batch (grp # groups) =
    (case write_group put w batch grp of
       (w', Inl e) \<Rightarrow> (w', Inl e)
     | (w', Inr _) \<Rightarrow> write_planned_groups put w' batch groups)"

definition write_batch ::
  "'w device_put \<Rightarrow> 'w tun_writer \<Rightarrow> bytes list \<Rightarrow> 'w tun_writer \<times> (('n4, 'n6) vpn_error + unit)" where
  "write_batch put w batch =
    (if \<not> tw_vnet_hdr_enabled w \<or> \<not> tw_offload_enabled w then write_each put w batch
     else write_planned_groups put w batch (plan_tun_write_groups batch))"

section \<open>What reaches the device\<close>

text \<open>A device that records the frames it is given, and refuses from the \<open>n\<close>th one on.\<close>

definition record_put :: "nat \<Rightarrow> bytes list device_put" where
  "record_put n dev frame = (if length dev < n then (dev @ [frame], Inr ()) else (dev, Inl ''device error''))"

definition plain_frame :: "bool \<Rightarrow> bytes \<Rightarrow> bytes" where
  "plain_frame vnet packet = (if vnet then to_bytes virtio_default else []) @ packet"

definition group_frame :: "bytes list \<Rightarrow> nat \<times> nat \<times> bool \<Rightarrow> bytes" where
  "group_frame batch g = (case g of (start, stop, coalesce) \<Rightarrow>
    if coalesce then fst (assemble_tcp_gso_superframe [] (sub_bytes start stop batch))
    else plain_frame True (batch ! start))"

text \<open>One write to that device: what it holds afterwards, and the result.\<close>

definition recorded :: "nat \<Rightarrow> bytes list tun_writer \<Rightarrow> bytes \<Rightarrow>
    bytes list tun_writer \<times> (('n4, 'n6) vpn_error + unit) \<Rightarrow> bool" where
  "recorded n w frame r \<longleftrightarrow> tw_vnet_hdr_enabled (fst r) = tw_vnet_hdr_enabled w \<and>
    (if length (tw_inner w) < n then tw_inner (fst r) = tw_inner w @ [frame] \<and> snd r = Inr ()
     else tw_inner (fst r) = tw_inner w \<and> snd r = Inl (Network ''device error''))"

lemma write_frame_record: "recorded n w frame (write_frame (record_put n) (w\<lparr>tw_scratch := scratch\<rparr>) frame)"
  by (simp add: recorded_def write_frame_def record_put_def)

lemma write_packet_record:
  assumes "packet \<noteq> []"
  shows "recorded n w (plain_frame (tw_vnet_hdr_enabled w) packet) (write_packet (record_put n) w None packet)"
  using assms write_frame_record [of n w packet "tw_scratch w"] write_frame_record [of n w "plain_frame True packet"]
  by (auto simp: write_packet_def compose_tun_frame_def plain_frame_def)

lemma assemble_run_out:
  assumes "coalescible_run segs"
  shows "assemble_tcp_gso_superframe out segs = (fst (assemble_tcp_gso_superframe [] segs), Inr ())"
  using assemble_run [OF assms refl refl, of out] assemble_run [OF assms refl refl, of "[]"] by simp

lemma write_group_record:
  assumes "c \<longrightarrow> coalescible_run (sub_bytes a b batch)" and "batch ! a \<noteq> []" and "tw_vnet_hdr_enabled w"
  shows "recorded n w (group_frame batch (a, b, c)) (write_group (record_put n) w batch (a, b, c))"
proof (cases c)
  case True
  then have "coalescible_run (sub_bytes a b batch)" using assms(1) by simp
  from assemble_run_out [OF this, of "tw_scratch w"] show ?thesis
    using True write_frame_record by (simp add: write_group_def group_frame_def)
next
  case False
  then show ?thesis
    using write_packet_record [OF assms(2), of n w] assms(3) by (simp add: write_group_def group_frame_def)
qed

lemma take_frames_step: "length dev < n \<Longrightarrow> (dev @ [x]) @ take (n - length (dev @ [x])) xs = dev @ take (n - length dev) (x # xs)"
  by (simp add: take_Cons')

lemma write_planned_record:
  assumes "\<forall>(a, b, c) \<in> set groups. (c \<longrightarrow> coalescible_run (sub_bytes a b batch)) \<and> batch ! a \<noteq> []"
    and "tw_vnet_hdr_enabled w" and "write_planned_groups (record_put n) w batch groups = (w', r)"
  shows "tw_inner w' = tw_inner w @ take (n - length (tw_inner w)) (map (group_frame batch) groups)"
    and "r = (if length (tw_inner w) + length groups \<le> n \<or> groups = [] then Inr () else Inl (Network ''device error''))"
proof -
  have "tw_inner w' = tw_inner w @ take (n - length (tw_inner w)) (map (group_frame batch) groups) \<and>
    r = (if length (tw_inner w) + length groups \<le> n \<or> groups = [] then Inr () else Inl (Network ''device error''))"
    using assms
  proof (induction groups arbitrary: w)
    case (Cons g groups)
    obtain a b c where g: "g = (a, b, c)" by (cases g) auto
    obtain w1 r1 where w1: "write_group (record_put n) w batch g = (w1, r1 :: ('a, 'b) vpn_error + unit)" by force
    have "recorded n w (group_frame batch g) (w1, r1)"
      using Cons.prems(1,2) unfolding w1 [symmetric] g by (intro write_group_record) auto
    then show ?case
      using Cons.IH [of w1] Cons.prems w1 take_frames_step [of "tw_inner w" n "group_frame batch g"]
      by (auto simp: recorded_def split: if_splits)
  qed simp
  then show "tw_inner w' = tw_inner w @ take (n - length (tw_inner w)) (map (group_frame batch) groups)"
    and "r = (if length (tw_inner w) + length groups \<le> n \<or> groups = [] then Inr () else Inl (Network ''device error''))"
    by blast+
qed

lemma write_each_record:
  assumes "\<forall>p \<in> set packets. p \<noteq> []" and "write_each (record_put n) w packets = (w', r)"
  shows "tw_inner w' = tw_inner w @ take (n - length (tw_inner w)) (map (plain_frame (tw_vnet_hdr_enabled w)) packets) \<and>
    r = (if length (tw_inner w) + length packets \<le> n \<or> packets = [] then Inr () else Inl (Network ''device error''))"
  using assms
proof (induction packets arbitrary: w)
  case (Cons p packets)
  obtain w1 r1 where w1: "write_packet (record_put n) w None p = (w1, r1 :: ('a, 'b) vpn_error + unit)" by force
  have "recorded n w (plain_frame (tw_vnet_hdr_enabled w) p) (w1, r1)"
    using Cons.prems(1) unfolding w1 [symmetric] by (intro write_packet_record) auto
  then show ?case
    using Cons.IH [of w1] Cons.prems w1 take_frames_step [of "tw_inner w" n "plain_frame (tw_vnet_hdr_enabled w) p"]
    by (auto simp: recorded_def split: if_splits)
qed simp

lemma partitions_bounds:
  "partitions i n groups \<Longrightarrow> (a, b, c) \<in> set groups \<Longrightarrow> a < n"
  by (induction i n groups rule: partitions.induct) auto

text \<open>A batch of non-empty packets to a device that takes frames up to some point: with
  offload off, one frame per packet is written, in order; with virtio headers and offload on,
  one frame per planned group, the merged super-frame of a group of two or more and the plain
  packet otherwise. The per-packet fallback for a failed merge is never needed. The frames the
  device took are always a prefix of these, and the write fails exactly when the device
  refused one.\<close>

theorem batch_write_frames:
  assumes "\<forall>p \<in> set batch. p \<noteq> []" and "write_batch (record_put n) w batch = (w', r)" and "tw_inner w = []"
  shows "\<exists>frames. tw_inner w' = take n frames \<and>
    (r = Inr () \<longleftrightarrow> length frames \<le> n) \<and>
    frames = (if tw_vnet_hdr_enabled w \<and> tw_offload_enabled w
      then map (\<lambda>(a, b, c). if c then fst (assemble_tcp_gso_superframe [] (sub_bytes a b batch))
                            else plain_frame True (batch ! a)) (plan_tun_write_groups batch)
      else map (plain_frame (tw_vnet_hdr_enabled w)) batch)"
proof (cases "tw_vnet_hdr_enabled w \<and> tw_offload_enabled w")
  case True
  have parts: "partitions 0 (length batch) (plan_tun_write_groups batch)"
    "\<forall>(a, b, c) \<in> set (plan_tun_write_groups batch). c \<longrightarrow> coalescible_run (sub_bytes a b batch)"
    using plan_from_partitions [of 0 batch] by (simp_all add: plan_tun_write_groups_def)
  have "a < length batch" if "(a, b, c) \<in> set (plan_tun_write_groups batch)" for a b c
    using partitions_bounds [OF parts(1) that] by simp
  then have ok: "\<forall>(a, b, c) \<in> set (plan_tun_write_groups batch).
      (c \<longrightarrow> coalescible_run (sub_bytes a b batch)) \<and> batch ! a \<noteq> []"
    using parts(2) assms(1) by fastforce
  have "write_planned_groups (record_put n) w batch (plan_tun_write_groups batch) = (w', r)"
    using assms(2) True by (simp add: write_batch_def)
  from write_planned_record [OF ok _ this] True assms(3)
  show ?thesis
    by (intro exI [of _ "map (group_frame batch) (plan_tun_write_groups batch)"])
      (auto simp: group_frame_def [abs_def] cond_case_prod_eta split: if_splits)
next
  case False
  then have "write_each (record_put n) w batch = (w', r)" using assms(2) by (auto simp: write_batch_def)
  from write_each_record [OF assms(1) this] False assms(3)
  show ?thesis
    by (intro exI [of _ "map (plain_frame (tw_vnet_hdr_enabled w)) batch"]) (auto split: if_splits)
qed

theorem batch_write_frames_witness:
  "\<exists>w' frame. write_batch (record_put 3) \<lparr> tw_inner = [], tw_vnet_hdr_enabled = True, tw_offload_enabled = True,
      tw_scratch = [] \<rparr> [sample_segment1, sample_segment2] = (w', Inr () :: (unit, unit) vpn_error + unit) \<and>
    tw_inner w' = [frame]"
proof -
  let ?w = "\<lparr> tw_inner = [], tw_vnet_hdr_enabled = True, tw_offload_enabled = True, tw_scratch = [] \<rparr>"
  let ?b = "[sample_segment1, sample_segment2]"
  obtain w' r where eq: "write_batch (record_put 3) ?w ?b = (w', r :: (unit, unit) vpn_error + unit)" by force
  have "\<forall>p \<in> set ?b. p \<noteq> []" by (simp add: sample_segment1_def sample_segment2_def)
  from batch_write_frames [OF this eq] show ?thesis by (simp add: eq sample_plan)
qed

end
