(* ===== verification/Server_Data.thy ===== *)
theory Server_Data
  imports Stream_Framing Packet_Ip Client_Queue Tun_Device
begin

unbundle bit_operations_syntax

text \<open>
  The server's data plane (\<open>tunnel/server.rs\<close>): packets from clients to the TUN writer with
  their anti-spoofing and client-isolation filters, and packets from the TUN device to the
  per-client queues.  The concurrent maps shared by all tasks are an argument of each step, so
  that they may change between any two packets.  The channel to the TUN writer is \<open>tokio\<close>'s;
  its two operations are parameters.
\<close>

section \<open>Types\<close>

record vpn_server_stats =
  tun_packets_read :: "64 word"
  packets_to_clients :: "64 word"
  packets_no_route :: "64 word"
  packets_unknown_version :: "64 word"
  packets_dropped_full :: "64 word"
  packets_from_clients :: "64 word"
  packets_tun_write_failed :: "64 word"
  packets_spoofed :: "64 word"
  packets_inter_client_blocked :: "64 word"
  packets_dropped_too_large :: "64 word"

definition stats_new :: vpn_server_stats where
  "stats_new = \<lparr> tun_packets_read = 0, packets_to_clients = 0, packets_no_route = 0, packets_unknown_version = 0,
     packets_dropped_full = 0, packets_from_clients = 0, packets_tun_write_failed = 0, packets_spoofed = 0,
     packets_inter_client_blocked = 0, packets_dropped_too_large = 0 \<rparr>"

type_synonym 'e client_key = "'e \<times> 64 word"

record 'c client_state =
  cs_session_id :: "64 word"
  cs_assigned_ip :: "32 word option"
  cs_assigned_ip6 :: "128 word option"
  cs_connection :: 'c
  cs_datagram_tx :: client_queue

text \<open>The reverse lookups from addresses to the clients that hold them.\<close>

record 'e ip_owners =
  ip_to_endpoint :: "32 word \<rightharpoonup> 'e client_key"
  ip6_to_endpoint :: "128 word \<rightharpoonup> 'e client_key"

record 'e client_context =
  cx_assigned_ip :: "32 word option"
  cx_assigned_ip6 :: "128 word option"
  cx_client_key :: "'e client_key"

record tun_write_request =
  tw_packet :: bytes
  tw_offload :: "virtio_net_hdr option"

section \<open>From clients to the TUN writer\<close>

datatype channel_error = ChannelFull | ChannelClosed

record 'q write_channel =
  chan_try_send :: "'q \<Rightarrow> tun_write_request \<Rightarrow> 'q \<times> (channel_error + unit)"
  chan_send :: "'q \<Rightarrow> tun_write_request \<Rightarrow> 'q \<times> bool"

definition enqueue_tun_write ::
  "'q write_channel \<Rightarrow> 'q \<Rightarrow> tun_write_request \<Rightarrow> vpn_server_stats \<Rightarrow> 'q \<times> vpn_server_stats \<times> bool" where
  "enqueue_tun_write ch q req stats =
    (case chan_try_send ch q req of
       (q', Inr _) \<Rightarrow> (q', stats\<lparr>packets_from_clients := packets_from_clients stats + 1\<rparr>, True)
     | (q', Inl ChannelFull) \<Rightarrow>
         (case chan_send ch q' req of
            (q'', True) \<Rightarrow> (q'', stats\<lparr>packets_from_clients := packets_from_clients stats + 1\<rparr>, True)
          | (q'', False) \<Rightarrow> (q'', stats\<lparr>packets_tun_write_failed := packets_tun_write_failed stats + 1\<rparr>, False))
     | (q', Inl ChannelClosed) \<Rightarrow>
         (q', stats\<lparr>packets_tun_write_failed := packets_tun_write_failed stats + 1\<rparr>, False))"

definition source_valid :: "'e ip_owners \<Rightarrow> 'e client_key \<Rightarrow> bytes \<Rightarrow> bool" where
  "source_valid owners client_key packet =
    (case extract_source_ip packet of
       Some (V4 src_ip) \<Rightarrow>
         (case ip_to_endpoint owners src_ip of Some owner \<Rightarrow> owner = client_key | None \<Rightarrow> True)
     | Some (V6 src_ip) \<Rightarrow>
         (let src_bytes = to_be_bytes src_ip;
              is_link_local = (src_bytes ! 0 = 0xfe \<and> src_bytes ! 1 AND 0xc0 = 0x80) in
          if is_link_local then False
          else case ip6_to_endpoint owners src_ip of Some owner \<Rightarrow> owner = client_key | None \<Rightarrow> True)
     | None \<Rightarrow> False)"

definition to_vpn_client :: "'e ip_owners \<Rightarrow> bytes \<Rightarrow> bool" where
  "to_vpn_client owners packet =
    (case extract_dest_ip packet of
       Some (V4 dst) \<Rightarrow> ip_to_endpoint owners dst \<noteq> None
     | Some (V6 dst) \<Rightarrow> ip6_to_endpoint owners dst \<noteq> None
     | None \<Rightarrow> False)"

text \<open>One iteration of the inbound loop; \<open>False\<close> is \<open>break 'inbound\<close>.\<close>

definition inbound_packet ::
  "'q write_channel \<Rightarrow> 16 word set \<Rightarrow> 'e client_context \<Rightarrow> 'e ip_owners \<Rightarrow> bytes \<Rightarrow>
     'q \<times> vpn_server_stats \<Rightarrow> ('q \<times> vpn_server_stats) \<times> bool" where
  "inbound_packet ch ports ctx owners packet st =
    (case st of (q, stats) \<Rightarrow>
       if packet_has_local_iroh_udp_port packet ports then (st, True)
       else if \<not> source_valid owners (cx_client_key ctx) packet
       then ((q, stats\<lparr>packets_spoofed := packets_spoofed stats + 1\<rparr>), True)
       else if to_vpn_client owners packet
       then ((q, stats\<lparr>packets_inter_client_blocked := packets_inter_client_blocked stats + 1\<rparr>), True)
       else case enqueue_tun_write ch q \<lparr> tw_packet = packet, tw_offload = None \<rparr> stats of
              (q', stats', ok) \<Rightarrow> ((q', stats'), ok))"

fun inbound_batch ::
  "'q write_channel \<Rightarrow> 16 word set \<Rightarrow> 'e client_context \<Rightarrow> ('e ip_owners \<times> bytes) list \<Rightarrow>
     'q \<times> vpn_server_stats \<Rightarrow> ('q \<times> vpn_server_stats) \<times> bool" where
  "inbound_batch ch ports ctx [] st = (st, True)"
| "inbound_batch ch ports ctx ((owners, packet) # rest) st =
    (case inbound_packet ch ports ctx owners packet st of
       (st', True) \<Rightarrow> inbound_batch ch ports ctx rest st'
     | (st', False) \<Rightarrow> (st', False))"

text \<open>The inbound task over the batches the connection delivers, each a read error or a list of
  packets; \<open>True\<close> says that the task has ended, \<open>False\<close> that it waits for the next batch.\<close>

fun inbound_task ::
  "'q write_channel \<Rightarrow> 16 word set \<Rightarrow> 'e client_context \<Rightarrow> (string + ('e ip_owners \<times> bytes) list) list \<Rightarrow>
     'q \<times> vpn_server_stats \<Rightarrow> ('q \<times> vpn_server_stats) \<times> bool" where
  "inbound_task ch ports ctx [] st = (st, False)"
| "inbound_task ch ports ctx (Inl e # reads) st = (st, True)"
| "inbound_task ch ports ctx (Inr datagrams # reads) st =
    (case inbound_batch ch ports ctx datagrams st of
       (st', True) \<Rightarrow> inbound_task ch ports ctx reads st'
     | (st', False) \<Rightarrow> (st', True))"

text \<open>How the handler's \<open>select!\<close> completes: the inbound task ends (normally, by a panic or
  cancelled), or the writer's error channel reports a message or closes.  \<open>None\<close> is the failed
  \<open>expect\<close> on a context with no address.\<close>

datatype join_result = Joined | JoinPanicked string | JoinFailed string
datatype select_result = InboundDone join_result | WriterError "string option"

definition handle_client_data :: "'e client_context \<Rightarrow> select_result \<Rightarrow> (('n4, 'n6) vpn_error + unit) option" where
  "handle_client_data ctx sel =
    (if cx_assigned_ip ctx = None \<and> cx_assigned_ip6 ctx = None then None
     else Some (case sel of
       InboundDone Joined \<Rightarrow> Inr ()
     | InboundDone (JoinPanicked e) \<Rightarrow> Inl (ConnectionLost (''inbound task panicked: '' @ e))
     | InboundDone (JoinFailed e) \<Rightarrow> Inl (ConnectionLost (''inbound task failed: '' @ e))
     | WriterError (Some err_msg) \<Rightarrow> Inl (ConnectionLost err_msg)
     | WriterError None \<Rightarrow> Inr ()))"

section \<open>From the TUN device to clients\<close>

fun push_pending :: "client_queue \<Rightarrow> vpn_server_stats \<Rightarrow> bytes list \<Rightarrow> client_queue \<times> vpn_server_stats" where
  "push_pending q stats [] = (q, stats)"
| "push_pending q stats (datagram # pending) =
    (case try_push q datagram of
       (q', Inr _) \<Rightarrow> push_pending q' stats pending
     | (q', Inl (Full _)) \<Rightarrow>
         push_pending q' (stats\<lparr>packets_dropped_full := packets_dropped_full stats + 1\<rparr>) pending
     | (q', Inl (Closed _)) \<Rightarrow> (q', stats))"

definition queue_client_datagrams ::
  "nat option \<Rightarrow> client_queue \<Rightarrow> virtio_net_hdr option \<Rightarrow> bytes \<Rightarrow> vpn_server_stats \<Rightarrow>
     client_queue \<times> vpn_server_stats" where
  "queue_client_datagrams max_size datagram_tx offload packet stats =
    (case prepare_ip_datagrams max_size offload packet ([], no_outcome) of (pending, outcome) \<Rightarrow>
       let stats = (if dropped_too_large outcome > 0
             then stats\<lparr>packets_dropped_too_large := packets_dropped_too_large stats + dropped_too_large outcome\<rparr>
             else stats);
           stats = (if dropped_other outcome > 0
             then stats\<lparr>packets_dropped_full := packets_dropped_full stats + dropped_other outcome\<rparr>
             else stats) in
       push_pending datagram_tx stats pending)"

record ('e, 'c) server_tables =
  st_clients :: "'e client_key \<rightharpoonup> 'c client_state"
  st_owners :: "'e ip_owners"
  st_stats :: vpn_server_stats

text \<open>One frame read from the device; \<open>max_datagram_size\<close> is the connection's current limit.\<close>

definition no_route :: "('e, 'c) server_tables \<Rightarrow> ('e, 'c) server_tables" where
  "no_route s = s\<lparr>st_stats := (st_stats s)\<lparr>packets_no_route := packets_no_route (st_stats s) + 1\<rparr>\<rparr>"

definition route_to :: "('c \<Rightarrow> nat option) \<Rightarrow> ('e, 'c) server_tables \<Rightarrow> 'e client_key option \<Rightarrow>
    virtio_net_hdr option \<Rightarrow> bytes \<Rightarrow> ('e, 'c) server_tables" where
  "route_to max_datagram_size s owner offload packet =
    (case owner of
       None \<Rightarrow> no_route s
     | Some client_key \<Rightarrow>
         (case st_clients s client_key of
            None \<Rightarrow> no_route s
          | Some c \<Rightarrow>
              (case queue_client_datagrams (max_datagram_size (cs_connection c)) (cs_datagram_tx c)
                      offload packet (st_stats s) of
                 (q, stats) \<Rightarrow>
                   s\<lparr>st_clients := (st_clients s)(client_key \<mapsto> c\<lparr>cs_datagram_tx := q\<rparr>), st_stats := stats\<rparr>)))"

definition tun_reader_frame ::
  "nat \<Rightarrow> tun_reader \<Rightarrow> 16 word set \<Rightarrow> ('c \<Rightarrow> nat option) \<Rightarrow> bytes \<Rightarrow>
     ('e, 'c) server_tables \<Rightarrow> ('e, 'c) server_tables" where
  "tun_reader_frame pi_len reader ports max_datagram_size raw_frame s0 =
    (let s = s0\<lparr>st_stats := (st_stats s0)\<lparr>tun_packets_read := tun_packets_read (st_stats s0) + 1\<rparr>\<rparr> in
     case split_frame pi_len reader raw_frame of
       Inl e \<Rightarrow> s
     | Inr (offload, packet_ref) \<Rightarrow>
         if packet_has_local_iroh_udp_port packet_ref ports then s
         else case extract_dest_ip packet_ref of
             Some (V4 dest_ip) \<Rightarrow>
               route_to max_datagram_size s (ip_to_endpoint (st_owners s) dest_ip) offload packet_ref
           | Some (V6 dest_ip) \<Rightarrow>
               route_to max_datagram_size s (ip6_to_endpoint (st_owners s) dest_ip) offload packet_ref
           | None \<Rightarrow>
               s\<lparr>st_stats := (st_stats s)\<lparr>packets_unknown_version := packets_unknown_version (st_stats s) + 1\<rparr>\<rparr>)"

text \<open>The reader's loop over the results of its reads; \<open>True\<close> says that it ended on a read error.\<close>

fun run_tun_reader ::
  "nat \<Rightarrow> tun_reader \<Rightarrow> 16 word set \<Rightarrow> ('c \<Rightarrow> nat option) \<Rightarrow> (string + bytes) list \<Rightarrow>
     ('e, 'c) server_tables \<Rightarrow> ('e, 'c) server_tables \<times> bool" where
  "run_tun_reader pi_len reader ports max_datagram_size [] s = (s, False)"
| "run_tun_reader pi_len reader ports max_datagram_size (Inl e # reads) s = (s, True)"
| "run_tun_reader pi_len reader ports max_datagram_size (Inr frame # reads) s =
    run_tun_reader pi_len reader ports max_datagram_size reads
      (if frame = [] then s else tun_reader_frame pi_len reader ports max_datagram_size frame s)"

section \<open>Isolation of clients on the way in\<close>

text \<open>What the channel promises: \<open>log\<close> is all it ever accepted, in order; a successful operation
  adds the request at the end and a refused one adds nothing.\<close>

definition lawful_channel :: "'q write_channel \<Rightarrow> ('q \<Rightarrow> tun_write_request list) \<Rightarrow> bool" where
  "lawful_channel ch log \<longleftrightarrow>
    (\<forall>q req q' r. chan_try_send ch q req = (q', r) \<longrightarrow> log q' = log q @ (if r = Inr () then [req] else [])) \<and>
    (\<forall>q req q' ok. chan_send ch q req = (q', ok) \<longrightarrow> log q' = log q @ (if ok then [req] else []))"

text \<open>A packet the server forwards for a client: not self-encapsulated, its source not an address
  of another client, its destination not an address of any client.\<close>

definition owner_of :: "'e ip_owners \<Rightarrow> ip_addr \<Rightarrow> 'e client_key option" where
  "owner_of owners ip = (case ip of V4 a \<Rightarrow> ip_to_endpoint owners a | V6 a \<Rightarrow> ip6_to_endpoint owners a)"

definition link_local :: "ip_addr \<Rightarrow> bool" where
  "link_local ip = (case ip of V4 _ \<Rightarrow> False | V6 a \<Rightarrow> drop_bit 118 a = 0x3FA)"

definition source_ok :: "'e client_key \<Rightarrow> 'e ip_owners \<Rightarrow> bytes \<Rightarrow> bool" where
  "source_ok key owners packet \<longleftrightarrow>
    (\<exists>src. extract_source_ip packet = Some src \<and> \<not> link_local src \<and> owner_of owners src \<in> {None, Some key})"

definition to_client :: "'e ip_owners \<Rightarrow> bytes \<Rightarrow> bool" where
  "to_client owners packet \<longleftrightarrow> (\<exists>dst. extract_dest_ip packet = Some dst \<and> owner_of owners dst \<noteq> None)"

lemma be_list_nth: "i < n \<Longrightarrow> be_list n x ! i = of_nat (x div 256 ^ (n - 1 - i))"
proof (induction n arbitrary: x)
  case (Suc n)
  show ?case
  proof (cases "i < n")
    case True
    then have "256 * 256 ^ (n - 1 - i) = (256 :: nat) ^ (n - i)"
      by (metis Suc_diff_Suc diff_Suc_eq_diff_pred power_Suc)
    then show ?thesis using True Suc.IH [of "x div 256"] by (simp add: nth_append flip: div_mult2_eq)
  next
    case False
    then show ?thesis using Suc.prems by (simp add: nth_append less_Suc_eq)
  qed
qed simp

lemma top_two_bits: "b AND 0xc0 = (0x80 :: byte) \<longleftrightarrow> unat b div 64 = 2"
proof -
  have "list_all (\<lambda>n. ((of_nat n :: byte) AND 0xc0 = 0x80) = (n div 64 = 2)) [0..<256]" by code_simp
  then have "((of_nat (unat b) :: byte) AND 0xc0 = 0x80) = (unat b div 64 = 2)"
    unfolding list_all_iff by (rule bspec) simp
  then show ?thesis by simp
qed

lemma link_local_bytes:
  "to_be_bytes a ! 0 = 0xfe \<and> to_be_bytes a ! 1 AND 0xc0 = 0x80 \<longleftrightarrow> drop_bit 118 (a :: 128 word) = 0x3FA"
proof -
  define y where "y = unat a div 2 ^ 112"
  have "unat a < 2 ^ 128" using unat_less_exp [of a] by simp
  then have y: "y < 65536" by (simp add: y_def)
  have "unat a div 256 ^ 15 = y div 256" by (simp add: y_def flip: div_mult2_eq)
  then have "(to_be_bytes a ! 0 = 0xfe) = (unat (of_nat (y div 256) :: byte) = unat (0xfe :: byte))"
    by (simp only: word_unat_eq_iff) (simp add: to_be_bytes_def be_list_nth)
  also have "\<dots> \<longleftrightarrow> y div 256 = 254" using y by simp
  finally have b0: "to_be_bytes a ! 0 = 0xfe \<longleftrightarrow> y div 256 = 254" .
  have "to_be_bytes a ! 1 = of_nat y" by (simp add: to_be_bytes_def be_list_nth y_def)
  then have b1: "to_be_bytes a ! 1 AND 0xc0 = 0x80 \<longleftrightarrow> y mod 256 div 64 = 2" by (simp add: top_two_bits)
  have "unat (drop_bit 118 a) = y div 64"
    by (simp only: unat_drop_bit_eq) (simp add: drop_bit_eq_div y_def flip: div_mult2_eq)
  moreover have "unat (0x3FA :: 128 word) = 1018" by simp
  ultimately have "drop_bit 118 a = 0x3FA \<longleftrightarrow> y div 64 = 1018" by (simp only: word_unat_eq_iff)
  moreover have "y div 256 = 254 \<and> y mod 256 div 64 = 2 \<longleftrightarrow> y div 64 = 1018"
  proof -
    have "y div 256 = y div 64 div 4" by (simp flip: div_mult2_eq)
    moreover have "y mod 256 div 64 = y div 64 mod 4" using mod_mult2_eq [of y 64 4] by simp
    moreover have "z div 4 = 254 \<and> z mod 4 = 2 \<longleftrightarrow> z = 1018" for z :: nat
      by presburger
    ultimately show ?thesis by simp
  qed
  ultimately show ?thesis by (simp only: b0 b1)
qed

lemma owner_allowed: "(case m of None \<Rightarrow> True | Some k \<Rightarrow> k = key) \<longleftrightarrow> m \<in> {None, Some key}"
  by (cases m) auto

lemma source_valid_iff: "source_valid owners key packet = source_ok key owners packet"
proof (cases "extract_source_ip packet")
  case None
  then show ?thesis by (simp add: source_valid_def source_ok_def)
next
  case (Some src)
  show ?thesis
    by (cases src; simp only: source_valid_def source_ok_def Let_def Some option.case ip_addr.case owner_allowed
        link_local_bytes owner_of_def link_local_def option.inject ex_simps simp_thms if_bool_eq_conj; blast)
qed

lemma to_vpn_client_iff: "to_vpn_client owners packet = to_client owners packet"
  by (auto simp: to_vpn_client_def to_client_def owner_of_def split: option.splits ip_addr.splits)

lemma source_dest_parsed: "extract_source_ip packet = None \<longleftrightarrow> extract_dest_ip packet = None"
  by (simp add: extract_source_ip_def extract_dest_ip_def Let_def)

text \<open>The verdicts on a received packet.\<close>

datatype verdict = SelfEncapsulated | Spoofed | InterClient | Forward

definition verdict :: "16 word set \<Rightarrow> 'e client_key \<Rightarrow> 'e ip_owners \<times> bytes \<Rightarrow> verdict" where
  "verdict ports key x = (case x of (owners, packet) \<Rightarrow>
    if packet_has_local_iroh_udp_port packet ports then SelfEncapsulated
    else if \<not> source_ok key owners packet then Spoofed
    else if to_client owners packet then InterClient else Forward)"

lemma verdict_Forward_iff:
  "verdict ports key (owners, packet) = Forward \<longleftrightarrow> \<not> packet_has_local_iroh_udp_port packet ports \<and>
    (\<exists>src dst. extract_source_ip packet = Some src \<and> extract_dest_ip packet = Some dst \<and>
      \<not> link_local src \<and> owner_of owners src \<in> {None, Some key} \<and> owner_of owners dst = None)"
proof (cases "extract_source_ip packet")
  case None
  then show ?thesis by (simp add: verdict_def source_ok_def)
next
  case (Some src)
  with source_dest_parsed [of packet] obtain dst where "extract_dest_ip packet = Some dst" by auto
  then show ?thesis using Some
    by (cases "owner_of owners src"; cases "owner_of owners dst") (auto simp: verdict_def source_ok_def to_client_def)
qed

definition tally :: "16 word set \<Rightarrow> 'e client_key \<Rightarrow> verdict \<Rightarrow> ('e ip_owners \<times> bytes) list \<Rightarrow> 64 word" where
  "tally ports key v xs = of_nat (length (filter (\<lambda>x. verdict ports key x = v) xs))"

lemma tally_simps [simp]:
  "tally ports key v [] = 0"
  "tally ports key v (x # xs) = (if verdict ports key x = v then 1 else 0) + tally ports key v xs"
  by (simp_all add: tally_def)

lemma enqueue_tun_write_effect:
  assumes "lawful_channel ch log" and "enqueue_tun_write ch q req stats = (q', stats', ok)"
  shows "log q' = log q @ (if ok then [req] else []) \<and>
    stats' = (if ok then stats\<lparr>packets_from_clients := packets_from_clients stats + 1\<rparr>
      else stats\<lparr>packets_tun_write_failed := packets_tun_write_failed stats + 1\<rparr>)"
proof -
  obtain q1 r1 where r1: "chan_try_send ch q req = (q1, r1)" by force
  obtain q2 ok2 where r2: "chan_send ch q1 req = (q2, ok2)" by force
  have "log q1 = log q @ (if r1 = Inr () then [req] else [])" "log q2 = log q1 @ (if ok2 then [req] else [])"
    using assms(1) r1 r2 unfolding lawful_channel_def by blast+
  then show ?thesis
    using assms(2) r1 r2 by (auto simp: enqueue_tun_write_def split: sum.splits channel_error.splits bool.splits)
qed

lemma inbound_packet_effect:
  assumes "lawful_channel ch log" and "inbound_packet ch ports ctx owners packet (q, stats) = ((q', stats'), ok)"
  defines "v \<equiv> verdict ports (cx_client_key ctx) (owners, packet)"
  shows "log q' = log q @ (if v = Forward \<and> ok then [\<lparr> tw_packet = packet, tw_offload = None \<rparr>] else []) \<and>
    (v \<noteq> Forward \<longrightarrow> ok) \<and>
    packets_from_clients stats' = packets_from_clients stats + (if v = Forward \<and> ok then 1 else 0) \<and>
    packets_spoofed stats' = packets_spoofed stats + (if v = Spoofed then 1 else 0) \<and>
    packets_inter_client_blocked stats' = packets_inter_client_blocked stats + (if v = InterClient then 1 else 0) \<and>
    packets_tun_write_failed stats' = packets_tun_write_failed stats + (if ok then 0 else 1)"
  using assms(2) enqueue_tun_write_effect [OF assms(1), of q "\<lparr> tw_packet = packet, tw_offload = None \<rparr>" stats]
  by (auto simp: v_def verdict_def inbound_packet_def source_valid_iff to_vpn_client_iff split: if_splits prod.splits)


definition sample_channel :: "(nat \<times> tun_write_request list) write_channel" where
  "sample_channel = \<lparr> chan_try_send = (\<lambda>(room, l) req. if room = 0 then ((room, l), Inl ChannelFull)
       else ((room - 1, l @ [req]), Inr ())),
     chan_send = (\<lambda>(room, l) req. ((room, l @ [req]), True)) \<rparr>"

definition sample_owners :: "nat ip_owners" where
  "sample_owners = \<lparr> ip_to_endpoint = [0x0A000002 \<mapsto> (7, 0), 0x0A000003 \<mapsto> (8, 0)], ip6_to_endpoint = Map.empty \<rparr>"

definition sample_packet :: "byte \<Rightarrow> byte \<Rightarrow> bytes" where
  "sample_packet src dst = [0x45, 0, 0, 20, 0, 0, 0, 0, 64, 6, 0, 0, 10, 0, 0, src, 10, 0, 0, dst]"

lemma sample_packet_ips:
  "extract_source_ip (sample_packet 2 1) = Some (V4 0x0A000002)" "extract_dest_ip (sample_packet 2 1) = Some (V4 0x0A000001)"
  "extract_source_ip (sample_packet 3 1) = Some (V4 0x0A000003)"
  "extract_source_ip (sample_packet 2 3) = Some (V4 0x0A000002)" "extract_dest_ip (sample_packet 2 3) = Some (V4 0x0A000003)"
  by (simp_all add: extract_source_ip_def extract_dest_ip_def read_ipv4_addr_def sub_bytes_def from_be_bytes_def
      sample_packet_def IPV4_MIN_HEADER_def IP_VERSION_4_def)


section \<open>Isolation of clients on the way out\<close>

text \<open>The datagrams one frame gives, and the client it goes to.\<close>

definition datagrams_of :: "nat option \<Rightarrow> virtio_net_hdr option \<Rightarrow> bytes \<Rightarrow> bytes list" where
  "datagrams_of max_size offload packet = filter (fits max_size)
    (case offload of None \<Rightarrow> [packet] | Some hdr \<Rightarrow> fst (materialize_offload_into hdr packet push_packet []))"

definition destined :: "nat \<Rightarrow> tun_reader \<Rightarrow> 16 word set \<Rightarrow> 'e ip_owners \<Rightarrow> 'e client_key \<Rightarrow> bytes \<Rightarrow>
    (virtio_net_hdr option \<times> bytes) list" where
  "destined pi_len reader ports owners key frame =
    (case split_frame pi_len reader frame of
       Inl _ \<Rightarrow> []
     | Inr (offload, packet) \<Rightarrow>
         if \<not> packet_has_local_iroh_udp_port packet ports \<and>
           (\<exists>dst. extract_dest_ip packet = Some dst \<and> owner_of owners dst = Some key)
         then [(offload, packet)] else [])"

fun frames_read :: "(string + bytes) list \<Rightarrow> bytes list" where
  "frames_read [] = []"
| "frames_read (Inl _ # reads) = []"
| "frames_read (Inr frame # reads) = (if frame = [] then [] else [frame]) @ frames_read reads"

lemma push_pending_queue: "fst (push_pending q stats ds) = fold (\<lambda>d q. fst (try_push q d)) ds q"
proof (induction ds arbitrary: q stats)
  case (Cons d ds)
  have closed: "fold (\<lambda>d q. fst (try_push q d)) ds q = q" if "\<not> cq_receiver_alive q" for ds q
    using that by (induction ds) (simp_all add: try_push_eq)
  show ?case
  proof (cases "try_push q d")
    case (Pair q' r)
    then show ?thesis
      using Cons.IH closed [of q] by (auto simp: try_push_eq split: sum.splits try_send_error.splits if_splits)
  qed
qed simp

lemma prepared_pending: "fst (prepare_ip_datagrams max_size offload packet ([], out)) = datagrams_of max_size offload packet"
proof (cases offload)
  case None
  then show ?thesis by (simp add: prepare_ip_datagrams_def prepare_one_simp datagrams_of_def)
next
  case (Some hdr)
  then show ?thesis by (simp add: prepare_offload_eq datagrams_of_def Let_def case_prod_unfold)
qed

lemma queue_client_datagrams_queue:
  "fst (queue_client_datagrams max_size q offload packet stats) =
    fold (\<lambda>d q. fst (try_push q d)) (datagrams_of max_size offload packet) q"
  using prepared_pending [of max_size offload packet no_outcome]
  by (simp add: queue_client_datagrams_def case_prod_unfold Let_def push_pending_queue)

definition push_frames :: "('c \<Rightarrow> nat option) \<Rightarrow> (virtio_net_hdr option \<times> bytes) list \<Rightarrow> 'c client_state \<Rightarrow> 'c client_state" where
  "push_frames mds xs c = c\<lparr>cs_datagram_tx := fold (\<lambda>d q. fst (try_push q d))
    (concat (map (\<lambda>(offload, packet). datagrams_of (mds (cs_connection c)) offload packet) xs)) (cs_datagram_tx c)\<rparr>"

lemma push_frames_append: "push_frames mds ys (push_frames mds xs c) = push_frames mds (xs @ ys) c"
  by (simp add: push_frames_def)

lemma push_frames_Nil [simp]: "push_frames mds [] c = c"
  by (simp add: push_frames_def)

lemma push_frames_id: "map_option (push_frames mds []) m = m"
  by (cases m) simp_all

lemma push_pending_reads: "tun_packets_read (snd (push_pending q stats ds)) = tun_packets_read stats"
  by (induction ds arbitrary: q stats) (auto split: prod.splits sum.splits try_send_error.splits)

lemma queue_client_datagrams_reads:
  "tun_packets_read (snd (queue_client_datagrams max_size q offload packet stats)) = tun_packets_read stats"
  by (simp add: queue_client_datagrams_def case_prod_unfold Let_def push_pending_reads)

lemma route_to_effect:
  "st_clients (route_to mds s owner offload packet) k =
    map_option (push_frames mds (if owner = Some k then [(offload, packet)] else [])) (st_clients s k) \<and>
   st_owners (route_to mds s owner offload packet) = st_owners s \<and>
   tun_packets_read (st_stats (route_to mds s owner offload packet)) = tun_packets_read (st_stats s)"
proof (cases owner)
  case None
  then show ?thesis by (simp add: route_to_def no_route_def push_frames_id)
next
  case (Some key)
  show ?thesis
  proof (cases "st_clients s key")
    case None
    then show ?thesis using Some by (auto simp: route_to_def no_route_def push_frames_id)
  next
    case (Some c)
    then show ?thesis
      using \<open>owner = Some key\<close>
        queue_client_datagrams_queue [of "mds (cs_connection c)" "cs_datagram_tx c" offload packet "st_stats s"]
        queue_client_datagrams_reads [of "mds (cs_connection c)" "cs_datagram_tx c" offload packet "st_stats s"]
      by (simp add: route_to_def push_frames_def push_frames_id case_prod_unfold)
  qed
qed

lemma tun_reader_frame_effect:
  "st_clients (tun_reader_frame pi_len reader ports mds frame s) k =
    map_option (push_frames mds (destined pi_len reader ports (st_owners s) k frame)) (st_clients s k) \<and>
   st_owners (tun_reader_frame pi_len reader ports mds frame s) = st_owners s \<and>
   tun_packets_read (st_stats (tun_reader_frame pi_len reader ports mds frame s)) = tun_packets_read (st_stats s) + 1"
proof -
  define s1 where "s1 = s\<lparr>st_stats := (st_stats s)\<lparr>tun_packets_read := tun_packets_read (st_stats s) + 1\<rparr>\<rparr>"
  have s1: "st_clients s1 = st_clients s" "st_owners s1 = st_owners s"
    "tun_packets_read (st_stats s1) = tun_packets_read (st_stats s) + 1"
    by (simp_all add: s1_def)
  show ?thesis
  proof (cases "split_frame pi_len reader frame")
    case (Inl e)
    then show ?thesis by (simp add: tun_reader_frame_def destined_def push_frames_id)
  next
    case (Inr parts)
    obtain offload packet where parts: "parts = (offload, packet)" by force
    show ?thesis
    proof (cases "packet_has_local_iroh_udp_port packet ports \<or> extract_dest_ip packet = None")
      case True
      then show ?thesis by (auto simp: tun_reader_frame_def destined_def push_frames_id Inr parts Let_def)
    next
      case False
      then obtain dst where dst: "extract_dest_ip packet = Some dst" by auto
      then have "tun_reader_frame pi_len reader ports mds frame s =
          route_to mds s1 (owner_of (st_owners s) dst) offload packet"
        using False by (cases dst) (simp_all add: tun_reader_frame_def Inr parts Let_def owner_of_def s1_def)
      moreover have "destined pi_len reader ports (st_owners s) k frame =
          (if owner_of (st_owners s) dst = Some k then [(offload, packet)] else [])"
        using False dst by (simp add: destined_def Inr parts)
      ultimately show ?thesis
        using route_to_effect [of mds s1 "owner_of (st_owners s) dst" offload packet k] by (simp add: s1)
    qed
  qed
qed


end
