(* ===== verification/Config_Types.thy ===== *)
theory Config_Types
  imports Errors
begin

text \<open>
  \<open>config/mod.rs\<close>: the address-assignment strategy and the validation of the combination
  of VPN networks, server addresses and strategy that both the file layer and the runtime
  configuration share.
\<close>

definition VPN_MTU :: "16 word" where "VPN_MTU = 1280"

datatype ip6_strategy = Sequential | NodeId

datatype config_error =
    NodeIdNeedsNetwork6
  | NodeIdPrefixTooLong nat
  | NodeIdWithServerIp6
  | NoNetwork
  | ServerIpNeedsNetwork
  | ServerIpOutside "32 word"
  | ServerIp6NeedsNetwork6
  | ServerIp6Outside "128 word"
  | EmptyServerNodeId
  | InvalidServerNodeId
  | PrefixTooSmallForPool nat
  | DerivedServerIpIsNetwork

definition validate_ip6_strategy ::
  "('n4, 'n6) ipnet \<Rightarrow> ip6_strategy \<Rightarrow> 'n6 option \<Rightarrow> 128 word option \<Rightarrow> config_error + unit" where
  "validate_ip6_strategy lib strategy network6 server_ip6 =
    (if strategy \<noteq> NodeId then Inr ()
     else
       case network6 of
         None \<Rightarrow> Inl NodeIdNeedsNetwork6
       | Some n6 \<Rightarrow>
           if prefix_len (ops6 lib) n6 > 64 then Inl (NodeIdPrefixTooLong (prefix_len (ops6 lib) n6))
           else if server_ip6 \<noteq> None then Inl NodeIdWithServerIp6
           else Inr ())"

definition validate_vpn_networks ::
  "('n4, 'n6) ipnet \<Rightarrow> 'n4 option \<Rightarrow> 32 word option \<Rightarrow> 'n6 option \<Rightarrow> 128 word option \<Rightarrow>
     ip6_strategy \<Rightarrow> config_error + unit" where
  "validate_vpn_networks lib net server_ip network6 server_ip6 strategy =
    (if net = None \<and> network6 = None then Inl NoNetwork
     else if server_ip \<noteq> None \<and> net = None then Inl ServerIpNeedsNetwork
     else
       case (case (server_ip, net) of
               (Some ip, Some n) \<Rightarrow>
                 if \<not> contains (ops4 lib) n ip then Inl (ServerIpOutside ip) else Inr ()
             | _ \<Rightarrow> Inr ()) of
         Inl e \<Rightarrow> Inl e
       | Inr _ \<Rightarrow>
           if server_ip6 \<noteq> None \<and> network6 = None then Inl ServerIp6NeedsNetwork6
           else
             case (case (server_ip6, network6) of
                     (Some ip6, Some n6) \<Rightarrow>
                       if \<not> contains (ops6 lib) n6 ip6 then Inl (ServerIp6Outside ip6) else Inr ()
                   | _ \<Rightarrow> Inr ()) of
               Inl e \<Rightarrow> Inl e
             | Inr _ \<Rightarrow> validate_ip6_strategy lib strategy network6 server_ip6)"

record ('n4, 'n6, 'keys) vpn_server_config =
  sc_network :: "'n4 option"
  sc_network6 :: "'n6 option"
  sc_server_ip :: "32 word option"
  sc_server_ip6 :: "128 word option"
  sc_ip6_strategy :: ip6_strategy
  sc_max_clients :: nat
  sc_authorized_keys :: 'keys

definition server_config_validate ::
  "('n4, 'n6) ipnet \<Rightarrow> ('n4, 'n6, 'keys) vpn_server_config \<Rightarrow> config_error + unit" where
  "server_config_validate lib c =
    validate_vpn_networks lib (sc_network c) (sc_server_ip c) (sc_network6 c) (sc_server_ip6 c)
      (sc_ip6_strategy c)"

record ('n4, 'n6, 'key) vpn_client_config =
  cc_server_node_id :: string
  cc_client_key :: 'key
  cc_routes :: "'n4 list"
  cc_routes6 :: "'n6 list"

text \<open>\<open>parse\<close> is \<open>str::parse::<EndpointId>\<close> of the transport library.\<close>

definition client_config_validate ::
  "(string \<Rightarrow> 'e option) \<Rightarrow> ('n4, 'n6, 'key) vpn_client_config \<Rightarrow> config_error + unit" where
  "client_config_validate parse c =
    (if cc_server_node_id c = [] then Inl EmptyServerNodeId
     else if parse (cc_server_node_id c) = None then Inl InvalidServerNodeId
     else Inr ())"

section \<open>What a valid configuration guarantees\<close>

lemma validate_ip6_strategy_Inr:
  "validate_ip6_strategy lib strategy network6 server_ip6 = Inr u \<longleftrightarrow>
    (strategy = NodeId \<longrightarrow>
      (\<exists>n6. network6 = Some n6 \<and> prefix_len (ops6 lib) n6 \<le> 64) \<and> server_ip6 = None)"
  by (auto simp: validate_ip6_strategy_def split: option.splits)

lemma validate_vpn_networks_Inr:
  "validate_vpn_networks lib net server_ip network6 server_ip6 strategy = Inr u \<longleftrightarrow>
    (net \<noteq> None \<or> network6 \<noteq> None) \<and>
    (\<forall>ip. server_ip = Some ip \<longrightarrow> (\<exists>n. net = Some n \<and> contains (ops4 lib) n ip)) \<and>
    (\<forall>ip6. server_ip6 = Some ip6 \<longrightarrow> (\<exists>n6. network6 = Some n6 \<and> contains (ops6 lib) n6 ip6)) \<and>
    (strategy = NodeId \<longrightarrow>
      (\<exists>n6. network6 = Some n6 \<and> prefix_len (ops6 lib) n6 \<le> 64) \<and> server_ip6 = None)"
proof -
  consider "net = None" "network6 = None" | n where "net = Some n" | n6 where "net = None" "network6 = Some n6"
    by (cases net; cases network6) auto
  then show ?thesis
    by cases (auto simp: validate_vpn_networks_def validate_ip6_strategy_Inr
        split: option.splits sum.splits if_splits)
qed

end
