(* ===== verification/Ip_Pool.thy ===== *)
theory Ip_Pool
  imports Config_Types "HOL-Library.AList"
begin

unbundle bit_operations_syntax

text \<open>
  The address pools of \<open>tunnel/server.rs\<close>.  A hash map is an association list with distinct
  keys, a hash set a set.  Additions and subtractions that a checked build would abort on
  are \<open>checked_add\<close> and \<open>checked_sub\<close>: the outer \<open>option\<close> of an operation is \<open>None\<close> exactly
  when one of them overflows.  The interface \<open>address_pool\<close> states what the connection
  handler relies on; both pools are instances of it.
\<close>

section \<open>The interface\<close>

datatype 'k pool_op = Allocate 'k | Release 'k

fun run_pool ::
  "('p \<Rightarrow> 'k \<Rightarrow> ('p \<times> 'a option) option) \<Rightarrow> ('p \<Rightarrow> 'k \<Rightarrow> 'p) \<Rightarrow> 'p \<Rightarrow> 'k pool_op list \<Rightarrow> 'p option" where
  "run_pool alloc rel p [] = Some p"
| "run_pool alloc rel p (Allocate k # ops) =
    (case alloc p k of None \<Rightarrow> None | Some (p', _) \<Rightarrow> run_pool alloc rel p' ops)"
| "run_pool alloc rel p (Release k # ops) = run_pool alloc rel (rel p k) ops"

locale address_pool =
  fixes alloc :: "'p \<Rightarrow> 'k \<Rightarrow> ('p \<times> 'a option) option"
    and rel :: "'p \<Rightarrow> 'k \<Rightarrow> 'p"
    and lease :: "'p \<Rightarrow> 'k \<Rightarrow> 'a option"
    and usable :: "'p \<Rightarrow> 'a set"
    and invar :: "'p \<Rightarrow> bool"
  assumes lease_inj: "invar p \<Longrightarrow> lease p k = Some a \<Longrightarrow> lease p k' = Some a \<Longrightarrow> k = k'"
    and lease_usable: "invar p \<Longrightarrow> lease p k = Some a \<Longrightarrow> a \<in> usable p"
    and alloc_total: "invar p \<Longrightarrow> \<exists>p' r. alloc p k = Some (p', r)"
    and alloc_invar: "invar p \<Longrightarrow> alloc p k = Some (p', r) \<Longrightarrow> invar p'"
    and alloc_lease: "invar p \<Longrightarrow> alloc p k = Some (p', r) \<Longrightarrow>
      lease p' = (case r of None \<Rightarrow> lease p | Some a \<Rightarrow> (lease p)(k \<mapsto> a))"
    and alloc_keeps: "invar p \<Longrightarrow> alloc p k = Some (p', r) \<Longrightarrow> lease p k = Some a \<Longrightarrow> r = Some a"
    and alloc_usable: "invar p \<Longrightarrow> alloc p k = Some (p', r) \<Longrightarrow> usable p' = usable p"
    and rel_invar: "invar p \<Longrightarrow> invar (rel p k)"
    and rel_lease: "invar p \<Longrightarrow> lease (rel p k) = (lease p)(k := None)"
    and rel_usable: "invar p \<Longrightarrow> usable (rel p k) = usable p"
begin

lemma alloc_fresh:
  assumes "invar p" and "alloc p k = Some (p', Some a)" and "k' \<noteq> k"
  shows "lease p k' \<noteq> Some a"
proof
  assume "lease p k' = Some a"
  then have "lease p' k' = Some a" "lease p' k = Some a" using alloc_lease [OF assms(1,2)] assms(3) by simp_all
  then show False using lease_inj [OF alloc_invar [OF assms(1,2)], of k' a k] assms(3) by simp
qed

lemma run_total:
  "invar p \<Longrightarrow> \<exists>p'. run_pool alloc rel p ops = Some p' \<and> invar p' \<and> usable p' = usable p"
proof (induction ops arbitrary: p)
  case (Cons x ops)
  show ?case
  proof (cases x)
    case (Allocate k)
    obtain p1 r where a: "alloc p k = Some (p1, r)" using alloc_total [OF Cons.prems] by blast
    from Cons.IH [OF alloc_invar [OF Cons.prems a]] show ?thesis
      using alloc_usable [OF Cons.prems a] by (auto simp: Allocate a)
  next
    case (Release k)
    from Cons.IH [OF rel_invar [OF Cons.prems, of k]] show ?thesis
      using rel_usable [OF Cons.prems] by (auto simp: Release)
  qed
qed simp

lemma run_exclusive:
  assumes "invar p" and "run_pool alloc rel p ops = Some p'"
    and "lease p' k = Some a" and "lease p' k' = Some a"
  shows "k = k'"
proof -
  have "invar p'" using run_total [OF assms(1), of ops] assms(2) by auto
  then show ?thesis using lease_inj assms(3,4) by blast
qed

lemma run_usable:
  assumes "invar p" and "run_pool alloc rel p ops = Some p'" and "lease p' k = Some a"
  shows "a \<in> usable p"
proof -
  have "invar p'" "usable p' = usable p" using run_total [OF assms(1), of ops] assms(2) by auto
  then show ?thesis using lease_usable assms(3) by blast
qed

text \<open>A lease lasts until it is released.\<close>

lemma run_keeps_lease:
  "invar p \<Longrightarrow> run_pool alloc rel p ops = Some p' \<Longrightarrow> lease p k = Some a \<Longrightarrow>
    Release k \<notin> set ops \<Longrightarrow> lease p' k = Some a"
proof (induction ops arbitrary: p)
  case (Cons x ops)
  show ?case
  proof (cases x)
    case (Allocate j)
    obtain p1 r where a: "alloc p j = Some (p1, r)" using alloc_total [OF Cons.prems(1)] by blast
    have "lease p1 k = Some a"
      using alloc_lease [OF Cons.prems(1) a] alloc_keeps [OF Cons.prems(1) a] Cons.prems(3)
      by (cases "j = k") (auto split: option.splits)
    then show ?thesis
      using Cons.IH [OF alloc_invar [OF Cons.prems(1) a]] Cons.prems(2,4) by (simp add: Allocate a)
  next
    case (Release j)
    then have "lease (rel p j) k = Some a"
      using Cons.prems rel_lease [OF Cons.prems(1)] by auto
    then show ?thesis
      using Cons.IH [OF rel_invar [OF Cons.prems(1)]] Cons.prems(2,4) by (simp add: Release)
  qed
qed simp

lemma alloc_grants:
  assumes "invar p" and "alloc p k = Some (p', Some a)"
  shows "lease p' k = Some a" "a \<in> usable p"
proof -
  show l: "lease p' k = Some a" using alloc_lease [OF assms] by simp
  show "a \<in> usable p"
    using lease_usable [OF alloc_invar [OF assms] l] alloc_usable [OF assms] by simp
qed

end

text \<open>A pool that refuses a client only when it has nothing left to give.\<close>

locale complete_pool = address_pool +
  assumes exhausted: "invar p \<Longrightarrow> alloc p k = Some (p', None) \<Longrightarrow> usable p \<subseteq> ran (lease p)"
begin

lemma alloc_succeeds:
  assumes "invar p" and "a \<in> usable p" and "a \<notin> ran (lease p)"
  shows "\<exists>p' b. alloc p k = Some (p', Some b)"
  using alloc_total [OF assms(1), of k] exhausted [OF assms(1), of k] assms(2,3)
  by (metis option.exhaust subsetD)

end

section \<open>The IPv4 pool\<close>

record ('n, 'k) ip_pool =
  p4_network :: 'n
  p4_server_ip :: "32 word"
  p4_next_ip :: "32 word"
  p4_max_ip :: "32 word"
  p4_in_use :: "('k \<times> 32 word) list"
  p4_released :: "32 word list"
  p4_reserved :: "32 word set"

definition ip_pool_new ::
  "('n, 32 word) net_ops \<Rightarrow> 'n \<Rightarrow> 32 word option \<Rightarrow> ('n, 'k) ip_pool option" where
  "ip_pool_new ops net server_ip =
    (let net_addr = network ops net; bcast = broadcast ops net in
     case (case server_ip of Some ip \<Rightarrow> Some ip | None \<Rightarrow> checked_add net_addr 1) of
       None \<Rightarrow> None
     | Some srv \<Rightarrow>
         (case (checked_add srv 1, checked_sub bcast 1) of
            (Some nxt, Some mx) \<Rightarrow> Some \<lparr> p4_network = net, p4_server_ip = srv, p4_next_ip = nxt,
              p4_max_ip = mx, p4_in_use = [], p4_released = [], p4_reserved = {} \<rparr>
          | _ \<Rightarrow> None))"

datatype reserve_error = NotWithinNetwork | EqualsServerIp | NotUsableHost | AlreadyAssigned

definition reserve_ip ::
  "('n, 32 word) net_ops \<Rightarrow> ('n, 'k) ip_pool \<Rightarrow> 32 word \<Rightarrow> ('n, 'k) ip_pool \<times> (reserve_error + unit)" where
  "reserve_ip ops p ip =
    (if \<not> contains ops (p4_network p) ip then (p, Inl NotWithinNetwork)
     else if ip = p4_server_ip p then (p, Inl EqualsServerIp)
     else if ip = network ops (p4_network p) \<or> ip = broadcast ops (p4_network p)
     then (p, Inl NotUsableHost)
     else if ip \<in> p4_reserved p then (p, Inr ())
     else if list_ex (\<lambda>assigned. assigned = ip) (map snd (p4_in_use p)) then (p, Inl AlreadyAssigned)
     else (p\<lparr>p4_released := filter (\<lambda>r. r \<noteq> ip) (p4_released p),
             p4_reserved := insert ip (p4_reserved p)\<rparr>, Inr ()))"

function next_unreserved_ip :: "('n, 'k) ip_pool \<Rightarrow> (('n, 'k) ip_pool \<times> 32 word option) option" where
  "next_unreserved_ip p =
    (if p4_next_ip p \<le> p4_max_ip p then
       (let ip = p4_next_ip p in
        case checked_add (p4_next_ip p) 1 of
          None \<Rightarrow> None
        | Some n \<Rightarrow>
            let p' = p\<lparr>p4_next_ip := n\<rparr> in
            if ip \<in> p4_reserved p' then next_unreserved_ip p' else Some (p', Some ip))
     else Some (p, None))"
  by pat_completeness auto

termination next_unreserved_ip
  by (relation "measure (\<lambda>p. 2 ^ 32 - unat (p4_next_ip p))")
    (auto dest!: checked_add_SomeD simp: unat_less_exp [where 'a = 32, simplified] intro!: diff_less_mono2)

declare next_unreserved_ip.simps [simp del]

definition reserve_next_available ::
  "('n, 'k) ip_pool \<Rightarrow> (('n, 'k) ip_pool \<times> 32 word option) option" where
  "reserve_next_available p =
    (case next_unreserved_ip p of
       None \<Rightarrow> None
     | Some (p', None) \<Rightarrow> Some (p', None)
     | Some (p', Some ip) \<Rightarrow> Some (p'\<lparr>p4_reserved := insert ip (p4_reserved p')\<rparr>, Some ip))"

definition reserve_last_available :: "('n, 'k) ip_pool \<Rightarrow> ('n, 'k) ip_pool \<times> 32 word option" where
  "reserve_last_available p =
    (if p4_next_ip p > p4_max_ip p then (p, None)
     else
       case find (\<lambda>ip. ip \<noteq> p4_server_ip p \<and> ip \<notin> p4_reserved p \<and>
                \<not> list_ex (\<lambda>assigned. assigned = ip) (map snd (p4_in_use p)))
              (rev (map of_nat [unat (p4_next_ip p)..<Suc (unat (p4_max_ip p))])) of
         None \<Rightarrow> (p, None)
       | Some ip \<Rightarrow>
           (p\<lparr>p4_released := filter (\<lambda>r. r \<noteq> ip) (p4_released p),
              p4_reserved := insert ip (p4_reserved p)\<rparr>, Some ip))"

text \<open>\<open>while let Some(ip) = self.released.pop()\<close>, skipping reserved addresses.\<close>

function pop_released :: "'a set \<Rightarrow> 'a list \<Rightarrow> 'a list \<times> 'a option" where
  "pop_released reserved released =
    (if released = [] then ([], None)
     else if last released \<in> reserved then pop_released reserved (butlast released)
     else (butlast released, Some (last released)))"
  by pat_completeness auto

termination pop_released
  by (relation "measure (\<lambda>(reserved, released). length released)") auto

declare pop_released.simps [simp del]

definition ip_pool_allocate ::
  "('n, 'k) ip_pool \<Rightarrow> 'k \<Rightarrow> (('n, 'k) ip_pool \<times> 32 word option) option" where
  "ip_pool_allocate p key =
    (case map_of (p4_in_use p) key of
       Some ip \<Rightarrow> Some (p, Some ip)
     | None \<Rightarrow>
         (case pop_released (p4_reserved p) (p4_released p) of
            (rest, Some ip) \<Rightarrow>
              Some (p\<lparr>p4_released := rest, p4_in_use := AList.update key ip (p4_in_use p)\<rparr>, Some ip)
          | (rest, None) \<Rightarrow>
              (case next_unreserved_ip (p\<lparr>p4_released := rest\<rparr>) of
                 None \<Rightarrow> None
               | Some (p', None) \<Rightarrow> Some (p', None)
               | Some (p', Some ip) \<Rightarrow>
                   Some (p'\<lparr>p4_in_use := AList.update key ip (p4_in_use p')\<rparr>, Some ip))))"

definition ip_pool_release :: "('n, 'k) ip_pool \<Rightarrow> 'k \<Rightarrow> ('n, 'k) ip_pool" where
  "ip_pool_release p key =
    (case map_of (p4_in_use p) key of
       None \<Rightarrow> p
     | Some ip \<Rightarrow> p\<lparr>p4_in_use := AList.delete key (p4_in_use p), p4_released := p4_released p @ [ip]\<rparr>)"

section \<open>Lease tables\<close>

text \<open>The bookkeeping both pools share: leases by key, and addresses given back.\<close>

definition lease_table :: "('k \<times> 'a) list \<Rightarrow> 'a list \<Rightarrow> bool" where
  "lease_table al rl \<longleftrightarrow> distinct (map fst al) \<and> distinct (map snd al @ rl)"

abbreviation leased :: "('k \<times> 'a) list \<Rightarrow> 'a set" where
  "leased al \<equiv> set (map snd al)"

lemma update_absent: "map_of al k = None \<Longrightarrow> AList.update k a al = al @ [(k, a)]"
  by (induction al) (auto split: if_splits)

lemma leased_update: "map_of al k = None \<Longrightarrow> leased (AList.update k a al) = insert a (leased al)"
  by (simp add: update_absent)

lemma lease_table_inj:
  assumes "lease_table al rl" and "map_of al k = Some a" and "map_of al k' = Some a"
  shows "k = k'"
proof -
  have "(k, a) \<in> set al" "(k', a) \<in> set al" using assms(2,3) by (auto dest: map_of_SomeD)
  moreover have "inj_on snd (set al)" using assms(1) by (simp add: lease_table_def distinct_map)
  ultimately show ?thesis using inj_onD [of snd "set al" "(k, a)" "(k', a)"] by simp
qed

lemma lease_table_entry:
  assumes "lease_table al rl" and "map_of al k = Some a" and "(j, b) \<in> set al"
  shows "j = k \<longleftrightarrow> b = a"
proof -
  have "map_of al j = Some b" using assms(1,3) by (auto simp: lease_table_def intro: map_of_is_SomeI)
  then show ?thesis using lease_table_inj [OF assms(1,2), of j] assms(2) by auto
qed

lemma lease_table_grant:
  assumes "lease_table al rl" and "map_of al k = None" and "a \<notin> leased al" and "a \<notin> set rl'"
    and "distinct rl'" and "set rl' \<subseteq> set rl"
  shows "lease_table (AList.update k a al) rl'"
  using assms by (auto simp: lease_table_def update_absent map_of_eq_None_iff)

lemma leased_delete:
  assumes "lease_table al rl" and "map_of al k = Some a"
  shows "leased (AList.delete k al) = leased al - {a}"
proof -
  have "leased (AList.delete k al) = {b. \<exists>j. (j, b) \<in> set al \<and> j \<noteq> k}"
    by (auto simp: AList.delete_eq image_iff)
  moreover have "leased al = {b. \<exists>j. (j, b) \<in> set al}" by force
  ultimately show ?thesis using lease_table_entry [OF assms] by blast
qed

lemma lease_table_release:
  assumes "lease_table al rl" and "map_of al k = Some a"
  shows "lease_table (AList.delete k al) (rl @ [a])"
proof -
  have "a \<in> leased al" using map_of_SomeD [OF assms(2)] by force
  moreover have "distinct (map fst (AList.delete k al))" "distinct (map snd (AList.delete k al))"
    using assms(1) by (auto simp: lease_table_def AList.delete_eq distinct_map_filter)
  ultimately show ?thesis
    using assms(1) leased_delete [OF assms] by (auto simp: lease_table_def)
qed

lemma pop_released_spec:
  "pop_released reserved rl = (rest, r) \<Longrightarrow>
    set rest \<subseteq> set rl \<and> (distinct rl \<longrightarrow> distinct rest) \<and>
    (case r of None \<Rightarrow> rest = [] \<and> set rl \<subseteq> reserved
     | Some a \<Rightarrow> a \<in> set rl \<and> a \<notin> reserved \<and> (distinct rl \<longrightarrow> a \<notin> set rest) \<and>
         set rl \<subseteq> insert a (set rest) \<union> reserved)"
proof (induction reserved rl rule: pop_released.induct)
  case (1 reserved rl)
  show ?case
  proof (cases "rl = []")
    case False
    then have rl: "rl = butlast rl @ [last rl]" by simp
    have d: "distinct rl \<Longrightarrow> distinct (butlast rl) \<and> last rl \<notin> set (butlast rl)"
      by (subst (asm) rl) (simp only: distinct_append, auto)
    have s: "set rl = insert (last rl) (set (butlast rl))" by (subst rl) simp
    show ?thesis
    proof (cases "last rl \<in> reserved")
      case True
      then have "pop_released reserved (butlast rl) = (rest, r)"
        using 1(2) False by (subst (asm) pop_released.simps) simp
      from 1(1) [OF False True this] show ?thesis
        using d s True by (auto split: option.splits)
    next
      case False': False
      then have "rest = butlast rl" "r = Some (last rl)"
        using 1(2) False by (subst (asm) pop_released.simps, simp)+
      then show ?thesis using d s False' by auto
    qed
  qed (use 1(2) in \<open>simp add: pop_released.simps\<close>)
qed

section \<open>Allocation by cursor\<close>

text \<open>What both sequential pools maintain. Leased and given-back addresses are pairwise
  different, lie strictly between the server address and the allocation cursor and not above
  the last usable address, and are not reserved; every address the cursor has passed is
  leased, given back or reserved.\<close>

definition cursor_inv ::
  "('k \<times> 'a::linorder) list \<Rightarrow> 'a list \<Rightarrow> 'a set \<Rightarrow> 'a \<Rightarrow> 'a \<Rightarrow> 'a \<Rightarrow> bool" where
  "cursor_inv al rl reserved srv nxt mx \<longleftrightarrow>
    lease_table al rl \<and> srv < nxt \<and>
    (\<forall>a. a \<in> leased al \<or> a \<in> set rl \<longrightarrow> srv < a \<and> a < nxt \<and> a \<le> mx \<and> a \<notin> reserved) \<and>
    (\<forall>a. srv < a \<and> a < nxt \<and> a \<le> mx \<longrightarrow> a \<in> leased al \<or> a \<in> set rl \<or> a \<in> reserved)"

lemma cursor_invD:
  assumes "cursor_inv al rl reserved srv nxt mx"
  shows "lease_table al rl" "srv < nxt"
    "a \<in> leased al \<or> a \<in> set rl \<Longrightarrow> srv < a \<and> a < nxt \<and> a \<le> mx \<and> a \<notin> reserved"
    "srv < a \<Longrightarrow> a < nxt \<Longrightarrow> a \<le> mx \<Longrightarrow> a \<in> leased al \<or> a \<in> set rl \<or> a \<in> reserved"
  using assms unfolding cursor_inv_def by blast+

lemma cursor_inv_init: "srv < nxt \<Longrightarrow> (\<And>a. srv < a \<Longrightarrow> nxt \<le> a) \<Longrightarrow> cursor_inv [] [] {} srv nxt mx"
  by (auto simp: cursor_inv_def lease_table_def not_less [symmetric])

lemma cursor_inv_next:
  assumes "cursor_inv al rl reserved srv nxt mx" and "nxt \<le> n"
    and "\<And>a. nxt \<le> a \<Longrightarrow> a < n \<Longrightarrow> a \<in> reserved"
  shows "cursor_inv al rl reserved srv n mx"
  using cursor_invD [OF assms(1)] assms(2,3) unfolding cursor_inv_def
  by (meson less_le_trans linorder_not_less)

lemma cursor_inv_grant:
  assumes inv: "cursor_inv al rl reserved srv nxt mx" and key: "map_of al key = None" and n: "nxt \<le> n"
    and passed: "\<And>a. nxt \<le> a \<Longrightarrow> a < n \<Longrightarrow> a \<in> reserved \<or> a = ip"
    and ip: "nxt \<le> ip" "ip < n" "ip \<le> mx" "ip \<notin> reserved"
  shows "cursor_inv (AList.update key ip al) rl reserved srv n mx"
proof -
  note D = cursor_invD [OF inv]
  have new: "ip \<notin> leased al" "ip \<notin> set rl" using D(3) ip(1) by (meson linorder_not_less)+
  then have "lease_table (AList.update key ip al) rl"
    using D(1) by (intro lease_table_grant [OF D(1) key]) (auto simp: lease_table_def)
  then show ?thesis
    unfolding cursor_inv_def leased_update [OF key]
    using D(2-4) n passed ip by (metis insert_iff less_le_trans linorder_not_less)
qed

lemma cursor_inv_reuse:
  assumes inv: "cursor_inv al rl reserved srv nxt mx" and key: "map_of al key = None"
    and rest: "set rest \<subseteq> set rl" "distinct rest" "ip \<in> set rl" "ip \<notin> set rest"
      "set rl \<subseteq> insert ip (set rest) \<union> reserved"
  shows "cursor_inv (AList.update key ip al) rest reserved srv nxt mx"
proof -
  note D = cursor_invD [OF inv]
  have "ip \<notin> leased al" using D(1) rest(3) by (auto simp: lease_table_def)
  then have "lease_table (AList.update key ip al) rest"
    using rest by (intro lease_table_grant [OF D(1) key])
  then show ?thesis
    unfolding cursor_inv_def leased_update [OF key] using D(2-4) rest by blast
qed

lemma cursor_inv_release:
  assumes inv: "cursor_inv al rl reserved srv nxt mx" and key: "map_of al key = Some ip"
  shows "cursor_inv (AList.delete key al) (rl @ [ip]) reserved srv nxt mx"
proof -
  note D = cursor_invD [OF inv]
  have "ip \<in> leased al" using map_of_SomeD [OF key] by force
  then show ?thesis
    unfolding cursor_inv_def leased_delete [OF D(1) key]
    using D(2-4) lease_table_release [OF D(1) key] by auto
qed

section \<open>Invariant of the IPv4 pool\<close>

definition pool4_inv :: "('n, 'k) ip_pool \<Rightarrow> bool" where
  "pool4_inv p \<longleftrightarrow>
    cursor_inv (p4_in_use p) (p4_released p) (p4_reserved p) (p4_server_ip p) (p4_next_ip p) (p4_max_ip p) \<and>
    p4_max_ip p \<noteq> - 1"

definition pool4_usable :: "('n, 'k) ip_pool \<Rightarrow> 32 word set" where
  "pool4_usable p = {a. p4_server_ip p < a \<and> a \<le> p4_max_ip p} - p4_reserved p"

lemma le_max_checked_add:
  assumes "(n :: 'a::len word) \<le> m" and "m \<noteq> - 1"
  obtains n' where "checked_add n 1 = Some n'" "unat n' = unat n + 1"
proof -
  have "m < - 1" using assms(2) word_n1_ge [of m] by (simp add: order_less_le)
  then have "unat m < unat (- 1 :: 'a word)" by (simp add: word_less_nat_alt)
  then have "unat n + 1 < 2 ^ LENGTH('a)"
    using assms(1) by (simp add: word_le_nat_alt unsigned_minus_1_eq_mask mask_eq_exp_minus_1)
  then have c: "checked_add n 1 = Some (n + 1)" by (simp add: checked_add_def)
  moreover have "unat (n + 1) = unat n + 1" using checked_add_SomeD [OF c] by simp
  ultimately show thesis by (rule that)
qed

lemma next_unreserved_spec:
  assumes "p4_max_ip p \<noteq> - 1"
  shows "\<exists>n r. next_unreserved_ip p = Some (p\<lparr>p4_next_ip := n\<rparr>, r) \<and> p4_next_ip p \<le> n \<and>
    (\<forall>a. p4_next_ip p \<le> a \<and> a < n \<longrightarrow> a \<in> p4_reserved p \<or> r = Some a) \<and>
    (case r of None \<Rightarrow> p4_max_ip p < n
     | Some a \<Rightarrow> p4_next_ip p \<le> a \<and> a < n \<and> a \<le> p4_max_ip p \<and> a \<notin> p4_reserved p)"
  using assms
proof (induction p rule: next_unreserved_ip.induct)
  case (1 p)
  show ?case
  proof (cases "p4_next_ip p \<le> p4_max_ip p")
    case True
    then obtain n where n: "checked_add (p4_next_ip p) 1 = Some n" "unat n = unat (p4_next_ip p) + 1"
      using le_max_checked_add 1(2) by blast
    have before: "a < n \<longleftrightarrow> a \<le> p4_next_ip p" for a
      using n(2) by (auto simp: word_less_nat_alt word_le_nat_alt)
    show ?thesis
    proof (cases "p4_next_ip p \<in> p4_reserved p")
      case res: True
      have "next_unreserved_ip p = next_unreserved_ip (p\<lparr>p4_next_ip := n\<rparr>)"
        using True n res by (subst next_unreserved_ip.simps) (simp add: Let_def)
      moreover obtain n' r where ih:
        "next_unreserved_ip (p\<lparr>p4_next_ip := n\<rparr>) = Some (p\<lparr>p4_next_ip := n'\<rparr>, r)" "n \<le> n'"
        "\<forall>a. n \<le> a \<and> a < n' \<longrightarrow> a \<in> p4_reserved p \<or> r = Some a"
        "case r of None \<Rightarrow> p4_max_ip p < n'
         | Some a \<Rightarrow> n \<le> a \<and> a < n' \<and> a \<le> p4_max_ip p \<and> a \<notin> p4_reserved p"
        using 1(1) [OF True refl n(1) refl] 1(2) res by (auto cong: option.case_cong)
      moreover have lt: "p4_next_ip p \<le> n" using before [of "p4_next_ip p"] by simp
      moreover have "p4_next_ip p \<le> n'" using lt ih(2) by (rule order_trans)
      moreover have "case r of None \<Rightarrow> p4_max_ip p < n'
         | Some a \<Rightarrow> p4_next_ip p \<le> a \<and> a < n' \<and> a \<le> p4_max_ip p \<and> a \<notin> p4_reserved p"
        using ih(4) order_trans [OF lt] by (cases r) simp_all
      moreover have "\<forall>a. p4_next_ip p \<le> a \<and> a < n' \<longrightarrow> a \<in> p4_reserved p \<or> r = Some a"
      proof (intro allI impI, elim conjE)
        fix a
        assume that: "p4_next_ip p \<le> a" "a < n'"
        show "a \<in> p4_reserved p \<or> r = Some a"
        proof (cases "a = p4_next_ip p")
          case False
          then have "n \<le> a" using that(1) before [of a] by (simp add: not_less [symmetric])
          then show ?thesis using ih(3) that(2) by blast
        qed (simp add: res)
      qed
      ultimately show ?thesis by (intro exI [of _ n'] exI [of _ r] conjI) simp_all
    next
      case False
      then have "next_unreserved_ip p = Some (p\<lparr>p4_next_ip := n\<rparr>, Some (p4_next_ip p))"
        using True n by (subst next_unreserved_ip.simps) (simp add: Let_def)
      moreover have "p4_next_ip p < n" using before by simp
      moreover have "\<forall>a. p4_next_ip p \<le> a \<and> a < n \<longrightarrow> a \<in> p4_reserved p \<or> Some (p4_next_ip p) = Some a"
        unfolding before by (blast intro: order_antisym)
      ultimately show ?thesis using True False
        by (intro exI [of _ n] exI [of _ "Some (p4_next_ip p)"]) (simp add: less_imp_le)
    qed
  next
    case False
    then have "next_unreserved_ip p = Some (p\<lparr>p4_next_ip := p4_next_ip p\<rparr>, None)"
      by (subst next_unreserved_ip.simps) simp
    then show ?thesis using False by (intro exI [of _ "p4_next_ip p"]) auto
  qed
qed

section \<open>The IPv4 pool implements the interface\<close>

lemma pool4_released_emptied:
  assumes inv: "pool4_inv p" and pop: "pop_released (p4_reserved p) (p4_released p) = (rest, None)"
  shows "rest = []" "p4_released p = []"
proof -
  have sub: "set (p4_released p) \<subseteq> p4_reserved p" and "rest = []" using pop_released_spec [OF pop] by auto
  have "a \<notin> p4_reserved p" if "a \<in> set (p4_released p)" for a
    using cursor_invD(3) [OF inv [unfolded pool4_inv_def, THEN conjunct1], of a] that by simp
  with sub have "set (p4_released p) = {}" by (meson equals0I subsetD)
  then show "p4_released p = []" by simp
  show "rest = []" by fact
qed

text \<open>Every way an allocation can end.\<close>

lemma pool4_allocate_cases:
  assumes inv: "pool4_inv p"
  obtains (held) a where "map_of (p4_in_use p) key = Some a" "ip_pool_allocate p key = Some (p, Some a)"
  | (reused) rest a where "map_of (p4_in_use p) key = None"
      "pop_released (p4_reserved p) (p4_released p) = (rest, Some a)"
      "ip_pool_allocate p key =
        Some (p\<lparr>p4_released := rest, p4_in_use := AList.update key a (p4_in_use p)\<rparr>, Some a)"
  | (fresh) n a where "map_of (p4_in_use p) key = None" "p4_released p = []" "p4_next_ip p \<le> n"
      "\<forall>x. p4_next_ip p \<le> x \<and> x < n \<longrightarrow> x \<in> p4_reserved p \<or> a = x"
      "p4_next_ip p \<le> a" "a < n" "a \<le> p4_max_ip p" "a \<notin> p4_reserved p"
      "ip_pool_allocate p key =
        Some (p\<lparr>p4_next_ip := n, p4_in_use := AList.update key a (p4_in_use p)\<rparr>, Some a)"
  | (exhausted) n where "map_of (p4_in_use p) key = None" "p4_released p = []" "p4_next_ip p \<le> n"
      "\<forall>x. p4_next_ip p \<le> x \<and> x < n \<longrightarrow> x \<in> p4_reserved p" "p4_max_ip p < n"
      "ip_pool_allocate p key = Some (p\<lparr>p4_next_ip := n\<rparr>, None)"
proof (cases "map_of (p4_in_use p) key")
  case (Some a)
  then show thesis using held by (simp add: ip_pool_allocate_def)
next
  case None
  obtain rest r where pop: "pop_released (p4_reserved p) (p4_released p) = (rest, r)" by force
  show thesis
  proof (cases r)
    case (Some a)
    then show thesis using reused [OF None] pop None by (simp add: ip_pool_allocate_def)
  next
    case r: None
    have emp: "rest = []" "p4_released p = []" using pool4_released_emptied [OF inv] pop r by simp_all
    then have same: "p\<lparr>p4_released := rest\<rparr> = p" by (cases p) simp
    have "p4_max_ip p \<noteq> - 1" using inv by (simp add: pool4_inv_def)
    from next_unreserved_spec [OF this] obtain n s where
      nx: "next_unreserved_ip p = Some (p\<lparr>p4_next_ip := n\<rparr>, s)" "p4_next_ip p \<le> n"
      "\<forall>a. p4_next_ip p \<le> a \<and> a < n \<longrightarrow> a \<in> p4_reserved p \<or> s = Some a"
      "case s of None \<Rightarrow> p4_max_ip p < n
       | Some a \<Rightarrow> p4_next_ip p \<le> a \<and> a < n \<and> a \<le> p4_max_ip p \<and> a \<notin> p4_reserved p" by blast
    have "ip_pool_allocate p key = (case s of None \<Rightarrow> Some (p\<lparr>p4_next_ip := n\<rparr>, None)
      | Some a \<Rightarrow> Some (p\<lparr>p4_next_ip := n, p4_in_use := AList.update key a (p4_in_use p)\<rparr>, Some a))"
      by (simp add: ip_pool_allocate_def None pop r same nx(1) split: option.split)
    with None emp nx(2-4) exhausted [of n] fresh [of n] show thesis by (cases s) auto
  qed
qed

lemma pool4_allocate_inv:
  assumes "pool4_inv p" and "ip_pool_allocate p key = Some (p', r)"
  shows "pool4_inv p'"
proof -
  have inv: "cursor_inv (p4_in_use p) (p4_released p) (p4_reserved p) (p4_server_ip p) (p4_next_ip p) (p4_max_ip p)"
    and mx: "p4_max_ip p \<noteq> - 1" using assms(1) by (simp_all add: pool4_inv_def)
  show ?thesis using assms(1)
  proof (cases rule: pool4_allocate_cases [where key = key])
    case (reused rest a)
    have "cursor_inv (AList.update key a (p4_in_use p)) rest (p4_reserved p) (p4_server_ip p) (p4_next_ip p) (p4_max_ip p)"
      using pop_released_spec [OF reused(2)] cursor_invD(1) [OF inv]
      by (intro cursor_inv_reuse [OF inv reused(1)]) (auto simp: lease_table_def)
    then show ?thesis using reused(3) assms(2) mx by (auto simp: pool4_inv_def)
  next
    case (fresh n a)
    have "cursor_inv (AList.update key a (p4_in_use p)) (p4_released p) (p4_reserved p) (p4_server_ip p) n (p4_max_ip p)"
      using fresh by (intro cursor_inv_grant [OF inv]) auto
    then show ?thesis using fresh(9) assms(2) mx by (auto simp: pool4_inv_def)
  next
    case (exhausted n)
    have "cursor_inv (p4_in_use p) (p4_released p) (p4_reserved p) (p4_server_ip p) n (p4_max_ip p)"
      using exhausted by (intro cursor_inv_next [OF inv]) auto
    then show ?thesis using exhausted(6) assms(2) mx by (auto simp: pool4_inv_def)
  qed (use assms in auto)
qed

lemma pool4_release_inv:
  assumes "pool4_inv p" shows "pool4_inv (ip_pool_release p key)"
  using assms by (auto simp: pool4_inv_def ip_pool_release_def cursor_inv_release split: option.split)

text \<open>An allocation changes no lease but the one of its key, and is refused only when every
  usable address is leased.\<close>

lemma pool4_allocate_leases:
  assumes "pool4_inv p" and "ip_pool_allocate p key = Some (p', r)"
  shows "map_of (p4_in_use p') =
      (case r of None \<Rightarrow> map_of (p4_in_use p) | Some a \<Rightarrow> (map_of (p4_in_use p))(key \<mapsto> a))"
    and "pool4_usable p' = pool4_usable p"
    and "map_of (p4_in_use p) key = Some a \<Longrightarrow> r = Some a"
    and "r = None \<Longrightarrow> map_of (p4_in_use p) key = None"
  using assms(1)
  by (cases rule: pool4_allocate_cases [where key = key],
      use assms(2) in \<open>auto simp: pool4_usable_def update_conv' fun_upd_idem\<close>)+

lemma leased_ran: "lease_table al rl \<Longrightarrow> leased al = ran (map_of al)"
  by (simp add: lease_table_def ran_distinct)

lemma pool4_exhausted:
  assumes inv: "pool4_inv p" and r: "ip_pool_allocate p key = Some (p', None)"
  shows "pool4_usable p \<subseteq> ran (map_of (p4_in_use p))"
proof -
  note D = cursor_invD [OF inv [unfolded pool4_inv_def, THEN conjunct1]]
  show ?thesis using inv
  proof (cases rule: pool4_allocate_cases [where key = key])
    case (exhausted n)
    have "a \<in> leased (p4_in_use p)" if "a \<in> pool4_usable p" for a
      using that exhausted(2,4,5) D(4) [of a] le_less_trans [of a "p4_max_ip p" n] unfolding pool4_usable_def
      by (cases "a < p4_next_ip p") auto
    then show ?thesis using leased_ran [OF D(1)] by auto
  qed (use r in auto)
qed

lemma pool4_lease_usable:
  assumes "pool4_inv p" and "map_of (p4_in_use p) k = Some a"
  shows "a \<in> pool4_usable p"
proof -
  have "a \<in> leased (p4_in_use p)" using map_of_SomeD [OF assms(2)] by force
  then show ?thesis using assms(1) by (auto simp: pool4_inv_def pool4_usable_def cursor_inv_def)
qed

lemma map_of_release: "map_of (AList.delete k al) = (map_of al)(k := None)"
  by (rule ext) (simp add: delete_conv')

interpretation pool4: complete_pool ip_pool_allocate ip_pool_release
  "\<lambda>p. map_of (p4_in_use p)" pool4_usable pool4_inv
proof unfold_locales
  fix p p' k k' a r
  assume inv: "pool4_inv p"
  show "map_of (p4_in_use p) k = Some a \<Longrightarrow> map_of (p4_in_use p) k' = Some a \<Longrightarrow> k = k'"
    using inv by (auto simp: pool4_inv_def dest: cursor_invD(1) lease_table_inj)
  show "map_of (p4_in_use p) k = Some a \<Longrightarrow> a \<in> pool4_usable p" using pool4_lease_usable [OF inv] .
  show "\<exists>p' r. ip_pool_allocate p k = Some (p', r)"
    using inv by (cases rule: pool4_allocate_cases [where key = k]) auto
  show "pool4_inv (ip_pool_release p k)" by (rule pool4_release_inv [OF inv])
  show "map_of (p4_in_use (ip_pool_release p k)) = (map_of (p4_in_use p))(k := None)"
    by (auto simp: ip_pool_release_def map_of_release split: option.split)
  show "pool4_usable (ip_pool_release p k) = pool4_usable p"
    by (auto simp: ip_pool_release_def pool4_usable_def split: option.split)
  show "ip_pool_allocate p k = Some (p', None) \<Longrightarrow> pool4_usable p \<subseteq> ran (map_of (p4_in_use p))"
    using pool4_exhausted [OF inv] .
  assume al: "ip_pool_allocate p k = Some (p', r)"
  show "pool4_inv p'" by (rule pool4_allocate_inv [OF inv al])
  show "map_of (p4_in_use p') = (case r of None \<Rightarrow> map_of (p4_in_use p) | Some a \<Rightarrow> (map_of (p4_in_use p))(k \<mapsto> a))"
    "pool4_usable p' = pool4_usable p" "map_of (p4_in_use p) k = Some a \<Longrightarrow> r = Some a"
    using pool4_allocate_leases [OF inv al] by auto
qed

section \<open>A new IPv4 pool\<close>

text \<open>A network of at least four addresses with a server address below the broadcast
  address gives a pool whose usable addresses are the hosts after the server.\<close>

lemma ip_pool_new_ok:
  assumes lawful: "lawful_net (ops :: ('n, 32 word) net_ops)" and len: "prefix_len ops net \<le> 30"
    and srv: "case server_ip of None \<Rightarrow> True | Some ip \<Rightarrow> contains ops net ip \<and> ip \<noteq> broadcast ops net"
  obtains p :: "('n, 'k) ip_pool" where "ip_pool_new ops net server_ip = Some p" "pool4_inv p" "p4_network p = net"
    "p4_server_ip p = (case server_ip of None \<Rightarrow> network ops net + 1 | Some ip \<Rightarrow> ip)"
    "pool4_usable p = {a. p4_server_ip p < a \<and> a < broadcast ops net}"
    "contains ops net (p4_server_ip p)"
proof -
  define s where "s = (case server_ip of None \<Rightarrow> network ops net + 1 | Some ip \<Rightarrow> ip)"
  let ?N = "unat (network ops net)" and ?B = "unat (broadcast ops net)"
  have "(4::nat) \<le> 2 ^ (32 - prefix_len ops net)"
    using len power_increasing [of 2 "32 - prefix_len ops net" "2::nat"] by simp
  then have B: "?N + 3 \<le> ?B" using broadcast_unat [OF lawful, of net] by simp
  have B32: "?B < 2 ^ 32" using unat_less_exp [of "broadcast ops net"] by simp
  have N1: "checked_add (network ops net) 1 = Some (network ops net + 1)" "unat (network ops net + 1) = ?N + 1"
    using B B32 by (auto simp: checked_add_def unat_word_ariths)
  have s: "?N \<le> unat s" "unat s < ?B"
    using srv N1 B by (auto simp: s_def contains_iff_range [OF lawful] word_le_nat_alt word_unat_eq_iff
        split: option.splits)
  have s1: "checked_add s 1 = Some (s + 1)" "unat (s + 1) = unat s + 1"
    using s B32 by (auto simp: checked_add_def unat_word_ariths)
  have m1: "checked_sub (broadcast ops net) 1 = Some (broadcast ops net - 1)" "unat (broadcast ops net - 1) = ?B - 1"
    using B by (auto simp: checked_sub_def word_le_nat_alt unat_sub)
  define p :: "('n, 'k) ip_pool" where "p = \<lparr> p4_network = net, p4_server_ip = s, p4_next_ip = s + 1,
    p4_max_ip = broadcast ops net - 1, p4_in_use = [], p4_released = [], p4_reserved = {} \<rparr>"
  have "ip_pool_new ops net server_ip = Some p"
    using N1(1) s1(1) m1(1) by (auto simp: ip_pool_new_def p_def s_def Let_def split: option.splits)
  moreover have "cursor_inv [] [] {} s (s + 1) (broadcast ops net - 1)"
    by (rule cursor_inv_init) (auto simp: word_less_nat_alt word_le_nat_alt s1)
  moreover have "broadcast ops net - 1 \<noteq> - 1" using B by (auto simp: diff_eq_eq)
  moreover have "a \<le> broadcast ops net - 1 \<longleftrightarrow> a < broadcast ops net" for a
    using m1(2) B by (auto simp: word_less_nat_alt word_le_nat_alt)
  moreover have "contains ops net s" using s by (auto simp: contains_iff_range [OF lawful] word_le_nat_alt)
  ultimately show thesis using that [of p] by (simp add: p_def pool4_inv_def pool4_usable_def s_def)
qed

section \<open>Properties\<close>

text \<open>C14. Take a network of prefix length at most 30 and a configured server address (if any)
  inside it that is not its broadcast address. Building the pool does not overflow, and
  whatever sequence of allocations and releases follows runs without overflow; afterwards two
  different clients never hold the same address, and a leased address lies in the network and
  is none of the server, network and broadcast addresses.\<close>

theorem pool4_leases_safe:
  fixes hist :: "'k pool_op list"
  assumes "lawful_net (ops :: ('n, 32 word) net_ops)" and "prefix_len ops net \<le> 30"
    and "case server_ip of None \<Rightarrow> True | Some ip \<Rightarrow> contains ops net ip \<and> ip \<noteq> broadcast ops net"
  shows "\<exists>p p'. ip_pool_new ops net server_ip = Some p \<and>
    run_pool ip_pool_allocate ip_pool_release p hist = Some p' \<and>
    (\<forall>k k' a. map_of (p4_in_use p') k = Some a \<and> map_of (p4_in_use p') k' = Some a \<longrightarrow> k = k') \<and>
    (\<forall>k a. map_of (p4_in_use p') k = Some a \<longrightarrow> contains ops net a \<and>
       a \<notin> {p4_server_ip p, network ops net, broadcast ops net})"
proof -
  obtain p :: "('n, 'k) ip_pool" where p: "ip_pool_new ops net server_ip = Some p" "pool4_inv p"
    "pool4_usable p = {a. p4_server_ip p < a \<and> a < broadcast ops net}" "contains ops net (p4_server_ip p)"
    by (rule ip_pool_new_ok [OF assms]) (rule that)
  obtain p' where run: "run_pool ip_pool_allocate ip_pool_release p hist = Some p'"
    using pool4.run_total [OF p(2)] by blast
  show ?thesis
  proof (intro exI conjI allI impI)
    show "ip_pool_new ops net server_ip = Some p" by (rule p(1))
    show "run_pool ip_pool_allocate ip_pool_release p hist = Some p'" by (rule run)
    show "k = k'" if "map_of (p4_in_use p') k = Some a \<and> map_of (p4_in_use p') k' = Some a" for k k' a
      using that by (elim conjE) (rule pool4.run_exclusive [OF p(2) run])
    fix k a
    assume "map_of (p4_in_use p') k = Some a"
    then have "a \<in> pool4_usable p" by (rule pool4.run_usable [OF p(2) run])
    then have a: "p4_server_ip p < a" "a < broadcast ops net" unfolding p(3) by simp_all
    have "network ops net \<le> p4_server_ip p" using p(4) by (simp add: contains_iff_range [OF assms(1)])
    with a(1) have n: "network ops net < a" by (rule le_less_trans [rotated])
    then show "contains ops net a" using a(2) by (simp add: contains_iff_range [OF assms(1)] less_imp_le)
    show "a \<notin> {p4_server_ip p, network ops net, broadcast ops net}"
      using less_imp_neq [OF a(1)] less_imp_neq [OF a(2)] less_imp_neq [OF n] by simp
  qed
qed

theorem pool4_leases_safe_witness:
  "\<exists>p p'. ip_pool_new cidr_net (0x0A000000, 24) (Some 0x0A000001) = Some p \<and>
    run_pool ip_pool_allocate ip_pool_release p [Allocate (1::nat), Allocate 2, Release 1, Allocate 3] = Some p' \<and>
    (\<forall>k k' a. map_of (p4_in_use p') k = Some a \<and> map_of (p4_in_use p') k' = Some a \<longrightarrow> k = k') \<and>
    (\<forall>k a. map_of (p4_in_use p') k = Some a \<longrightarrow> contains cidr_net (0x0A000000, 24) a \<and>
       a \<notin> {p4_server_ip p, network cidr_net (0x0A000000, 24), broadcast cidr_net (0x0A000000, 24)})"
proof -
  have "prefix_len cidr_net (0x0A000000 :: 32 word, 24) \<le> 30" by (simp add: cidr_net_def)
  moreover have "case Some 0x0A000001 of None \<Rightarrow> True | Some ip \<Rightarrow>
      contains cidr_net (0x0A000000 :: 32 word, 24) ip \<and> ip \<noteq> broadcast cidr_net (0x0A000000 :: 32 word, 24)"
    by (simp add: cidr_net_def mask_eq_exp_minus_1)
  ultimately show ?thesis by (rule pool4_leases_safe [OF lawful_cidr_net])
qed

text \<open>C30. After any history of a well-built pool, a client is refused an address exactly
  when it holds none and every host address between the server and the broadcast address is
  leased to somebody; and a client that holds an address gets that address again.\<close>

theorem pool4_allocate_complete:
  fixes p0 :: "('n, 'k) ip_pool"
  assumes "lawful_net ops" and "prefix_len ops net \<le> 30"
    and "case server_ip of None \<Rightarrow> True | Some ip \<Rightarrow> contains ops net ip \<and> ip \<noteq> broadcast ops net"
    and "ip_pool_new ops net server_ip = Some p0"
    and "run_pool ip_pool_allocate ip_pool_release p0 hist = Some p"
  shows "\<exists>p' r. ip_pool_allocate p k = Some (p', r) \<and>
    (r = None \<longleftrightarrow> map_of (p4_in_use p) k = None \<and>
      {a. p4_server_ip p0 < a \<and> a < broadcast ops net} \<subseteq> ran (map_of (p4_in_use p))) \<and>
    (\<forall>a. map_of (p4_in_use p) k = Some a \<longrightarrow> r = Some a)"
proof -
  obtain q :: "('n, 'k) ip_pool" where "ip_pool_new ops net server_ip = Some q" "pool4_inv q"
    "pool4_usable q = {a. p4_server_ip q < a \<and> a < broadcast ops net}"
    by (rule ip_pool_new_ok [OF assms(1-3)]) (rule that)
  then have p0: "pool4_inv p0" "pool4_usable p0 = {a. p4_server_ip p0 < a \<and> a < broadcast ops net}"
    using assms(4) by simp_all
  then have p: "pool4_inv p" "pool4_usable p = {a. p4_server_ip p0 < a \<and> a < broadcast ops net}"
    using pool4.run_total [OF p0(1), of hist] assms(5) by auto
  obtain p' r where al: "ip_pool_allocate p k = Some (p', r)" using pool4.alloc_total [OF p(1)] by blast
  note L = pool4_allocate_leases [OF p(1) al]
  have "\<not> pool4_usable p \<subseteq> ran (map_of (p4_in_use p))" if "map_of (p4_in_use p) k = None" "r = Some a" for a
  proof
    assume "pool4_usable p \<subseteq> ran (map_of (p4_in_use p))"
    moreover have "a \<in> pool4_usable p" using pool4.alloc_grants(2) [OF p(1)] al that(2) by simp
    ultimately obtain j where j: "map_of (p4_in_use p) j = Some a" by (auto simp: ran_def)
    then have "map_of (p4_in_use p') j = Some a" "map_of (p4_in_use p') k = Some a"
      using L(1) that by auto
    then have "j = k" by (rule pool4.lease_inj [OF pool4.alloc_invar [OF p(1) al]])
    then show False using j that(1) by simp
  qed
  then show ?thesis
    using al L(3,4) pool4.exhausted [OF p(1), of k p'] p(2) by (cases r) auto
qed

theorem pool4_allocate_complete_witness:
  "\<exists>p' r. ip_pool_allocate
      \<lparr> p4_network = (0x0A000000 :: 32 word, 30 :: nat), p4_server_ip = 0x0A000001, p4_next_ip = 0x0A000003,
         p4_max_ip = 0x0A000002, p4_in_use = [(7::nat, 0x0A000002)], p4_released = [], p4_reserved = {} \<rparr> 8 =
      Some (p', r) \<and> r = None"
proof -
  define p0 :: "(32 word \<times> nat, nat) ip_pool" where
    "p0 = \<lparr> p4_network = (0x0A000000, 30), p4_server_ip = 0x0A000001, p4_next_ip = 0x0A000002,
    p4_max_ip = 0x0A000002, p4_in_use = [], p4_released = [], p4_reserved = {} \<rparr>"
  define p :: "(32 word \<times> nat, nat) ip_pool" where
    "p = \<lparr> p4_network = (0x0A000000, 30), p4_server_ip = 0x0A000001, p4_next_ip = 0x0A000003,
    p4_max_ip = 0x0A000002, p4_in_use = [(7, 0x0A000002)], p4_released = [], p4_reserved = {} \<rparr>"
  have net: "network cidr_net (0x0A000000 :: 32 word, 30) = 0x0A000000"
    "broadcast cidr_net (0x0A000000 :: 32 word, 30) = 0x0A000003"
    "prefix_len cidr_net (0x0A000000 :: 32 word, 30) \<le> 30"
    by (simp_all add: cidr_net_def mask_eq_exp_minus_1)
  have new: "ip_pool_new cidr_net (0x0A000000, 30) None = Some p0"
    by (simp add: ip_pool_new_def net Let_def checked_add_def checked_sub_def p0_def)
  have "next_unreserved_ip p0 = Some (p0\<lparr>p4_next_ip := 0x0A000003\<rparr>, Some 0x0A000002)"
    by (subst next_unreserved_ip.simps) (simp add: p0_def checked_add_def)
  then have run: "run_pool ip_pool_allocate ip_pool_release p0 [Allocate 7] = Some p"
    by (simp add: ip_pool_allocate_def pop_released.simps p0_def p_def)
  have "{a. 0x0A000001 < a \<and> a < (0x0A000003 :: 32 word)} \<subseteq> {0x0A000002}"
    by (auto simp: word_less_nat_alt word_unat_eq_iff)
  then have "\<exists>p' r. ip_pool_allocate p 8 = Some (p', r) \<and> r = None"
    using pool4_allocate_complete [OF lawful_cidr_net net(3) _ new run, of 8]
    apply (simp add: net(2))
    apply (simp add: p0_def p_def)
    done
  then show ?thesis by (simp only: p_def)
qed

end
