(* ===== verification/Ip_Pool6.thy ===== *)
theory Ip_Pool6
  imports Ip_Pool
begin

unbundle bit_operations_syntax

text \<open>
  The IPv6 pool of \<open>tunnel/server.rs\<close>: sequential allocation, or addresses derived from the
  client's node id.  A lease is keyed by endpoint id and device id.  SHA-256 and the byte
  representation of an endpoint id come from outside the repository and are the fields of
  the record \<open>node_id_lib\<close>.
\<close>

record 'e node_id_lib =
  sha256 :: "bytes \<Rightarrow> bytes"
  as_bytes :: "'e \<Rightarrow> bytes"

definition derive_ip6_suffix :: "'e node_id_lib \<Rightarrow> 'e \<Rightarrow> 64 word" where
  "derive_ip6_suffix nl node_id =
    from_be_bytes (take 8 (sha256 nl (map of_char ''ezvpn ipv6 addr v1'' @ as_bytes nl node_id)))"

definition derived_ip6 ::
  "('n, 128 word) net_ops \<Rightarrow> 'e node_id_lib \<Rightarrow> 'n \<Rightarrow> 'e \<Rightarrow> 128 word" where
  "derived_ip6 ops nl net node_id =
    (let host_bits = 128 - prefix_len ops net;
         m = (if host_bits \<ge> 128 then - 1 else push_bit host_bits 1 - 1) in
     network ops net OR (ucast (derive_ip6_suffix nl node_id) AND m))"

text \<open>\<open>None\<close> is the panic of \<open>expect\<close>.\<close>

definition host_net4 :: "('n, 32 word) net_ops \<Rightarrow> 32 word \<Rightarrow> 'n option" where
  "host_net4 ops ip = new_net ops ip 32"

definition host_net6 :: "('n, 128 word) net_ops \<Rightarrow> 128 word \<Rightarrow> 'n option" where
  "host_net6 ops ip = new_net ops ip 128"

datatype ip6_alloc =
    SequentialAlloc "128 word" "128 word" "128 word list"
  | NodeIdAlloc

record ('n, 'e) ip6_pool =
  p6_network :: 'n
  p6_server_ip :: "128 word"
  p6_alloc :: ip6_alloc
  p6_in_use :: "(('e \<times> 64 word) \<times> 128 word) list"

text \<open>A left shift by the width of the type or more is an overflow as well.\<close>

definition checked_shl :: "'a::len word \<Rightarrow> nat \<Rightarrow> 'a word option" where
  "checked_shl a n = (if n < LENGTH('a) then Some (push_bit n a) else None)"

definition ip6_pool_max :: "128 word \<Rightarrow> nat \<Rightarrow> 128 word option" where
  "ip6_pool_max net_addr host_bits =
    Option.bind (checked_shl 1 host_bits) (\<lambda>size.
    Option.bind (checked_sub size 1) (\<lambda>hosts.
    Option.bind (checked_add net_addr hosts) (\<lambda>lst. checked_sub lst 1)))"

definition ip6_pool_new ::
  "('n4, 'n) ipnet \<Rightarrow> 'e node_id_lib \<Rightarrow> 'n \<Rightarrow> 128 word option \<Rightarrow> ip6_strategy \<Rightarrow> 'e \<Rightarrow>
     (config_error + ('n, 'e) ip6_pool) option" where
  "ip6_pool_new lib nl net server_ip strategy server_id =
    (let prefix = prefix_len (ops6 lib) net in
     if prefix \<ge> 127 then Some (Inl (PrefixTooSmallForPool prefix))
     else
       case validate_ip6_strategy lib strategy (Some net) server_ip of
         Inl e \<Rightarrow> Some (Inl e)
       | Inr _ \<Rightarrow>
           let net_addr = network (ops6 lib) net in
           case strategy of
             Sequential \<Rightarrow>
               (case (case server_ip of Some ip \<Rightarrow> Some ip | None \<Rightarrow> checked_add net_addr 1) of
                  None \<Rightarrow> None
                | Some srv \<Rightarrow>
                    (case (checked_add srv 1, ip6_pool_max net_addr (128 - prefix)) of
                       (Some nxt, Some mx) \<Rightarrow> Some (Inr \<lparr> p6_network = net, p6_server_ip = srv,
                         p6_alloc = SequentialAlloc nxt mx [], p6_in_use = [] \<rparr>)
                     | _ \<Rightarrow> None))
           | NodeId \<Rightarrow>
               let srv = derived_ip6 (ops6 lib) nl net server_id in
               if srv = net_addr then Some (Inl DerivedServerIpIsNetwork)
               else Some (Inr \<lparr> p6_network = net, p6_server_ip = srv, p6_alloc = NodeIdAlloc, p6_in_use = [] \<rparr>))"

definition ip6_pool_allocate ::
  "('n, 128 word) net_ops \<Rightarrow> 'e node_id_lib \<Rightarrow> ('n, 'e) ip6_pool \<Rightarrow> 'e \<times> 64 word \<Rightarrow>
     (('n, 'e) ip6_pool \<times> 128 word option) option" where
  "ip6_pool_allocate ops nl p key =
    (case map_of (p6_in_use p) key of
       Some ip \<Rightarrow> Some (p, Some ip)
     | None \<Rightarrow>
         (case p6_alloc p of
            SequentialAlloc next_ip max_ip released \<Rightarrow>
              if released \<noteq> [] then
                (let ip = last released in
                 Some (p\<lparr>p6_alloc := SequentialAlloc next_ip max_ip (butlast released),
                         p6_in_use := AList.update key ip (p6_in_use p)\<rparr>, Some ip))
              else if next_ip \<le> max_ip then
                (case checked_add next_ip 1 of
                   None \<Rightarrow> None
                 | Some n \<Rightarrow>
                     Some (p\<lparr>p6_alloc := SequentialAlloc n max_ip released,
                             p6_in_use := AList.update key next_ip (p6_in_use p)\<rparr>, Some next_ip))
              else Some (p, None)
          | NodeIdAlloc \<Rightarrow>
              (let ip = derived_ip6 ops nl (p6_network p) (fst key) in
               if ip = network ops (p6_network p) \<or> ip = p6_server_ip p \<or>
                  list_ex (\<lambda>used. used = ip) (map snd (p6_in_use p))
               then Some (p, None)
               else Some (p\<lparr>p6_in_use := AList.update key ip (p6_in_use p)\<rparr>, Some ip))))"

definition ip6_pool_release :: "('n, 'e) ip6_pool \<Rightarrow> 'e \<times> 64 word \<Rightarrow> ('n, 'e) ip6_pool" where
  "ip6_pool_release p key =
    (case map_of (p6_in_use p) key of
       None \<Rightarrow> p
     | Some ip \<Rightarrow>
         (case p6_alloc p of
            SequentialAlloc next_ip max_ip released \<Rightarrow>
              p\<lparr>p6_alloc := SequentialAlloc next_ip max_ip (released @ [ip]),
                p6_in_use := AList.delete key (p6_in_use p)\<rparr>
          | NodeIdAlloc \<Rightarrow> p\<lparr>p6_in_use := AList.delete key (p6_in_use p)\<rparr>))"

section \<open>Derived addresses\<close>

lemma host_bits_mask:
  "(if h \<ge> 128 then - 1 else push_bit h 1 - 1 :: 128 word) = mask h"
proof (cases "h \<ge> 128")
  case True
  then have "(mask h :: 128 word) = - 1" by (intro bit_word_eqI) (simp add: bit_simps)
  with True show ?thesis by simp
qed (simp add: mask_eq_exp_minus_1 push_bit_eq_mult)

lemma and_not_disjoint: "(a :: 'a::len word) AND m = 0 \<Longrightarrow> a AND NOT m = a"
proof -
  assume "a AND m = 0"
  moreover have "a = (a AND m) OR (a AND NOT m)" by (rule bit_word_eqI) (auto simp: bit_simps)
  ultimately show ?thesis by simp
qed

lemma derived_ip6_in_network:
  assumes "lawful_net ops"
  shows "contains ops net (derived_ip6 ops nl net node_id)"
proof -
  let ?m = "mask (128 - prefix_len ops net) :: 128 word"
  have "network ops net AND ?m = 0"
    using lawful_netD(2) [OF assms, of net] unfolding host_mask_def by simp
  then have "network ops net AND NOT ?m = network ops net" by (rule and_not_disjoint)
  moreover have "(x AND ?m) AND NOT ?m = 0" for x by (rule bit_word_eqI) (simp add: bit_simps)
  ultimately have "(network ops net OR (x AND ?m)) AND NOT ?m = network ops net" for x
    by (simp only: bit.conj_disj_distrib2 or.right_neutral)
  then show ?thesis
    unfolding lawful_netD(4) [OF assms] host_mask_def derived_ip6_def Let_def host_bits_mask by simp
qed

section \<open>Invariant\<close>

definition pool6_inv :: "('n, 128 word) net_ops \<Rightarrow> 'e node_id_lib \<Rightarrow> ('n, 'e) ip6_pool \<Rightarrow> bool" where
  "pool6_inv ops nl p \<longleftrightarrow>
    (case p6_alloc p of
       SequentialAlloc nxt mx rl \<Rightarrow> cursor_inv (p6_in_use p) rl {} (p6_server_ip p) nxt mx \<and> mx \<noteq> - 1
     | NodeIdAlloc \<Rightarrow> lease_table (p6_in_use p) [] \<and>
         (\<forall>k a. (k, a) \<in> set (p6_in_use p) \<longrightarrow> a = derived_ip6 ops nl (p6_network p) (fst k) \<and>
            a \<noteq> network ops (p6_network p) \<and> a \<noteq> p6_server_ip p))"

definition pool6_usable :: "('n, 128 word) net_ops \<Rightarrow> 'e node_id_lib \<Rightarrow> ('n, 'e) ip6_pool \<Rightarrow> 128 word set" where
  "pool6_usable ops nl p =
    (case p6_alloc p of
       SequentialAlloc nxt mx rl \<Rightarrow> {a. p6_server_ip p < a \<and> a \<le> mx}
     | NodeIdAlloc \<Rightarrow> range (derived_ip6 ops nl (p6_network p)) - {network ops (p6_network p), p6_server_ip p})"

definition sequential_pool :: "('n, 'e) ip6_pool \<Rightarrow> bool" where
  "sequential_pool p \<longleftrightarrow> p6_alloc p \<noteq> NodeIdAlloc"

text \<open>Every way an allocation can end.\<close>

lemma pool6_allocate_cases:
  assumes inv: "pool6_inv ops nl p"
  obtains (held) a where "map_of (p6_in_use p) key = Some a" "ip6_pool_allocate ops nl p key = Some (p, Some a)"
  | (reused) nxt mx rl where "map_of (p6_in_use p) key = None" "p6_alloc p = SequentialAlloc nxt mx rl" "rl \<noteq> []"
      "ip6_pool_allocate ops nl p key = Some (p\<lparr>p6_alloc := SequentialAlloc nxt mx (butlast rl),
        p6_in_use := AList.update key (last rl) (p6_in_use p)\<rparr>, Some (last rl))"
  | (fresh) nxt mx n where "map_of (p6_in_use p) key = None" "p6_alloc p = SequentialAlloc nxt mx []"
      "nxt \<le> mx" "unat n = unat nxt + 1"
      "ip6_pool_allocate ops nl p key = Some (p\<lparr>p6_alloc := SequentialAlloc n mx [],
        p6_in_use := AList.update key nxt (p6_in_use p)\<rparr>, Some nxt)"
  | (exhausted) nxt mx where "map_of (p6_in_use p) key = None" "p6_alloc p = SequentialAlloc nxt mx []"
      "mx < nxt" "ip6_pool_allocate ops nl p key = Some (p, None)"
  | (derived) a where "map_of (p6_in_use p) key = None" "p6_alloc p = NodeIdAlloc"
      "a = derived_ip6 ops nl (p6_network p) (fst key)" "a \<noteq> network ops (p6_network p)"
      "a \<noteq> p6_server_ip p" "a \<notin> leased (p6_in_use p)"
      "ip6_pool_allocate ops nl p key = Some (p\<lparr>p6_in_use := AList.update key a (p6_in_use p)\<rparr>, Some a)"
  | (refused) "map_of (p6_in_use p) key = None" "p6_alloc p = NodeIdAlloc"
      "ip6_pool_allocate ops nl p key = Some (p, None)"
proof (cases "map_of (p6_in_use p) key")
  case (Some a)
  then show thesis using held by (simp add: ip6_pool_allocate_def)
next
  case None
  show thesis
  proof (cases "p6_alloc p")
    case seq: (SequentialAlloc nxt mx rl)
    show thesis
    proof (cases "rl = [] \<and> nxt \<le> mx")
      case True
      have "mx \<noteq> - 1" using inv seq by (simp add: pool6_inv_def)
      then obtain n where "checked_add nxt 1 = Some n" "unat n = unat nxt + 1"
        using le_max_checked_add True by blast
      then show thesis using True None seq fresh [OF None] by (simp add: ip6_pool_allocate_def)
    next
      case False
      show thesis
      proof (cases "rl = []")
        case rl: True
        with False have "\<not> nxt \<le> mx" by simp
        then show thesis
          using None seq rl exhausted [OF None] by (simp add: ip6_pool_allocate_def)
      next
        case rl: False
        then show thesis using None seq reused [OF None seq] by (simp add: ip6_pool_allocate_def Let_def)
      qed
    qed
  next
    case nid: NodeIdAlloc
    define a where "a = derived_ip6 ops nl (p6_network p) (fst key)"
    have *: "list_ex (\<lambda>used. used = a) (map snd (p6_in_use p)) \<longleftrightarrow> a \<in> leased (p6_in_use p)"
      by (auto simp: list_ex_iff)
    show thesis
    proof (cases "a = network ops (p6_network p) \<or> a = p6_server_ip p \<or> a \<in> leased (p6_in_use p)")
      case True
      then have "ip6_pool_allocate ops nl p key = Some (p, None)"
        by (simp only: ip6_pool_allocate_def None nid option.case ip6_alloc.case Let_def a_def [symmetric] * if_True)
      then show thesis using refused [OF None nid] by blast
    next
      case False
      then have "ip6_pool_allocate ops nl p key =
          Some (p\<lparr>p6_in_use := AList.update key a (p6_in_use p)\<rparr>, Some a)"
        by (simp only: ip6_pool_allocate_def None nid option.case ip6_alloc.case Let_def a_def [symmetric] * if_False)
      then show thesis using False by (intro derived [OF None nid a_def]) blast+
    qed
  qed
qed

section \<open>The IPv6 pool implements the interface\<close>

lemma distinct_butlast_last:
  assumes "distinct rl" and "rl \<noteq> []"
  shows "distinct (butlast rl)" "last rl \<notin> set (butlast rl)" "set rl = insert (last rl) (set (butlast rl))"
proof -
  have rl: "butlast rl @ [last rl] = rl" using assms(2) by simp
  have "distinct (butlast rl @ [last rl])" using assms(1) by (simp only: rl)
  then show "distinct (butlast rl)" "last rl \<notin> set (butlast rl)" by simp_all
  have "set (butlast rl @ [last rl]) = insert (last rl) (set (butlast rl))" by simp
  then show "set rl = insert (last rl) (set (butlast rl))" by (simp only: rl)
qed

lemma pool6_allocate_inv:
  assumes "pool6_inv ops nl p" and "ip6_pool_allocate ops nl p key = Some (p', r)"
  shows "pool6_inv ops nl p'"
  using assms(1)
proof (cases rule: pool6_allocate_cases [where key = key])
  case (reused nxt mx rl)
  have inv: "cursor_inv (p6_in_use p) rl {} (p6_server_ip p) nxt mx" "mx \<noteq> - 1"
    using assms(1) reused(2) by (simp_all add: pool6_inv_def)
  have "distinct rl" using cursor_invD(1) [OF inv(1)] by (simp add: lease_table_def)
  note d = distinct_butlast_last [OF this reused(3)]
  have "cursor_inv (AList.update key (last rl) (p6_in_use p)) (butlast rl) {} (p6_server_ip p) nxt mx"
    using d reused(3) by (intro cursor_inv_reuse [OF inv(1) reused(1)]) auto
  then show ?thesis using reused(4) assms(2) inv(2) by (auto simp: pool6_inv_def)
next
  case (fresh nxt mx n)
  have inv: "cursor_inv (p6_in_use p) [] {} (p6_server_ip p) nxt mx" "mx \<noteq> - 1"
    using assms(1) fresh(2) by (simp_all add: pool6_inv_def)
  have lt: "a < n \<longleftrightarrow> a \<le> nxt" for a using fresh(4) by (auto simp: word_less_nat_alt word_le_nat_alt)
  have "cursor_inv (AList.update key nxt (p6_in_use p)) [] {} (p6_server_ip p) n mx"
  proof (rule cursor_inv_grant [OF inv(1) fresh(1)])
    show "nxt \<le> n" "nxt < n" using fresh(4) by (simp_all add: word_less_nat_alt word_le_nat_alt)
    show "a \<in> {} \<or> a = nxt" if "nxt \<le> a" "a < n" for a using that lt by (simp add: order_antisym)
  qed (simp_all add: fresh(3))
  then show ?thesis using fresh(5) assms(2) inv(2) by (auto simp: pool6_inv_def)
next
  case (derived a)
  have inv: "lease_table (p6_in_use p) []" using assms(1) derived(2) by (simp add: pool6_inv_def)
  have "lease_table (AList.update key a (p6_in_use p)) []"
    using derived(6) by (intro lease_table_grant [OF inv derived(1)]) simp_all
  moreover have "p' = p\<lparr>p6_in_use := AList.update key a (p6_in_use p)\<rparr>" using derived(7) assms(2) by simp
  ultimately show ?thesis
    using assms(1) derived(2-5) by (auto simp: pool6_inv_def update_absent [OF derived(1)])
qed (use assms in simp_all)

lemma pool6_release_inv:
  assumes "pool6_inv ops nl p" shows "pool6_inv ops nl (ip6_pool_release p key)"
proof (cases "map_of (p6_in_use p) key")
  case (Some ip)
  show ?thesis
  proof (cases "p6_alloc p")
    case (SequentialAlloc nxt mx rl)
    then show ?thesis
      using assms cursor_inv_release [OF _ Some] by (simp add: pool6_inv_def ip6_pool_release_def Some)
  next
    case NodeIdAlloc
    have "lease_table (AList.delete key (p6_in_use p)) []"
      using assms NodeIdAlloc by (auto simp: pool6_inv_def lease_table_def AList.delete_eq distinct_map_filter)
    then show ?thesis
      using assms NodeIdAlloc by (auto simp: pool6_inv_def ip6_pool_release_def Some AList.delete_eq)
  qed
qed (use assms in \<open>simp add: ip6_pool_release_def\<close>)

lemma pool6_allocate_leases:
  assumes "pool6_inv ops nl p" and "ip6_pool_allocate ops nl p key = Some (p', r)"
  shows "map_of (p6_in_use p') =
      (case r of None \<Rightarrow> map_of (p6_in_use p) | Some a \<Rightarrow> (map_of (p6_in_use p))(key \<mapsto> a))"
    and "pool6_usable ops nl p' = pool6_usable ops nl p"
    and "map_of (p6_in_use p) key = Some a \<Longrightarrow> r = Some a"
    and "sequential_pool p' \<longleftrightarrow> sequential_pool p"
  using assms(1)
  by (cases rule: pool6_allocate_cases [where key = key],
      use assms(2) in \<open>auto simp: pool6_usable_def update_conv' fun_upd_idem sequential_pool_def\<close>)+

lemma pool6_lease_table:
  "pool6_inv ops nl p \<Longrightarrow> \<exists>rl. lease_table (p6_in_use p) rl"
  by (auto simp: pool6_inv_def split: ip6_alloc.splits dest: cursor_invD(1))

lemma pool6_node_id_lease:
  assumes "pool6_inv ops nl p" and "p6_alloc p = NodeIdAlloc" and "map_of (p6_in_use p) k = Some a"
  shows "a = derived_ip6 ops nl (p6_network p) (fst k)" "a \<noteq> network ops (p6_network p)" "a \<noteq> p6_server_ip p"
  using assms(1,2) map_of_SomeD [OF assms(3)] unfolding pool6_inv_def by (cases k; simp; fail)+

lemma pool6_lease_usable:
  assumes "pool6_inv ops nl p" and "map_of (p6_in_use p) k = Some a"
  shows "a \<in> pool6_usable ops nl p"
proof (cases "p6_alloc p")
  case (SequentialAlloc nxt mx rl)
  then have inv: "cursor_inv (p6_in_use p) rl {} (p6_server_ip p) nxt mx"
    using assms(1) by (simp add: pool6_inv_def)
  have "a \<in> leased (p6_in_use p)" using map_of_SomeD [OF assms(2)] by force
  then show ?thesis using cursor_invD(3) [OF inv, of a] SequentialAlloc by (simp add: pool6_usable_def)
next
  case NodeIdAlloc
  from pool6_node_id_lease [OF assms(1) this assms(2)] show ?thesis
    using NodeIdAlloc by (simp add: pool6_usable_def)
qed

lemma pool6_release_frame:
  "map_of (p6_in_use (ip6_pool_release p k)) = (map_of (p6_in_use p))(k := None)"
  "pool6_usable ops nl (ip6_pool_release p k) = pool6_usable ops nl p"
  "sequential_pool (ip6_pool_release p k) \<longleftrightarrow> sequential_pool p"
  by (auto simp: ip6_pool_release_def pool6_usable_def sequential_pool_def map_of_release
      split: option.split ip6_alloc.split)

lemma pool6_exhausted:
  assumes inv: "pool6_inv ops nl p" and seq: "sequential_pool p"
    and r: "ip6_pool_allocate ops nl p key = Some (p', None)"
  shows "pool6_usable ops nl p \<subseteq> ran (map_of (p6_in_use p))"
  using inv
proof (cases rule: pool6_allocate_cases [where key = key])
  case (exhausted nxt mx)
  then have "cursor_inv (p6_in_use p) [] {} (p6_server_ip p) nxt mx" using inv by (simp add: pool6_inv_def)
  note D = cursor_invD [OF this]
  have "a \<in> leased (p6_in_use p)" if "a \<in> pool6_usable ops nl p" for a
    using that exhausted(2) D(4) [of a] le_less_trans [OF _ exhausted(3), of a] by (simp add: pool6_usable_def)
  then show ?thesis using leased_ran [OF D(1)] by auto
qed (use r seq in \<open>simp_all add: sequential_pool_def\<close>)

interpretation pool6: address_pool "ip6_pool_allocate ops nl" ip6_pool_release
  "\<lambda>p. map_of (p6_in_use p)" "pool6_usable ops nl" "pool6_inv ops nl"
  for ops nl
proof unfold_locales
  fix p p' k k' a r
  assume inv: "pool6_inv ops nl p"
  obtain rl where lt: "lease_table (p6_in_use p) rl" using pool6_lease_table [OF inv] by blast
  show "map_of (p6_in_use p) k = Some a \<Longrightarrow> map_of (p6_in_use p) k' = Some a \<Longrightarrow> k = k'"
    by (rule lease_table_inj [OF lt])
  show "map_of (p6_in_use p) k = Some a \<Longrightarrow> a \<in> pool6_usable ops nl p" using pool6_lease_usable [OF inv] .
  show "\<exists>p' r. ip6_pool_allocate ops nl p k = Some (p', r)"
    using inv by (cases rule: pool6_allocate_cases [where key = k]) simp_all
  show "pool6_inv ops nl (ip6_pool_release p k)" by (rule pool6_release_inv [OF inv])
  show "map_of (p6_in_use (ip6_pool_release p k)) = (map_of (p6_in_use p))(k := None)"
    "pool6_usable ops nl (ip6_pool_release p k) = pool6_usable ops nl p"
    by (rule pool6_release_frame)+
  assume al: "ip6_pool_allocate ops nl p k = Some (p', r)"
  show "pool6_inv ops nl p'" by (rule pool6_allocate_inv [OF inv al])
  show "map_of (p6_in_use p') = (case r of None \<Rightarrow> map_of (p6_in_use p) | Some a \<Rightarrow> (map_of (p6_in_use p))(k \<mapsto> a))"
    "pool6_usable ops nl p' = pool6_usable ops nl p" "map_of (p6_in_use p) k = Some a \<Longrightarrow> r = Some a"
    using pool6_allocate_leases [OF inv al] by blast+
qed

text \<open>With sequential allocation the pool is complete as well.\<close>

interpretation seq6: complete_pool "ip6_pool_allocate ops nl" ip6_pool_release
  "\<lambda>p. map_of (p6_in_use p)" "pool6_usable ops nl" "\<lambda>p. pool6_inv ops nl p \<and> sequential_pool p"
  for ops nl
proof unfold_locales
  fix p p' k k' a r
  assume i: "pool6_inv ops nl p \<and> sequential_pool p"
  then have inv: "pool6_inv ops nl p" and seq: "sequential_pool p" by simp_all
  show "map_of (p6_in_use p) k = Some a \<Longrightarrow> map_of (p6_in_use p) k' = Some a \<Longrightarrow> k = k'"
    by (rule pool6.lease_inj [OF inv])
  show "map_of (p6_in_use p) k = Some a \<Longrightarrow> a \<in> pool6_usable ops nl p" by (rule pool6.lease_usable [OF inv])
  show "\<exists>p' r. ip6_pool_allocate ops nl p k = Some (p', r)" by (rule pool6.alloc_total [OF inv])
  show "pool6_inv ops nl (ip6_pool_release p k) \<and> sequential_pool (ip6_pool_release p k)"
    using pool6.rel_invar [OF inv] seq by (simp add: pool6_release_frame)
  show "map_of (p6_in_use (ip6_pool_release p k)) = (map_of (p6_in_use p))(k := None)"
    "pool6_usable ops nl (ip6_pool_release p k) = pool6_usable ops nl p"
    by (rule pool6_release_frame)+
  show "ip6_pool_allocate ops nl p k = Some (p', None) \<Longrightarrow> pool6_usable ops nl p \<subseteq> ran (map_of (p6_in_use p))"
    by (rule pool6_exhausted [OF inv seq])
  assume al: "ip6_pool_allocate ops nl p k = Some (p', r)"
  show "pool6_inv ops nl p' \<and> sequential_pool p'"
    using pool6.alloc_invar [OF inv al] pool6_allocate_leases(4) [OF inv al] seq by simp
  show "map_of (p6_in_use p') = (case r of None \<Rightarrow> map_of (p6_in_use p) | Some a \<Rightarrow> (map_of (p6_in_use p))(k \<mapsto> a))"
    "pool6_usable ops nl p' = pool6_usable ops nl p" "map_of (p6_in_use p) k = Some a \<Longrightarrow> r = Some a"
    using pool6_allocate_leases [OF inv al] by blast+
qed

section \<open>A new IPv6 pool\<close>

lemma unat_exp: "h < LENGTH('a) \<Longrightarrow> unat (2 ^ h :: 'a::len word) = 2 ^ h"
proof -
  assume "h < LENGTH('a)"
  then have "(2::nat) ^ h < 2 ^ LENGTH('a)" by (rule power_strict_increasing) simp
  moreover have "unat (of_nat (2 ^ h) :: 'a word) = 2 ^ h mod 2 ^ LENGTH('a)" by (simp only: unat_of_nat)
  ultimately show ?thesis by simp
qed

lemma ip6_pool_max_eq:
  "ip6_pool_max N h =
    (if h < 128 \<and> unat N + (2 ^ h - 1) < 2 ^ 128 \<and> (h = 0 \<longrightarrow> N \<noteq> 0)
     then Some (N + (2 ^ h - 1) - 1) else None)"
proof (cases "h < 128")
  case True
  then have u: "unat (2 ^ h :: 128 word) = 2 ^ h" by (simp add: unat_exp)
  then have s: "unat (2 ^ h - 1 :: 128 word) = 2 ^ h - 1" by (simp add: unat_sub word_le_nat_alt)
  have "checked_sub (2 ^ h :: 128 word) 1 = Some (2 ^ h - 1)"
    using u by (simp add: checked_sub_def word_le_nat_alt)
  moreover have "1 \<le> N + (2 ^ h - 1) \<longleftrightarrow> (h = 0 \<longrightarrow> N \<noteq> 0)"
    if lt: "unat N + (2 ^ h - 1) < 2 ^ 128"
  proof -
    have "unat (N + (2 ^ h - 1)) = unat N + (2 ^ h - 1)" using s lt by (simp add: unat_word_ariths)
    moreover have "(1::nat) \<le> unat N + (2 ^ h - 1) \<longleftrightarrow> (h = 0 \<longrightarrow> unat N \<noteq> 0)"
    proof (cases "h = 0")
      case False
      then have "(2::nat) ^ 1 \<le> 2 ^ h" by (intro power_increasing) simp_all
      with False show ?thesis by simp
    qed (simp add: Suc_le_eq)
    ultimately show ?thesis by (simp add: word_le_nat_alt unat_eq_0)
  qed
  ultimately show ?thesis
    using True s by (simp add: ip6_pool_max_def checked_shl_def checked_add_def checked_sub_def)
qed (simp add: ip6_pool_max_def checked_shl_def)

lemma ip6_pool_max_SomeD:
  assumes "ip6_pool_max N h = Some mx"
  shows "h < 128 \<and> unat N + (2 ^ h - 1) < 2 ^ 128 \<and> mx = N + (2 ^ h - 1) - 1"
proof (cases "h < 128 \<and> unat N + (2 ^ h - 1) < 2 ^ 128 \<and> (h = 0 \<longrightarrow> N \<noteq> 0)")
  case True
  then have "ip6_pool_max N h = Some (N + (2 ^ h - 1) - 1)" unfolding ip6_pool_max_eq by (rule if_P)
  with assms have "mx = N + (2 ^ h - 1) - 1" by (simp only: option.inject)
  with True show ?thesis by blast
next
  case False
  then have "ip6_pool_max N h = None" unfolding ip6_pool_max_eq by (rule if_not_P)
  with assms show ?thesis by (simp only: option.distinct)
qed

lemma ip6_pool_max_broadcast:
  assumes "lawful_net ops" and "ip6_pool_max (network ops net) (128 - prefix_len ops net) = Some mx"
    and "prefix_len ops net < 127"
  shows "a \<le> mx \<longleftrightarrow> a < broadcast ops net" "mx \<noteq> - 1"
proof -
  let ?h = "128 - prefix_len ops net"
  have c: "?h < 128" "unat (network ops net) + (2 ^ ?h - 1) < 2 ^ 128"
    "mx = network ops net + (2 ^ ?h - 1) - 1"
    using ip6_pool_max_SomeD [OF assms(2)] by blast+
  have "(2::nat) ^ 1 \<le> 2 ^ ?h" using assms(3) by (intro power_increasing) simp_all
  then have b: "unat (broadcast ops net) = unat (network ops net) + (2 ^ ?h - 1)" "0 < unat (broadcast ops net)"
    using broadcast_unat [OF assms(1), of net] by simp_all
  have "unat (2 ^ ?h - 1 :: 128 word) = 2 ^ ?h - 1"
    using c(1) by (simp add: unat_sub word_le_nat_alt unat_exp)
  then have "network ops net + (2 ^ ?h - 1) = broadcast ops net"
    using b(1) c(2) by (simp add: word_unat_eq_iff unat_word_ariths)
  then have mx: "mx = broadcast ops net - 1" using c(3) by simp
  have "1 \<le> broadcast ops net" using b(2) by (simp add: word_le_nat_alt)
  then have "unat mx = unat (broadcast ops net) - 1" unfolding mx by (simp add: unat_sub)
  then show "a \<le> mx \<longleftrightarrow> a < broadcast ops net" using b(2) by (auto simp: word_le_nat_alt word_less_nat_alt)
  show "mx \<noteq> - 1" unfolding mx using b(2) by (auto simp: diff_eq_eq)
qed

lemma ip6_pool_new_sequential:
  assumes "ip6_pool_new lib nl net server_ip Sequential sid = Some (Inr p)"
  obtains srv nxt mx where "server_ip = Some srv \<or> server_ip = None \<and> checked_add (network (ops6 lib) net) 1 = Some srv"
    "checked_add srv 1 = Some nxt" "ip6_pool_max (network (ops6 lib) net) (128 - prefix_len (ops6 lib) net) = Some mx"
    "prefix_len (ops6 lib) net < 127"
    "p = \<lparr> p6_network = net, p6_server_ip = srv, p6_alloc = SequentialAlloc nxt mx [], p6_in_use = [] \<rparr>"
  using assms
  by (auto simp: ip6_pool_new_def Let_def validate_ip6_strategy_def not_le split: option.splits if_splits)

lemma ip6_pool_new_node_id:
  assumes "ip6_pool_new lib nl net server_ip NodeId sid = Some (Inr p)"
  shows "p = \<lparr> p6_network = net, p6_server_ip = derived_ip6 (ops6 lib) nl net sid, p6_alloc = NodeIdAlloc, p6_in_use = [] \<rparr>"
  using assms by (auto simp: ip6_pool_new_def Let_def split: option.splits if_splits sum.splits)

lemma ip6_pool_new_built:
  assumes lawful: "lawful_net (ops6 lib)"
    and new: "ip6_pool_new lib nl net server_ip strategy sid = Some (Inr p)"
    and srv: "\<forall>ip. server_ip = Some ip \<longrightarrow> contains (ops6 lib) net ip"
  shows "pool6_inv (ops6 lib) nl p" "p6_network p = net"
    "a \<in> pool6_usable (ops6 lib) nl p \<Longrightarrow> contains (ops6 lib) net a \<and> a \<noteq> network (ops6 lib) net \<and> a \<noteq> p6_server_ip p"
    "strategy = Sequential \<Longrightarrow> sequential_pool p \<and>
      pool6_usable (ops6 lib) nl p = {a. p6_server_ip p < a \<and> a < broadcast (ops6 lib) net}"
proof -
  have "pool6_inv (ops6 lib) nl p \<and> p6_network p = net \<and>
    (a \<in> pool6_usable (ops6 lib) nl p \<longrightarrow> contains (ops6 lib) net a \<and> a \<noteq> network (ops6 lib) net \<and> a \<noteq> p6_server_ip p) \<and>
    (strategy = Sequential \<longrightarrow> sequential_pool p \<and>
      pool6_usable (ops6 lib) nl p = {a. p6_server_ip p < a \<and> a < broadcast (ops6 lib) net})"
  proof (cases strategy)
    case Sequential
    obtain s nxt mx where s: "server_ip = Some s \<or> server_ip = None \<and> checked_add (network (ops6 lib) net) 1 = Some s"
      "checked_add s 1 = Some nxt" "ip6_pool_max (network (ops6 lib) net) (128 - prefix_len (ops6 lib) net) = Some mx"
      "prefix_len (ops6 lib) net < 127"
      "p = \<lparr> p6_network = net, p6_server_ip = s, p6_alloc = SequentialAlloc nxt mx [], p6_in_use = [] \<rparr>"
      using new unfolding Sequential by (rule ip6_pool_new_sequential)
    note mx = ip6_pool_max_broadcast [OF lawful s(3,4)]
    have nxt: "unat nxt = unat s + 1" using checked_add_SomeD [OF s(2)] by simp
    have "cursor_inv [] [] {} s nxt mx"
      by (rule cursor_inv_init) (simp_all add: word_less_nat_alt word_le_nat_alt nxt)
    then have inv: "pool6_inv (ops6 lib) nl p" using mx(2) s(5) by (simp add: pool6_inv_def)
    have us: "pool6_usable (ops6 lib) nl p = {a. s < a \<and> a < broadcast (ops6 lib) net}"
      using s(5) mx(1) by (simp add: pool6_usable_def)
    have "network (ops6 lib) net \<le> s"
      using s(1) srv checked_add_SomeD [of "network (ops6 lib) net" 1 s]
      by (auto simp: contains_iff_range [OF lawful] word_le_nat_alt)
    then have "contains (ops6 lib) net a \<and> a \<noteq> network (ops6 lib) net \<and> a \<noteq> s"
      if "s < a" "a < broadcast (ops6 lib) net"
      using that le_less_trans [of "network (ops6 lib) net" s a]
      by (simp add: contains_iff_range [OF lawful] less_imp_le less_imp_neq [THEN not_sym])
    then show ?thesis using inv us s(5) by (simp add: sequential_pool_def)
  next
    case NodeId
    note p = ip6_pool_new_node_id [OF new [unfolded NodeId]]
    have "pool6_inv (ops6 lib) nl p" by (simp add: p pool6_inv_def lease_table_def)
    moreover have "pool6_usable (ops6 lib) nl p \<subseteq> {a. contains (ops6 lib) net a} - {network (ops6 lib) net, p6_server_ip p}"
      using derived_ip6_in_network [OF lawful] by (auto simp: p pool6_usable_def)
    ultimately show ?thesis using NodeId p by auto
  qed
  then show "pool6_inv (ops6 lib) nl p" "p6_network p = net"
    "a \<in> pool6_usable (ops6 lib) nl p \<Longrightarrow> contains (ops6 lib) net a \<and> a \<noteq> network (ops6 lib) net \<and> a \<noteq> p6_server_ip p"
    "strategy = Sequential \<Longrightarrow> sequential_pool p \<and>
      pool6_usable (ops6 lib) nl p = {a. p6_server_ip p < a \<and> a < broadcast (ops6 lib) net}"
    by blast+
qed

lemma ip6_pool_new_total:
  assumes lawful: "lawful_net (ops6 lib)" and len: "1 \<le> prefix_len (ops6 lib) net" "prefix_len (ops6 lib) net \<le> 126"
    and srv: "case server_ip of None \<Rightarrow> True | Some ip \<Rightarrow> contains (ops6 lib) net ip \<and> ip \<noteq> broadcast (ops6 lib) net"
  shows "\<exists>p. ip6_pool_new lib nl net server_ip Sequential sid = Some (Inr p)"
proof -
  let ?ops = "ops6 lib" let ?N = "network (ops6 lib) net" and ?h = "128 - prefix_len (ops6 lib) net"
  have h: "2 \<le> ?h" "?h < 128" using len by simp_all
  have B: "unat (broadcast ?ops net) = unat ?N + (2 ^ ?h - 1)" "unat (broadcast ?ops net) < 2 ^ 128"
    using broadcast_unat [OF lawful, of net] unat_less_exp [of "broadcast ?ops net"] by simp_all
  have "(2::nat) ^ 2 \<le> 2 ^ ?h" using h(1) by (intro power_increasing) simp_all
  then have B3: "unat ?N + 3 \<le> unat (broadcast ?ops net)" using B(1) by simp
  have mx: "ip6_pool_max ?N ?h = Some (?N + (2 ^ ?h - 1) - 1)"
    unfolding ip6_pool_max_eq using h B by (intro if_P) auto
  have N1: "checked_add ?N 1 = Some (?N + 1)" "unat (?N + 1) = unat ?N + 1"
    using B3 B(2) by (auto simp: checked_add_def unat_word_ariths)
  define s where "s = (case server_ip of None \<Rightarrow> ?N + 1 | Some ip \<Rightarrow> ip)"
  have "unat s < unat (broadcast ?ops net)"
    using srv N1(2) B3 by (auto simp: s_def contains_iff_range [OF lawful] word_le_nat_alt word_unat_eq_iff
        split: option.splits)
  then have "checked_add s 1 = Some (s + 1)" using B(2) by (simp add: checked_add_def)
  moreover have "(case server_ip of Some ip \<Rightarrow> Some ip | None \<Rightarrow> checked_add ?N 1) = Some s"
    using N1(1) by (simp add: s_def split: option.split)
  ultimately show ?thesis
    using len mx by (simp add: ip6_pool_new_def Let_def validate_ip6_strategy_def)
qed

lemma node_id_run_keeps:
  assumes "pool6_inv ops nl q" "p6_alloc q = NodeIdAlloc"
    "run_pool (ip6_pool_allocate ops nl) ip6_pool_release q hist = Some q'"
  shows "p6_alloc q' = NodeIdAlloc \<and> p6_network q' = p6_network q"
  using assms
proof (induction hist arbitrary: q)
  case (Cons x hist)
  show ?case
  proof (cases x)
    case (Allocate k)
    obtain q1 r where al: "ip6_pool_allocate ops nl q k = Some (q1, r)"
      using pool6.alloc_total [OF Cons.prems(1)] by blast
    have "p6_alloc q1 = NodeIdAlloc \<and> p6_network q1 = p6_network q"
      using Cons.prems(1)
      by (cases rule: pool6_allocate_cases [where key = k]) (use al Cons.prems(2) in auto)
    then show ?thesis
      using Cons.IH [of q1] Cons.prems pool6.alloc_invar [OF Cons.prems(1) al] by (simp add: Allocate al)
  next
    case (Release k)
    have "p6_alloc (ip6_pool_release q k) = NodeIdAlloc \<and> p6_network (ip6_pool_release q k) = p6_network q"
      using Cons.prems(2) by (simp add: ip6_pool_release_def split: option.split)
    then show ?thesis
      using Cons.IH [of "ip6_pool_release q k"] Cons.prems pool6.rel_invar [OF Cons.prems(1)] by (simp add: Release)
  qed
qed simp

section \<open>Properties\<close>

text \<open>C32. A pool that was built, with either strategy and with a configured server address
  (if any) inside its network, runs every sequence of allocations and releases without
  overflow; afterwards two different (endpoint, device) pairs never hold the same address, and
  a leased address lies in the network and is neither the network address nor the server's.\<close>

theorem pool6_leases_safe:
  assumes "lawful_net (ops6 lib)"
    and "ip6_pool_new lib nl net server_ip strategy sid = Some (Inr p)"
    and "case server_ip of None \<Rightarrow> True | Some ip \<Rightarrow> contains (ops6 lib) net ip"
  shows "\<exists>p'. run_pool (ip6_pool_allocate (ops6 lib) nl) ip6_pool_release p hist = Some p' \<and>
    (\<forall>k k' a. map_of (p6_in_use p') k = Some a \<and> map_of (p6_in_use p') k' = Some a \<longrightarrow> k = k') \<and>
    (\<forall>k a. map_of (p6_in_use p') k = Some a \<longrightarrow> contains (ops6 lib) net a \<and>
       a \<noteq> network (ops6 lib) net \<and> a \<noteq> p6_server_ip p)"
proof -
  have "\<forall>ip. server_ip = Some ip \<longrightarrow> contains (ops6 lib) net ip"
    using assms(3) by (auto split: option.splits)
  note built = ip6_pool_new_built [OF assms(1,2) this]
  obtain p' where run: "run_pool (ip6_pool_allocate (ops6 lib) nl) ip6_pool_release p hist = Some p'"
    using pool6.run_total [OF built(1)] by blast
  show ?thesis
  proof (intro exI conjI allI impI)
    show "run_pool (ip6_pool_allocate (ops6 lib) nl) ip6_pool_release p hist = Some p'" by (rule run)
    show "k = k'" if "map_of (p6_in_use p') k = Some a \<and> map_of (p6_in_use p') k' = Some a" for k k' a
      using that by (elim conjE) (rule pool6.run_exclusive [OF built(1) run])
    fix k a
    assume "map_of (p6_in_use p') k = Some a"
    then have "a \<in> pool6_usable (ops6 lib) nl p" by (rule pool6.run_usable [OF built(1) run])
    from built(3) [OF this] show "contains (ops6 lib) net a" "a \<noteq> network (ops6 lib) net" "a \<noteq> p6_server_ip p"
      by simp_all
  qed
qed


text \<open>C34. With the node-id strategy the address a client holds is always the one derived from
  its endpoint id, whatever happened before: it is the same on every reconnect and for every
  device, so two devices of one endpoint never both hold an address.\<close>

theorem node_id_address_stable:
  assumes "ip6_pool_new lib nl net server_ip NodeId sid = Some (Inr p)"
    and "run_pool (ip6_pool_allocate (ops6 lib) nl) ip6_pool_release p hist = Some p'"
    and "map_of (p6_in_use p') (eid, dev) = Some a"
  shows "a = derived_ip6 (ops6 lib) nl net eid \<and>
    (map_of (p6_in_use p') (eid, dev') \<noteq> None \<longrightarrow> dev' = dev)"
proof (intro conjI impI)
  note p = ip6_pool_new_node_id [OF assms(1)]
  have inv: "pool6_inv (ops6 lib) nl p" by (simp add: p pool6_inv_def lease_table_def)
  have inv': "pool6_inv (ops6 lib) nl p'" using pool6.run_total [OF inv, of hist] assms(2) by auto
  have nid: "p6_alloc p' = NodeIdAlloc" "p6_network p' = net"
    using node_id_run_keeps [OF inv _ assms(2)] by (simp_all add: p)
  show a: "a = derived_ip6 (ops6 lib) nl net eid"
    using pool6_node_id_lease(1) [OF inv' nid(1) assms(3)] nid(2) by simp
  assume "map_of (p6_in_use p') (eid, dev') \<noteq> None"
  then obtain b where b: "map_of (p6_in_use p') (eid, dev') = Some b" by blast
  have "b = a" using pool6_node_id_lease(1) [OF inv' nid(1) b] nid(2) a by simp
  with b have "(eid, dev') = (eid, dev)" by (intro pool6.lease_inj [OF inv' _ assms(3)]) simp
  then show "dev' = dev" by simp
qed

section \<open>Concrete pools\<close>

text \<open>The ULA network \<open>fd00::/64\<close>, and a digest function that pads to 32 bytes.\<close>

definition sample_net6 :: "128 word \<times> nat" where
  "sample_net6 = (0xFD000000000000000000000000000000, 64)"

definition sample_node_lib :: "nat node_id_lib" where
  "sample_node_lib = \<lparr> sha256 = (\<lambda>b. take 32 (rev b @ replicate 32 0)), as_bytes = (\<lambda>e. [of_nat e]) \<rparr>"

lemma sample_net6_facts:
  "lawful_net (ops6 cidr_ipnet)" "prefix_len (ops6 cidr_ipnet) sample_net6 = 64"
  "network (ops6 cidr_ipnet) sample_net6 = 0xFD000000000000000000000000000000"
  using lawful_cidr_net [where 'a = 128]
  by (simp_all add: cidr_ipnet_def cidr_net_def sample_net6_def mask_eq_exp_minus_1)

lemma sample_suffix: "derive_ip6_suffix sample_node_lib e = (from_be_bytes (of_nat e # map of_char ''1v rdda'') :: 64 word)"
  by (simp add: derive_ip6_suffix_def sample_node_lib_def)

theorem pool6_leases_safe_witness:
  "\<exists>p p'. ip6_pool_new cidr_ipnet sample_node_lib sample_net6 None Sequential 0 = Some (Inr p) \<and>
    run_pool (ip6_pool_allocate (ops6 cidr_ipnet) sample_node_lib) ip6_pool_release p
      [Allocate (1, 7), Allocate (2, 7), Release (1, 7), Allocate (3, 9)] = Some p' \<and>
    (\<forall>k k' a. map_of (p6_in_use p') k = Some a \<and> map_of (p6_in_use p') k' = Some a \<longrightarrow> k = k')"
proof -
  obtain p where p: "ip6_pool_new cidr_ipnet sample_node_lib sample_net6 None Sequential 0 = Some (Inr p)"
    using ip6_pool_new_total [OF sample_net6_facts(1), of sample_net6 None sample_node_lib 0]
    by (auto simp: sample_net6_facts(2))
  from pool6_leases_safe [OF sample_net6_facts(1) p,
      of "[Allocate (1, 7), Allocate (2, 7), Release (1, 7), Allocate (3, 9)]"] p
  show ?thesis by (simp only: option.case) blast
qed


theorem node_id_address_stable_witness:
  "\<exists>p p' a. ip6_pool_new cidr_ipnet sample_node_lib sample_net6 None NodeId 0 = Some (Inr p) \<and>
    run_pool (ip6_pool_allocate (ops6 cidr_ipnet) sample_node_lib) ip6_pool_release p [Allocate (2, 7)] = Some p' \<and>
    map_of (p6_in_use p') (2, 7) = Some a \<and>
    a = derived_ip6 (ops6 cidr_ipnet) sample_node_lib sample_net6 2"
proof -
  define d where "d = derived_ip6 (ops6 cidr_ipnet) sample_node_lib sample_net6"
  have d: "d 0 = 0xFD000000000000000031762072646461" "d 2 = 0xFD000000000000000231762072646461"
    by (simp_all add: d_def derived_ip6_def Let_def sample_net6_facts sample_suffix from_be_bytes_def
        mask_eq_exp_minus_1 of_char_def)
  define p where "p = \<lparr> p6_network = sample_net6, p6_server_ip = d 0, p6_alloc = NodeIdAlloc,
    p6_in_use = [] :: ((nat \<times> 64 word) \<times> 128 word) list \<rparr>"
  have new: "ip6_pool_new cidr_ipnet sample_node_lib sample_net6 None NodeId 0 = Some (Inr p)"
    by (simp add: ip6_pool_new_def Let_def validate_ip6_strategy_def sample_net6_facts p_def d_def [symmetric] d(1))
  have run: "run_pool (ip6_pool_allocate (ops6 cidr_ipnet) sample_node_lib) ip6_pool_release p [Allocate (2, 7)] =
      Some (p\<lparr>p6_in_use := [((2, 7), d 2)]\<rparr>)"
    by (simp add: ip6_pool_allocate_def p_def Let_def d_def [symmetric] sample_net6_facts d)
  have lease: "map_of (p6_in_use (p\<lparr>p6_in_use := [((2, 7), d 2)]\<rparr>)) (2, 7) = Some (d 2)" by simp
  from node_id_address_stable [OF new run lease] new run lease show ?thesis by blast
qed

end
