(* ===== verification/Handshake.thy ===== *)
theory Handshake
  imports Signaling Ip_Pool6
begin

text \<open>
  Both ends of the handshake: the credential (\<open>auth.rs\<close>) and its check on the server, the
  response the server builds from the addresses it leased (\<open>tunnel/server.rs\<close>), and the
  client's handshake with its check for changed server parameters on a reconnect
  (\<open>tunnel/client.rs\<close>).  Keys, signatures and endpoint ids belong to \<open>flexaccess_keys\<close>,
  \<open>flexaccess_iroh\<close> and \<open>iroh\<close>; what they offer is a record of operations.
\<close>

section \<open>Credentials\<close>

record ('e, 'pk, 'sk) auth_lib =
  parse_endpoint :: "string \<Rightarrow> 'e option"
  show_endpoint :: "'e \<Rightarrow> string"
  parse_public :: "string \<Rightarrow> 'pk option"
  public_str :: "'sk \<Rightarrow> string"
  public_key :: "'sk \<Rightarrow> 'pk"
  key_sign :: "'sk \<Rightarrow> bytes \<Rightarrow> 'e \<Rightarrow> string"
  key_verify :: "'pk \<Rightarrow> bytes \<Rightarrow> 'e \<Rightarrow> string \<Rightarrow> bool"

definition AUTH_CONTEXT :: bytes where "AUTH_CONTEXT = map of_char ''ezvpn-client-auth-v1''"

definition sign_endpoint_id :: "('e, 'pk, 'sk) auth_lib \<Rightarrow> 'sk \<Rightarrow> 'e \<Rightarrow> string" where
  "sign_endpoint_id al key endpoint_id = key_sign al key AUTH_CONTEXT endpoint_id"

definition verify_endpoint_id_signature :: "('e, 'pk, 'sk) auth_lib \<Rightarrow> 'pk \<Rightarrow> 'e \<Rightarrow> string \<Rightarrow> bool" where
  "verify_endpoint_id_signature al public endpoint_id signature = key_verify al public AUTH_CONTEXT endpoint_id signature"

definition verify_client_auth ::
  "('e, 'pk, 'sk) auth_lib \<Rightarrow> 'pk set \<Rightarrow> client_auth_payload \<Rightarrow> 'e \<Rightarrow> bool" where
  "verify_client_auth al authorized_keys auth remote_id =
    (case parse_endpoint al (ca_endpoint_id auth) of
       None \<Rightarrow> False
     | Some claimed \<Rightarrow>
         if claimed \<noteq> remote_id then False
         else case parse_public al (ca_public_key auth) of
             None \<Rightarrow> False
           | Some public \<Rightarrow>
               if public \<notin> authorized_keys then False
               else if \<not> verify_endpoint_id_signature al public remote_id (ca_signature auth) then False
               else True)"

definition client_credential :: "('e, 'pk, 'sk) auth_lib \<Rightarrow> 'sk \<Rightarrow> 'e \<Rightarrow> client_auth_payload" where
  "client_credential al client_key own_id =
    \<lparr> ca_public_key = public_str al client_key, ca_endpoint_id = show_endpoint al own_id,
       ca_signature = sign_endpoint_id al client_key own_id \<rparr>"

text \<open>The server reads the handshake and verifies its credential; a refused client gets a rejection
  that does not name the reason.\<close>

definition receive_handshake ::
  "('w \<Rightarrow> bytes \<Rightarrow> 'w \<times> (string + unit)) \<Rightarrow> vpn_handshake json \<Rightarrow> ('n4, 'n6) handshake_response json \<Rightarrow>
     ('e, 'pk, 'sk) auth_lib \<Rightarrow> 'pk set \<Rightarrow> 'e \<Rightarrow> 'w \<Rightarrow> recv_stream \<Rightarrow>
     'w \<times> (('n4, 'n6) vpn_error + vpn_handshake \<times> recv_stream)" where
  "receive_handshake put hjs rjs al authorized_keys remote_id w recv =
    (case and_then (read_message recv MAX_HANDSHAKE_SIZE) (\<lambda>(handshake_data, recv').
            and_then (handshake_decode hjs handshake_data) (\<lambda>handshake. Inr (handshake, recv'))) of
       Inl e \<Rightarrow> (w, Inl e)
     | Inr (handshake, recv') \<Rightarrow>
         if \<not> verify_client_auth al authorized_keys (hs_auth handshake) remote_id then
           (case response_encode rjs (rejected ''Public-key authentication failed'') of
              Inl e \<Rightarrow> (w, Inl e)
            | Inr data \<Rightarrow>
                (case write_message put w data of
                   (w', Inl e) \<Rightarrow> (w', Inl e)
                 | (w', Inr _) \<Rightarrow> (w', Inl (Signaling ''Public-key authentication failed''))))
         else (w, Inr (handshake, recv')))"

section \<open>The server's response\<close>

text \<open>\<open>None\<close> is a failed \<open>unwrap\<close> or \<open>expect\<close>, or the unreachable arm.\<close>

definition build_response ::
  "('n4, 'n6) ipnet \<Rightarrow> ('n4, 'k) ip_pool option \<Rightarrow> ('n6, 'e) ip6_pool option \<Rightarrow>
     32 word option \<Rightarrow> 128 word option \<Rightarrow> ('n4, 'n6) handshake_response option" where
  "build_response lib pool4 pool6 assigned_ip assigned_ip6 =
    (case (assigned_ip, assigned_ip6) of
       (Some ip4, Some ip6) \<Rightarrow>
         Option.bind pool4 (\<lambda>p4. Option.bind pool6 (\<lambda>p6.
         Option.bind (host_net4 (ops4 lib) (p4_server_ip p4)) (\<lambda>n4.
         Option.bind (host_net6 (ops6 lib) (p6_server_ip p6)) (\<lambda>n6.
           Some (accepted_dual_stack ip4 n4 (p4_server_ip p4) ip6 n6 (p6_server_ip p6))))))
     | (Some ip4, None) \<Rightarrow>
         Option.bind pool4 (\<lambda>p4. Option.bind (host_net4 (ops4 lib) (p4_server_ip p4)) (\<lambda>n4.
           Some (accepted ip4 n4 (p4_server_ip p4))))
     | (None, Some ip6) \<Rightarrow>
         Option.bind pool6 (\<lambda>p6. Option.bind (host_net6 (ops6 lib) (p6_server_ip p6)) (\<lambda>n6.
           Some (accepted_ipv6_only ip6 n6 (p6_server_ip p6))))
     | (None, None) \<Rightarrow> None)"

section \<open>The client's handshake\<close>

record ('n4, 'n6) server_info =
  si_assigned_ip :: "32 word option"
  si_network :: "'n4 option"
  si_server_ip :: "32 word option"
  si_assigned_ip6 :: "128 word option"
  si_network6 :: "'n6 option"
  si_server_ip6 :: "128 word option"
  si_server_addrs :: "ip_addr list"

text \<open>All three fields of a family, or none of them.\<close>

definition family_fields ::
  "string \<Rightarrow> 'a option \<Rightarrow> 'n option \<Rightarrow> 'a option \<Rightarrow> ('n4, 'n6) vpn_error + ('a option \<times> 'n option \<times> 'a option)" where
  "family_fields msg ip net gw =
    (case (ip, net, gw) of
       (Some i, Some n, Some g) \<Rightarrow> Inr (Some i, Some n, Some g)
     | (None, None, None) \<Rightarrow> Inr (None, None, None)
     | _ \<Rightarrow> Inl (Signaling msg))"

definition response_info :: "('n4, 'n6) handshake_response \<Rightarrow> ('n4, 'n6) vpn_error + ('n4, 'n6) server_info" where
  "response_info r =
    (if \<not> hr_accepted r then
       Inl (AuthenticationFailed (case hr_reject_reason r of Some reason \<Rightarrow> reason | None \<Rightarrow> ''Unknown''))
     else
       and_then (family_fields ''Server response has incomplete IPv4 configuration''
         (hr_assigned_ip r) (hr_network r) (hr_server_ip r)) (\<lambda>(ip, net, gw).
       and_then (family_fields ''Server response has incomplete IPv6 configuration''
         (hr_assigned_ip6 r) (hr_network6 r) (hr_server_ip6 r)) (\<lambda>(ip6, net6, gw6).
       if ip = None \<and> ip6 = None
       then Inl (Signaling ''Server response missing both IPv4 and IPv6 configuration'')
       else Inr \<lparr> si_assigned_ip = ip, si_network = net, si_server_ip = gw, si_assigned_ip6 = ip6,
              si_network6 = net6, si_server_ip6 = gw6, si_server_addrs = hr_server_addrs r \<rparr>)))"

text \<open>The whole exchange on an opened stream: \<open>put\<close> writes to it, \<open>recv\<close> is what it delivers.\<close>

definition perform_handshake ::
  "('w \<Rightarrow> bytes \<Rightarrow> 'w \<times> (string + unit)) \<Rightarrow> vpn_handshake json \<Rightarrow> ('n4, 'n6) handshake_response json \<Rightarrow>
     ('e, 'pk, 'sk) auth_lib \<Rightarrow> 64 word \<Rightarrow> 'sk \<Rightarrow> 'e \<Rightarrow> 'w \<Rightarrow> recv_stream \<Rightarrow>
     'w \<times> (('n4, 'n6) vpn_error + ('n4, 'n6) server_info \<times> recv_stream)" where
  "perform_handshake put hjs rjs al device_id client_key own_id w recv =
    (case handshake_encode hjs (handshake_new device_id (client_credential al client_key own_id)) of
       Inl e \<Rightarrow> (w, Inl e)
     | Inr data \<Rightarrow>
         (case write_message put w data of
            (w', Inl e) \<Rightarrow> (w', Inl e)
          | (w', Inr _) \<Rightarrow>
              (w', and_then (read_message recv MAX_HANDSHAKE_SIZE) (\<lambda>(response_data, recv').
                   and_then (response_decode rjs response_data) (\<lambda>response.
                   and_then (response_info response) (\<lambda>info. Inr (info, recv')))))))"

section \<open>Server parameters across reconnects\<close>

record ('n4, 'n6) network_params =
  np_assigned_ip :: "32 word option"
  np_network :: "'n4 option"
  np_server_ip :: "32 word option"
  np_assigned_ip6 :: "128 word option"
  np_network6 :: "'n6 option"
  np_server_ip6 :: "128 word option"

definition from_server_info :: "('n4, 'n6) server_info \<Rightarrow> ('n4, 'n6) network_params" where
  "from_server_info info = \<lparr> np_assigned_ip = si_assigned_ip info, np_network = si_network info,
     np_server_ip = si_server_ip info, np_assigned_ip6 = si_assigned_ip6 info, np_network6 = si_network6 info,
     np_server_ip6 = si_server_ip6 info \<rparr>"

definition non_ip_fields_eq :: "('n4, 'n6) network_params \<Rightarrow> ('n4, 'n6) network_params \<Rightarrow> bool" where
  "non_ip_fields_eq p q \<longleftrightarrow> np_network p = np_network q \<and> np_server_ip p = np_server_ip q \<and>
     np_network6 p = np_network6 q \<and> np_server_ip6 p = np_server_ip6 q"

definition check_params_against ::
  "('n4, 'n6) network_params option \<Rightarrow> ('n4, 'n6) server_info \<Rightarrow>
     ('n4, 'n6) network_params option \<times> (('n4, 'n6) vpn_error + unit)" where
  "check_params_against established info =
    (let params = from_server_info info in
     case established of
       None \<Rightarrow> (Some params, Inr ())
     | Some prev \<Rightarrow>
         if prev = params then (established, Inr ())
         else if non_ip_fields_eq prev params then (Some params, Inr ())
         else (established, Inl (ServerConfigChanged ''VPN config changed on reconnect'')))"

section \<open>Properties\<close>

text \<open>What the key and endpoint libraries promise: printed ids and keys parse back, and a
  signature verifies for the key, context and endpoint it was made for and no other context or
  endpoint.\<close>

definition lawful_auth :: "('e, 'pk, 'sk) auth_lib \<Rightarrow> bool" where
  "lawful_auth al \<longleftrightarrow>
    (\<forall>e. parse_endpoint al (show_endpoint al e) = Some e) \<and>
    (\<forall>k. parse_public al (public_str al k) = Some (public_key al k)) \<and>
    (\<forall>k ctx ctx' e e'. key_verify al (public_key al k) ctx e (key_sign al k ctx' e') \<longleftrightarrow> ctx = ctx' \<and> e = e')"

lemma verify_credential:
  "lawful_auth al \<Longrightarrow> verify_client_auth al authorized (client_credential al key own_id) remote_id \<longleftrightarrow>
    own_id = remote_id \<and> public_key al key \<in> authorized"
  by (auto simp: lawful_auth_def verify_client_auth_def client_credential_def verify_endpoint_id_signature_def
      sign_endpoint_id_def)

text \<open>A credential is accepted exactly on the connection it was made for and for an
  authorized key: replayed from another endpoint it is refused, and so is a signature the same
  key made over the same endpoint id for another application.\<close>

theorem credential_bound:
  assumes "lawful_auth al"
  shows "(verify_client_auth al authorized (client_credential al key own_id) remote_id \<longleftrightarrow>
      own_id = remote_id \<and> public_key al key \<in> authorized) \<and>
    (ctx \<noteq> AUTH_CONTEXT \<longrightarrow> \<not> verify_client_auth al authorized
      ((client_credential al key own_id)\<lparr>ca_signature := key_sign al key ctx own_id\<rparr>) remote_id)"
  using assms
  by (auto simp: lawful_auth_def verify_client_auth_def client_credential_def verify_endpoint_id_signature_def
      sign_endpoint_id_def)

definition sample_auth_lib :: "(bool, unit, unit) auth_lib" where
  "sample_auth_lib = \<lparr> parse_endpoint = (\<lambda>s. if s = ''1'' then Some True else if s = ''0'' then Some False else None),
     show_endpoint = (\<lambda>e. if e then ''1'' else ''0''), parse_public = (\<lambda>s. Some ()), public_str = (\<lambda>_. ''pub''),
     public_key = (\<lambda>_. ()), key_sign = (\<lambda>_ ctx e. (if e then ''1'' else ''0'') @ map (\<lambda>b. char_of (unat b)) ctx),
     key_verify = (\<lambda>_ ctx e s. s = (if e then ''1'' else ''0'') @ map (\<lambda>b. char_of (unat b)) ctx) \<rparr>"

lemma inj_byte_char: "inj (\<lambda>b :: byte. char_of (unat b) :: char)"
proof (rule injI)
  fix a b :: byte
  assume "(char_of (unat a) :: char) = char_of (unat b)"
  then have "(of_char (char_of (unat a) :: char) :: nat) = of_char (char_of (unat b) :: char)" by simp
  then show "a = b" by (simp add: mod_less word_unat_eq_iff)
qed

lemma sample_auth_lib_lawful: "lawful_auth sample_auth_lib"
  by (auto simp: lawful_auth_def sample_auth_lib_def dest: map_injective [OF _ inj_byte_char])

theorem credential_bound_witness:
  "lawful_auth sample_auth_lib \<and>
    verify_client_auth sample_auth_lib {()} (client_credential sample_auth_lib () True) True \<and>
    \<not> verify_client_auth sample_auth_lib {()} (client_credential sample_auth_lib () True) False"
  using credential_bound [OF sample_auth_lib_lawful, of "{()}" "()" True True "[]"]
    credential_bound [OF sample_auth_lib_lawful, of "{()}" "()" True False "[]"] sample_auth_lib_lawful by simp


definition sample_credential_json :: "vpn_handshake json" where
  "sample_credential_json = (let h = handshake_new 5 (client_credential sample_auth_lib () True) in
    \<lparr> to_vec = (\<lambda>x. if x = h then Some [2] else None), from_slice = (\<lambda>b. if b = [2] then Some h else None) \<rparr>)"

definition sample_rejection_json :: "(nat, nat) handshake_response json" where
  "sample_rejection_json = (let r = rejected ''Public-key authentication failed'' in
    \<lparr> to_vec = (\<lambda>x. if x = r then Some [3] else None), from_slice = (\<lambda>b. if b = [3] then Some r else None) \<rparr>)"


text \<open>The parameters a server must keep across reconnects.\<close>

definition identity :: "('n4, 'n6) server_info \<Rightarrow> 'n4 option \<times> 32 word option \<times> 'n6 option \<times> 128 word option" where
  "identity info = (si_network info, si_server_ip info, si_network6 info, si_server_ip6 info)"

fun run_checks ::
  "('n4, 'n6) network_params option \<Rightarrow> ('n4, 'n6) server_info list \<Rightarrow>
     ('n4, 'n6) network_params option \<times> (('n4, 'n6) vpn_error + unit) list" where
  "run_checks established [] = (established, [])"
| "run_checks established (info # infos) =
    (case check_params_against established info of (established', r) \<Rightarrow>
       case run_checks established' infos of (final, rs) \<Rightarrow> (final, r # rs))"

lemma check_params_step:
  assumes "non_ip_fields_eq p (from_server_info i)"
  shows "check_params_against (Some p) j =
    (if identity j = identity i then (Some (from_server_info j), Inr ())
     else (Some p, Inl (ServerConfigChanged ''VPN config changed on reconnect'')))"
  using assms by (auto simp: check_params_against_def Let_def non_ip_fields_eq_def from_server_info_def identity_def)

text \<open>C25. Over any sequence of handshakes of one client, a reconnect is accepted exactly
  when the advertised networks and gateways of both families are those of the first handshake,
  whatever the assigned addresses, and the recorded parameters are always those of the last
  accepted handshake.\<close>

theorem server_identity_pinned:
  "run_checks None (i # infos) =
    (Some (from_server_info (last (i # filter (\<lambda>j. identity j = identity i) infos))),
     Inr () # map (\<lambda>j. if identity j = identity i then Inr ()
                       else Inl (ServerConfigChanged ''VPN config changed on reconnect'')) infos)"
proof -
  have "run_checks (Some p) infos =
    (Some (last (p # map from_server_info (filter (\<lambda>j. identity j = identity i) infos))),
     map (\<lambda>j. if identity j = identity i then Inr ()
              else Inl (ServerConfigChanged ''VPN config changed on reconnect'')) infos)"
    if "non_ip_fields_eq p (from_server_info i)" for p
    using that
  proof (induction infos arbitrary: p)
    case (Cons j infos)
    have "non_ip_fields_eq (from_server_info j) (from_server_info i)" if "identity j = identity i"
      using that by (simp add: non_ip_fields_eq_def from_server_info_def identity_def)
    then show ?case
      using Cons.IH [of p] Cons.IH [of "from_server_info j"] Cons.prems by (simp add: check_params_step [OF Cons.prems])
  qed simp
  from this [of "from_server_info i"] show ?thesis
    by (simp add: check_params_against_def Let_def non_ip_fields_eq_def last_map)
qed

lemma host_net4_new:
  "lawful_net ops \<Longrightarrow> \<exists>n. host_net4 ops ip = Some n \<and> prefix_len ops n = 32 \<and> network ops n = ip"
  unfolding host_net4_def lawful_net_def
  by (drule conjunct2, drule spec [of _ ip], drule spec [of _ 32]) (auto split: option.splits)

lemma host_net6_new:
  "lawful_net ops \<Longrightarrow> \<exists>n. host_net6 ops ip = Some n \<and> prefix_len ops n = 128 \<and> network ops n = ip"
  unfolding host_net6_def lawful_net_def
  by (drule conjunct2, drule spec [of _ ip], drule spec [of _ 128]) (auto split: option.splits)

lemma is_valid_addrs: "is_valid (r\<lparr>hr_server_addrs := addrs\<rparr>) = is_valid r"
  by (cases r) (simp only: is_valid_def handshake_response.simps)

text \<open>What a response carries for the leased addresses: for each family with a lease, the lease, the
  server's address and its host prefix; nothing for the other.\<close>

definition carries ::
  "('n4, 'n6) ipnet \<Rightarrow> ('n4, 'k) ip_pool option \<Rightarrow> ('n6, 'e) ip6_pool option \<Rightarrow> 32 word option \<Rightarrow>
     128 word option \<Rightarrow> ip_addr list \<Rightarrow> ('n4, 'n6) server_info \<Rightarrow> bool" where
  "carries lib pool4 pool6 ip ip6 addrs info \<longleftrightarrow>
    si_assigned_ip info = ip \<and> si_assigned_ip6 info = ip6 \<and> si_server_addrs info = addrs \<and>
    si_server_ip info = (if ip = None then None else map_option p4_server_ip pool4) \<and>
    si_server_ip6 info = (if ip6 = None then None else map_option p6_server_ip pool6) \<and>
    map_option (\<lambda>n. (network (ops4 lib) n, prefix_len (ops4 lib) n)) (si_network info) =
      map_option (\<lambda>a. (a, 32)) (si_server_ip info) \<and>
    map_option (\<lambda>n. (network (ops6 lib) n, prefix_len (ops6 lib) n)) (si_network6 info) =
      map_option (\<lambda>a. (a, 128)) (si_server_ip6 info)"

lemma build_response_info:
  assumes "lawful_ipnet lib" and "ip \<noteq> None \<or> ip6 \<noteq> None"
    and "ip \<noteq> None \<longrightarrow> pool4 \<noteq> None" and "ip6 \<noteq> None \<longrightarrow> pool6 \<noteq> None"
  shows "\<exists>r info. build_response lib pool4 pool6 ip ip6 = Some r \<and> is_valid r \<and> hr_version r = VPN_PROTOCOL_VERSION \<and>
    hr_accepted r \<and> response_info (with_server_addrs r addrs) = Inr info \<and> carries lib pool4 pool6 ip ip6 addrs info"
proof -
  have laws: "lawful_net (ops4 lib)" "lawful_net (ops6 lib)" using assms(1) by (simp_all add: lawful_ipnet_def)
  have "\<exists>n. \<forall>p. pool4 = Some p \<longrightarrow> host_net4 (ops4 lib) (p4_server_ip p) = Some n \<and>
      prefix_len (ops4 lib) n = 32 \<and> network (ops4 lib) n = p4_server_ip p"
    using host_net4_new [OF laws(1), of "p4_server_ip (the pool4)"] by (cases pool4) simp_all
  moreover have "\<exists>n. \<forall>p. pool6 = Some p \<longrightarrow> host_net6 (ops6 lib) (p6_server_ip p) = Some n \<and>
      prefix_len (ops6 lib) n = 128 \<and> network (ops6 lib) n = p6_server_ip p"
    using host_net6_new [OF laws(2), of "p6_server_ip (the pool6)"] by (cases pool6) simp_all
  ultimately obtain n4 n6 where n: "\<forall>p. pool4 = Some p \<longrightarrow> host_net4 (ops4 lib) (p4_server_ip p) = Some n4 \<and>
      prefix_len (ops4 lib) n4 = 32 \<and> network (ops4 lib) n4 = p4_server_ip p"
    "\<forall>p. pool6 = Some p \<longrightarrow> host_net6 (ops6 lib) (p6_server_ip p) = Some n6 \<and>
      prefix_len (ops6 lib) n6 = 128 \<and> network (ops6 lib) n6 = p6_server_ip p" by blast
  show ?thesis
    using assms(2-4) n
    by (cases ip; cases ip6; cases pool4; cases pool6)
      (auto simp: build_response_def accepted_def accepted_dual_stack_def accepted_ipv6_only_def is_valid_def
        with_server_addrs_def response_info_def family_fields_def carries_def)
qed

text \<open>C24. The two ends agree: when the server has leased at least one address, it can
  build its response and the response passes its own validity check; if it serialises within the
  size limit, a client whose handshake could be written reads from the server's bytes exactly the
  leased addresses, the server's address and host prefix of each leased family, nothing for a
  family without a lease, and the server's candidate addresses, leaving the stream at the first
  byte after the response.\<close>

theorem handshake_delivers_leases:
  assumes "lawful_ipnet lib" and "json_roundtrip rjs"
    and "ip \<noteq> None \<or> ip6 \<noteq> None" and "ip \<noteq> None \<longrightarrow> pool4 \<noteq> None" and "ip6 \<noteq> None \<longrightarrow> pool6 \<noteq> None"
    and "to_vec hjs (handshake_new dev (client_credential al key own_id)) = Some hdata" and "length hdata < 2 ^ 32"
  shows "\<exists>r. build_response lib pool4 pool6 ip ip6 = Some r \<and> is_valid (with_server_addrs r addrs) \<and>
    (\<forall>data. to_vec rjs (with_server_addrs r addrs) = Some data \<and> length data \<le> MAX_HANDSHAKE_SIZE \<longrightarrow>
      response_encode rjs (with_server_addrs r addrs) = Inr data \<and>
      (\<exists>wire w info. write_message buffer_put [] data = (wire, Inr () :: ('n4, 'n6) vpn_error + unit) \<and>
        perform_handshake buffer_put hjs rjs al dev key own_id [] (wire @ rest, e) = (w, Inr (info, rest, e)) \<and>
        carries lib pool4 pool6 ip ip6 addrs info))"
proof -
  from build_response_info [OF assms(1,3,4,5), of addrs] obtain r info where r: "build_response lib pool4 pool6 ip ip6 = Some r"
    "is_valid r" "hr_version r = VPN_PROTOCOL_VERSION" "hr_accepted r"
    and info: "response_info (with_server_addrs r addrs) = Inr info" "carries lib pool4 pool6 ip ip6 addrs info" by blast
  let ?r = "with_server_addrs r addrs"
  have v: "is_valid ?r" "hr_version ?r = VPN_PROTOCOL_VERSION"
    using r by (simp_all add: with_server_addrs_def is_valid_addrs)
  show ?thesis
  proof (intro exI conjI allI impI)
    fix data assume d: "to_vec rjs ?r = Some data \<and> length data \<le> MAX_HANDSHAKE_SIZE"
    then have len: "length data < 2 ^ 32" by (simp add: MAX_HANDSHAKE_SIZE_def)
    have dec: "from_slice rjs data = Some ?r" using assms(2) d by (simp add: json_roundtrip_def)
    show "response_encode rjs ?r = Inr data" using v(1) d by (simp add: response_encode_def)
    show "write_message buffer_put [] data = (to_be_bytes (of_nat (length data) :: 32 word) @ data, Inr ())"
      using write_message_buffer [OF len, of "[]"] by simp
    show "perform_handshake buffer_put hjs rjs al dev key own_id []
        ((to_be_bytes (of_nat (length data) :: 32 word) @ data) @ rest, e) =
        (to_be_bytes (of_nat (length hdata) :: 32 word) @ hdata, Inr (info, rest, e))"
      using assms(6,7) d dec v info(1)
      by (simp add: perform_handshake_def handshake_encode_def write_message_buffer read_message_written [OF len]
          response_decode_def)
  qed (simp_all add: r(1) v(1) info(2))
qed

definition sample_lease_json :: "(32 word \<times> nat, 128 word \<times> nat) handshake_response json" where
  "sample_lease_json = \<lparr> to_vec = (\<lambda>r. if r = accepted 0x0A000002 (0x0A000001, 32) 0x0A000001 then Some [1] else None),
     from_slice = (\<lambda>b. if b = [1] then Some (accepted 0x0A000002 (0x0A000001, 32) 0x0A000001) else None) \<rparr>"

definition sample_hello_json :: "vpn_handshake json" where
  "sample_hello_json = \<lparr> to_vec = (\<lambda>_. Some [2]), from_slice = (\<lambda>_. None) \<rparr>"

definition sample_pool4 :: "(32 word \<times> nat, nat) ip_pool" where
  "sample_pool4 = \<lparr> p4_network = (0x0A000000, 24), p4_server_ip = 0x0A000001, p4_next_ip = 0x0A000002,
     p4_max_ip = 0x0A0000FE, p4_in_use = [], p4_released = [], p4_reserved = {} \<rparr>"

theorem handshake_delivers_leases_witness:
  "\<exists>wire w info. write_message buffer_put [] [1] = (wire, Inr () :: (32 word \<times> nat, 128 word \<times> nat) vpn_error + unit) \<and>
    perform_handshake buffer_put sample_hello_json sample_lease_json sample_auth_lib 5 () True [] (wire @ [9], Finished) =
      (w, Inr (info, [9], Finished)) \<and> si_assigned_ip info = Some 0x0A000002 \<and> si_server_ip info = Some 0x0A000001"
proof -
  have bld: "build_response cidr_ipnet (Some sample_pool4) (None :: (128 word \<times> nat, nat) ip6_pool option)
      (Some 0x0A000002) None = Some (accepted 0x0A000002 (0x0A000001, 32) 0x0A000001)"
    by (simp add: build_response_def host_net4_def cidr_ipnet_def cidr_net_def sample_pool4_def)
  have "with_server_addrs (accepted 0x0A000002 (0x0A000001, 32) 0x0A000001) [] =
      (accepted 0x0A000002 (0x0A000001 :: 32 word, 32) 0x0A000001 :: (32 word \<times> nat, 128 word \<times> nat) handshake_response)"
    by (simp add: with_server_addrs_def accepted_def)
  then have enc: "to_vec sample_lease_json (with_server_addrs (accepted 0x0A000002 (0x0A000001, 32) 0x0A000001) []) = Some [1]"
    by (simp add: sample_lease_json_def)
  have js: "json_roundtrip sample_lease_json" by (simp add: json_roundtrip_def sample_lease_json_def)
  have hello: "to_vec sample_hello_json (handshake_new 5 (client_credential sample_auth_lib () True)) = Some [2]"
    by (simp add: sample_hello_json_def)
  note del = handshake_delivers_leases [OF lawful_cidr_ipnet js _ _ _ hello, of "Some 0x0A000002" None "Some sample_pool4"
      "None :: (128 word \<times> nat, nat) ip6_pool option" "[]" "[9]" Finished]
  have "p4_server_ip sample_pool4 = 0x0A000001" by (simp add: sample_pool4_def)
  with del show ?thesis using enc by (auto simp: bld carries_def MAX_HANDSHAKE_SIZE_def)
qed

end
