(* ===== verification/Lease_Protocol.thy ===== *)
theory Lease_Protocol
  imports Prelude
begin

text \<open>
  What the server promises about the addresses of one family, without its program: sessions
  that lease an address, publish it in the routing table, withdraw it and give it back, in any
  interleaving.  The server's session handler refines this protocol once per address family.
\<close>

datatype 'a hold = Free | Held 'a | Routed 'a

record ('k, 'a) lease_state =
  ls_lease :: "'k \<rightharpoonup> 'a"
  ls_route :: "'a \<rightharpoonup> 'k"
  ls_sessions :: "('k \<times> bool \<times> 'a hold) list"

text \<open>A session is its key, whether it still runs, and what it holds.  \<open>abandon\<close> is a session that
  forgets its address without giving it back.\<close>

inductive lease_step :: "('k, 'a) lease_state \<Rightarrow> ('k, 'a) lease_state \<Rightarrow> bool" where
  start: "\<forall>(k', live, h) \<in> set (ls_sessions s). live \<longrightarrow> k' \<noteq> k \<Longrightarrow>
    lease_step s (s\<lparr>ls_sessions := ls_sessions s @ [(k, True, Free)]\<rparr>)"
| skip: "lease_step s s"
| grant: "i < length (ls_sessions s) \<Longrightarrow> ls_sessions s ! i = (k, True, Free) \<Longrightarrow>
    \<forall>k'. k' \<noteq> k \<longrightarrow> ls_lease s k' \<noteq> Some a \<Longrightarrow>
    lease_step s (s\<lparr>ls_lease := (ls_lease s)(k \<mapsto> a), ls_sessions := (ls_sessions s)[i := (k, True, Held a)]\<rparr>)"
| publish: "i < length (ls_sessions s) \<Longrightarrow> ls_sessions s ! i = (k, True, Held a) \<Longrightarrow>
    lease_step s (s\<lparr>ls_route := (ls_route s)(a \<mapsto> k), ls_sessions := (ls_sessions s)[i := (k, True, Routed a)]\<rparr>)"
| withdraw: "i < length (ls_sessions s) \<Longrightarrow> ls_sessions s ! i = (k, True, Routed a) \<Longrightarrow>
    lease_step s (s\<lparr>ls_route := (ls_route s)(a := (if ls_route s a = Some k then None else ls_route s a)),
      ls_sessions := (ls_sessions s)[i := (k, True, Held a)]\<rparr>)"
| give_back: "i < length (ls_sessions s) \<Longrightarrow> ls_sessions s ! i = (k, True, h) \<Longrightarrow> \<forall>a. h \<noteq> Routed a \<Longrightarrow>
    lease_step s (s\<lparr>ls_lease := (ls_lease s)(k := None), ls_sessions := (ls_sessions s)[i := (k, True, Free)]\<rparr>)"
| abandon: "i < length (ls_sessions s) \<Longrightarrow> ls_sessions s ! i = (k, True, h) \<Longrightarrow> \<forall>a. h \<noteq> Routed a \<Longrightarrow>
    lease_step s (s\<lparr>ls_sessions := (ls_sessions s)[i := (k, True, Free)]\<rparr>)"
| stop: "i < length (ls_sessions s) \<Longrightarrow> ls_sessions s ! i = (k, True, Free) \<Longrightarrow>
    lease_step s (s\<lparr>ls_sessions := (ls_sessions s)[i := (k, False, Free)]\<rparr>)"

definition lease_inv :: "('k, 'a) lease_state \<Rightarrow> bool" where
  "lease_inv s \<longleftrightarrow>
    (\<forall>k k' a. ls_lease s k = Some a \<longrightarrow> ls_lease s k' = Some a \<longrightarrow> k = k') \<and>
    (\<forall>i < length (ls_sessions s). \<forall>j < length (ls_sessions s). \<forall>k h h'.
      ls_sessions s ! i = (k, True, h) \<longrightarrow> ls_sessions s ! j = (k, True, h') \<longrightarrow> i = j) \<and>
    (\<forall>i < length (ls_sessions s). \<forall>k a.
      (ls_sessions s ! i = (k, True, Held a) \<longrightarrow> ls_lease s k = Some a) \<and>
      (ls_sessions s ! i = (k, True, Routed a) \<longrightarrow> ls_lease s k = Some a \<and> ls_route s a = Some k)) \<and>
    (\<forall>a k. ls_route s a = Some k \<longrightarrow> (k, True, Routed a) \<in> set (ls_sessions s))"

text \<open>The same, one fact at a time.\<close>

lemma lease_invD:
  assumes "lease_inv s"
  shows "ls_lease s k = Some a \<Longrightarrow> ls_lease s k' = Some a \<Longrightarrow> k = k'"
    and "i < length (ls_sessions s) \<Longrightarrow> j < length (ls_sessions s) \<Longrightarrow>
      ls_sessions s ! i = (k, True, h) \<Longrightarrow> ls_sessions s ! j = (k, True, h') \<Longrightarrow> i = j"
    and "i < length (ls_sessions s) \<Longrightarrow> ls_sessions s ! i = (k, True, Held a) \<Longrightarrow> ls_lease s k = Some a"
    and "i < length (ls_sessions s) \<Longrightarrow> ls_sessions s ! i = (k, True, Routed a) \<Longrightarrow>
      ls_lease s k = Some a \<and> ls_route s a = Some k"
    and "ls_route s a = Some k \<Longrightarrow> (k, True, Routed a) \<in> set (ls_sessions s)"
proof -
  note i = assms [unfolded lease_inv_def]
  show "ls_lease s k = Some a \<Longrightarrow> ls_lease s k' = Some a \<Longrightarrow> k = k'"
    using i [THEN conjunct1] by blast
  show "i < length (ls_sessions s) \<Longrightarrow> j < length (ls_sessions s) \<Longrightarrow>
      ls_sessions s ! i = (k, True, h) \<Longrightarrow> ls_sessions s ! j = (k, True, h') \<Longrightarrow> i = j"
    using i [THEN conjunct2, THEN conjunct1, rule_format, of i j k h h'] by simp
  show "i < length (ls_sessions s) \<Longrightarrow> ls_sessions s ! i = (k, True, Held a) \<Longrightarrow> ls_lease s k = Some a"
    "i < length (ls_sessions s) \<Longrightarrow> ls_sessions s ! i = (k, True, Routed a) \<Longrightarrow>
      ls_lease s k = Some a \<and> ls_route s a = Some k"
    using i [THEN conjunct2, THEN conjunct2, THEN conjunct1, THEN spec, of i] by simp_all
  show "ls_route s a = Some k \<Longrightarrow> (k, True, Routed a) \<in> set (ls_sessions s)"
    using i [THEN conjunct2, THEN conjunct2, THEN conjunct2, THEN spec, THEN spec, of a k] by simp
qed

lemma lease_invI:
  assumes "\<And>k k' a. ls_lease s k = Some a \<Longrightarrow> ls_lease s k' = Some a \<Longrightarrow> k = k'"
    and "\<And>i j k h h'. i < length (ls_sessions s) \<Longrightarrow> j < length (ls_sessions s) \<Longrightarrow>
      ls_sessions s ! i = (k, True, h) \<Longrightarrow> ls_sessions s ! j = (k, True, h') \<Longrightarrow> i = j"
    and "\<And>i k a. i < length (ls_sessions s) \<Longrightarrow> ls_sessions s ! i = (k, True, Held a) \<Longrightarrow> ls_lease s k = Some a"
    and "\<And>i k a. i < length (ls_sessions s) \<Longrightarrow> ls_sessions s ! i = (k, True, Routed a) \<Longrightarrow>
      ls_lease s k = Some a \<and> ls_route s a = Some k"
    and "\<And>a k. ls_route s a = Some k \<Longrightarrow> \<exists>i < length (ls_sessions s). ls_sessions s ! i = (k, True, Routed a)"
  shows "lease_inv s"
  unfolding lease_inv_def in_set_conv_nth
proof (intro conjI allI impI)
  fix a k assume "ls_route s a = Some k"
  from assms(5) [OF this] show "\<exists>i < length (ls_sessions s). ls_sessions s ! i = (k, True, Routed a)" .
qed (fact assms(1) | fact assms(2) | fact assms(3) | (drule (1) assms(4), simp))+

lemma lease_inv_route:
  "lease_inv s \<Longrightarrow> ls_route s a = Some k \<Longrightarrow> \<exists>i < length (ls_sessions s). ls_sessions s ! i = (k, True, Routed a)"
  using lease_invD(5) unfolding in_set_conv_nth by fastforce

text \<open>Changing what the \<open>i\<close>th session holds keeps the uniqueness of running keys.\<close>

lemma lease_inv_keys_update:
  assumes "lease_inv s" and "i < length (ls_sessions s)" and "ls_sessions s ! i = (k, True, h)"
    and "m < length (ls_sessions s)" "n < length (ls_sessions s)"
    and "(ls_sessions s)[i := (k, live, g)] ! m = (k', True, h1)" "(ls_sessions s)[i := (k, live, g)] ! n = (k', True, h2)"
  shows "m = n"
  using assms lease_invD(2) [OF assms(1)] by (cases "m = i"; cases "n = i") (auto simp: nth_list_update)

lemma lease_inv_start:
  assumes inv: "lease_inv s" and new: "\<forall>(k', live, h) \<in> set (ls_sessions s). live \<longrightarrow> k' \<noteq> k"
  shows "lease_inv (s\<lparr>ls_sessions := ls_sessions s @ [(k, True, Free)]\<rparr>)" (is "lease_inv ?t")
proof (rule lease_invI)
  have old: "ls_sessions s ! m \<noteq> (k, True, h)" if "m < length (ls_sessions s)" for m h
    using new nth_mem [OF that] by fastforce
  fix m n k' h1 h2
  assume "m < length (ls_sessions ?t)" "n < length (ls_sessions ?t)"
    "ls_sessions ?t ! m = (k', True, h1)" "ls_sessions ?t ! n = (k', True, h2)"
  then show "m = n"
    using old [of m h1] old [of n h2] lease_invD(2) [OF inv, of m n k' h1 h2]
    by (cases "m < length (ls_sessions s)"; cases "n < length (ls_sessions s)") (simp_all add: nth_append)
next
  have before: "m < length (ls_sessions s) \<and> ls_sessions s ! m = (k', True, h)"
    if "m < length (ls_sessions ?t)" "ls_sessions ?t ! m = (k', True, h)" "h \<noteq> Free" for m k' h
    using that by (cases "m < length (ls_sessions s)") (simp_all add: nth_append)
  fix m k' a assume m: "m < length (ls_sessions ?t)"
  show "ls_lease ?t k' = Some a" if "ls_sessions ?t ! m = (k', True, Held a)"
    using lease_invD(3) [OF inv, of m k' a] before [OF m that] by simp
  show "ls_lease ?t k' = Some a \<and> ls_route ?t a = Some k'" if "ls_sessions ?t ! m = (k', True, Routed a)"
    using lease_invD(4) [OF inv, of m k' a] before [OF m that] by simp
next
  fix a k' assume "ls_route ?t a = Some k'"
  then obtain m where "m < length (ls_sessions s)" "ls_sessions s ! m = (k', True, Routed a)"
    using lease_inv_route [OF inv] by auto
  then show "\<exists>m < length (ls_sessions ?t). ls_sessions ?t ! m = (k', True, Routed a)"
    by (intro exI [of _ m]) (simp add: nth_append)
next
  fix k1 k2 a assume "ls_lease ?t k1 = Some a" "ls_lease ?t k2 = Some a"
  then show "k1 = k2" by (intro lease_invD(1) [OF inv]) simp_all
qed

text \<open>Every other step changes one session; the facts about the others carry over.\<close>

lemma lease_inv_update:
  assumes inv: "lease_inv s" and i: "i < length (ls_sessions s)" "ls_sessions s ! i = (k, True, h)"
    and t: "ls_sessions t = (ls_sessions s)[i := (k, live, g)]"
    and lease: "\<And>k'. k' \<noteq> k \<Longrightarrow> ls_lease t k' = ls_lease s k'"
    and inj: "\<And>k' a. k' \<noteq> k \<Longrightarrow> ls_lease t k = Some a \<Longrightarrow> ls_lease s k' \<noteq> Some a"
    and own: "\<And>a. live \<Longrightarrow> g = Held a \<Longrightarrow> ls_lease t k = Some a"
      "\<And>a. live \<Longrightarrow> g = Routed a \<Longrightarrow> ls_lease t k = Some a \<and> ls_route t a = Some k"
    and route: "\<And>a k'. k' \<noteq> k \<Longrightarrow> ls_route s a = Some k' \<Longrightarrow> ls_lease s k' = Some a \<Longrightarrow> ls_route t a = Some k'"
      "\<And>a k'. ls_route t a = Some k' \<Longrightarrow> k' \<noteq> k \<Longrightarrow> ls_route s a = Some k'"
      "\<And>a. ls_route t a = Some k \<Longrightarrow> live \<and> g = Routed a"
  shows "lease_inv t"
proof (rule lease_invI)
  fix k1 k2 a assume a: "ls_lease t k1 = Some a" "ls_lease t k2 = Some a"
  consider "k1 = k" "k2 = k" | "k1 = k" "k2 \<noteq> k" | "k1 \<noteq> k" "k2 = k" | "k1 \<noteq> k" "k2 \<noteq> k" by blast
  then show "k1 = k2"
  proof cases
    case 2
    then show ?thesis using inj [of k2 a] lease [of k2] a by simp
  next
    case 3
    then show ?thesis using inj [of k1 a] lease [of k1] a by simp
  next
    case 4
    then show ?thesis using a by (intro lease_invD(1) [OF inv]) (simp_all add: lease)
  qed simp
next
  fix m n k' h1 h2
  assume "m < length (ls_sessions t)" "n < length (ls_sessions t)"
    "ls_sessions t ! m = (k', True, h1)" "ls_sessions t ! n = (k', True, h2)"
  then show "m = n" using lease_inv_keys_update [OF inv i, of m n live g k' h1 h2] by (simp add: t)
next
  have other: "k' \<noteq> k" if "m < length (ls_sessions s)" "m \<noteq> i" "ls_sessions s ! m = (k', True, h')" for m k' h'
    using lease_invD(2) [OF inv that(1) i(1), of k' h' h] that i(2) by auto
  fix m k' a
  assume m: "m < length (ls_sessions t)"
  show "ls_lease t k' = Some a" if "ls_sessions t ! m = (k', True, Held a)"
    using m that own(1) lease_invD(3) [OF inv, of m k' a] other [of m k' "Held a"] lease [of k']
    by (cases "m = i") (auto simp: t i nth_list_update)
  show "ls_lease t k' = Some a \<and> ls_route t a = Some k'" if "ls_sessions t ! m = (k', True, Routed a)"
    using m that own(2) lease_invD(4) [OF inv, of m k' a] other [of m k' "Routed a"] lease [of k'] route(1) [of k' a]
    by (cases "m = i") (auto simp: t i nth_list_update)
next
  fix a k' assume r: "ls_route t a = Some k'"
  show "\<exists>m < length (ls_sessions t). ls_sessions t ! m = (k', True, Routed a)"
  proof (cases "k' = k")
    case True
    then show ?thesis using r route(3) [of a] i by (intro exI [of _ i]) (simp add: t)
  next
    case False
    then obtain m where "m < length (ls_sessions s)" "ls_sessions s ! m = (k', True, Routed a)"
      using lease_inv_route [OF inv, of a k'] route(2) [OF r] by blast
    then show ?thesis using False i by (intro exI [of _ m]) (auto simp: t nth_list_update)
  qed
qed

text \<open>A session that does not publish its address has no route.\<close>

lemma lease_inv_unrouted:
  assumes "lease_inv s" and "i < length (ls_sessions s)" "ls_sessions s ! i = (k, True, h)" and "\<forall>a. h \<noteq> Routed a"
  shows "ls_route s a \<noteq> Some k"
proof
  assume "ls_route s a = Some k"
  then obtain m where m: "m < length (ls_sessions s)" "ls_sessions s ! m = (k, True, Routed a)"
    using lease_inv_route [OF assms(1)] by blast
  with lease_invD(2) [OF assms(1) m(1) assms(2) m(2) assms(3)] assms(3,4) show False by simp
qed

lemma lease_inv_routed:
  assumes "lease_inv s" and "i < length (ls_sessions s)" "ls_sessions s ! i = (k, True, Routed b)"
    and "ls_route s a = Some k"
  shows "a = b"
proof -
  obtain m where m: "m < length (ls_sessions s)" "ls_sessions s ! m = (k, True, Routed a)"
    using lease_inv_route [OF assms(1,4)] by blast
  with lease_invD(2) [OF assms(1) m(1) assms(2) m(2) assms(3)] assms(3) show ?thesis by simp
qed

lemma lease_inv_other: "lease_inv s \<Longrightarrow> ls_lease s k = Some a \<Longrightarrow> k' \<noteq> k \<Longrightarrow> ls_lease s k' \<noteq> Some a"
  using lease_invD(1) by metis

lemma lease_step_inv: "lease_step s t \<Longrightarrow> lease_inv s \<Longrightarrow> lease_inv t"
proof (induction rule: lease_step.induct)
  case (start s k)
  then show ?case by (intro lease_inv_start)
next
  case (grant i s k a)
  then show ?case
    using lease_inv_unrouted [of s i k Free] by (intro lease_inv_update [OF grant.prems grant.hyps(1,2), where live = True and g = "Held a"]) auto
next
  case (publish i s k a)
  have l: "ls_lease s k = Some a" by (rule lease_invD(3) [OF publish.prems publish.hyps])
  have only: "ls_lease s k' \<noteq> Some a" if "k' \<noteq> k" for k' by (rule lease_inv_other [OF publish.prems l that])
  show ?case
    by (rule lease_inv_update [OF publish.prems publish.hyps, where live = True and g = "Routed a"])
      (use l only lease_inv_unrouted [OF publish.prems publish.hyps] in \<open>auto split: if_splits\<close>)
next
  case (withdraw i s k a)
  have l: "ls_lease s k = Some a" using lease_invD(4) [OF withdraw.prems withdraw.hyps] by simp
  have only: "ls_lease s k' \<noteq> Some a" if "k' \<noteq> k" for k' by (rule lease_inv_other [OF withdraw.prems l that])
  have r: "ls_route s a = Some k" using lease_invD(4) [OF withdraw.prems withdraw.hyps] by simp
  have "ls_route s b \<noteq> Some k" if "b \<noteq> a" for b using lease_inv_routed [OF withdraw.prems withdraw.hyps, of b] that by blast
  then show ?case
    using l only r
    by (intro lease_inv_update [OF withdraw.prems withdraw.hyps, where live = True and g = "Held a"]) (auto split: if_splits)
next
  case (give_back i s k h)
  show ?case
    by (rule lease_inv_update [OF give_back.prems give_back.hyps(1,2), where live = True and g = Free])
      (use lease_inv_unrouted [OF give_back.prems give_back.hyps] in auto)
next
  case (abandon i s k h)
  show ?case
    by (rule lease_inv_update [OF abandon.prems abandon.hyps(1,2), where live = True and g = Free])
      (use lease_inv_unrouted [OF abandon.prems abandon.hyps] lease_inv_other [OF abandon.prems] in auto)
next
  case (stop i s k)
  show ?case
    by (rule lease_inv_update [OF stop.prems stop.hyps(1,2), where live = False and g = Free])
      (use lease_inv_unrouted [OF stop.prems stop.hyps] lease_inv_other [OF stop.prems] in auto)
qed simp

lemma lease_inv_exclusive:
  assumes "lease_inv s" and "i < length (ls_sessions s)" "j < length (ls_sessions s)"
    and "ls_sessions s ! i = (k, True, Routed a)" "ls_sessions s ! j = (k', True, Routed a)"
  shows "i = j"
proof -
  have "ls_lease s k = Some a" "ls_lease s k' = Some a"
    using lease_invD(4) [OF assms(1,2,4)] lease_invD(4) [OF assms(1,3,5)] by simp_all
  then have "k = k'" by (rule lease_invD(1) [OF assms(1)])
  then show ?thesis using lease_invD(2) [OF assms(1-4)] assms(5) by blast
qed

section \<open>Steps of a single session\<close>

text \<open>What one step of a running session with key \<open>k\<close> may do to the tables and to what it holds.  A
  system of sessions over some program state refines the protocol when each of its steps is such
  a change under a projection of the state.\<close>

inductive hold_change ::
  "'k \<Rightarrow> ('k \<rightharpoonup> 'a) \<Rightarrow> ('a \<rightharpoonup> 'k) \<Rightarrow> 'a hold \<Rightarrow> ('k \<rightharpoonup> 'a) \<Rightarrow> ('a \<rightharpoonup> 'k) \<Rightarrow> bool \<Rightarrow> 'a hold \<Rightarrow> bool"
  for k where
  keep: "hold_change k lease route h lease route True h"
| grant: "\<forall>k'. k' \<noteq> k \<longrightarrow> lease k' \<noteq> Some a \<Longrightarrow>
    hold_change k lease route Free (lease(k \<mapsto> a)) route True (Held a)"
| publish: "hold_change k lease route (Held a) lease (route(a \<mapsto> k)) True (Routed a)"
| withdraw: "hold_change k lease route (Routed a) lease
    (route(a := (if route a = Some k then None else route a))) True (Held a)"
| give_back: "\<forall>a. h \<noteq> Routed a \<Longrightarrow> hold_change k lease route h (lease(k := None)) route True Free"
| abandon: "\<forall>a. h \<noteq> Routed a \<Longrightarrow> hold_change k lease route h lease route True Free"
| stop: "hold_change k lease route Free lease route False Free"

lemma hold_change_step:
  assumes "hold_change k lease route h lease' route' live h'"
    and "i < length sessions" and "sessions ! i = (k, True, h)"
  shows "lease_step \<lparr> ls_lease = lease, ls_route = route, ls_sessions = sessions \<rparr>
    \<lparr> ls_lease = lease', ls_route = route', ls_sessions = sessions[i := (k, live, h')] \<rparr>"
  using assms
proof (induction rule: hold_change.induct)
  case (keep lease route h)
  then have "sessions[i := (k, True, h)] = sessions" by (metis list_update_id)
  then show ?case by (simp add: lease_step.skip)
next
  case (grant lease a route)
  then show ?case
    using lease_step.grant [of i "\<lparr> ls_lease = lease, ls_route = route, ls_sessions = sessions \<rparr>" k a]
    by (simp add: fun_upd_def)
next
  case (publish lease route a)
  then show ?case
    using lease_step.publish [of i "\<lparr> ls_lease = lease, ls_route = route, ls_sessions = sessions \<rparr>" k a]
    by (simp add: fun_upd_def)
next
  case (withdraw lease route a)
  then show ?case
    using lease_step.withdraw [of i "\<lparr> ls_lease = lease, ls_route = route, ls_sessions = sessions \<rparr>" k a]
    by (cases "route a = Some k") (simp_all add: fun_upd_def)
next
  case (give_back h lease route)
  then show ?case
    using lease_step.give_back [of i "\<lparr> ls_lease = lease, ls_route = route, ls_sessions = sessions \<rparr>" k h]
    by (simp add: fun_upd_def)
next
  case (abandon h lease route)
  then show ?case
    using lease_step.abandon [of i "\<lparr> ls_lease = lease, ls_route = route, ls_sessions = sessions \<rparr>" k h] by simp
next
  case (stop lease route)
  then show ?case
    using lease_step.stop [of i "\<lparr> ls_lease = lease, ls_route = route, ls_sessions = sessions \<rparr>" k] by simp
qed

definition held :: "'a option \<Rightarrow> 'a hold" where
  "held ip = (case ip of None \<Rightarrow> Free | Some a \<Rightarrow> Held a)"

definition published :: "'a option \<Rightarrow> 'a hold" where
  "published ip = (case ip of None \<Rightarrow> Free | Some a \<Rightarrow> Routed a)"

lemma held_not_routed [simp]: "held ip \<noteq> Routed a"
  by (simp add: held_def split: option.split)

end
