(* ===== verification/Server_Session.thy ===== *)
theory Server_Session
  imports Server_Data Handshake Lease_Protocol
begin

text \<open>
  The server's connection handler (\<open>handle_connection\<close> and \<open>handle_connection_inner\<close> of
  \<open>tunnel/server.rs\<close>).  Every connection runs in its own task, so the handler is cut at its
  operations on shared state: a session is a program counter with the handler's local
  variables, \<open>session_next\<close> performs the next operation, and \<open>server_step\<close> interleaves any
  number of sessions.
\<close>

section \<open>The server\<close>

record ('n4, 'n6, 'e, 'c) vpn_server =
  sv_max_clients :: nat
  sv_ip_pool :: "('n4, 'e client_key) ip_pool option"
  sv_ip6_pool :: "('n6, 'e) ip6_pool option"
  sv_clients :: "'e client_key \<rightharpoonup> 'c client_state"
  sv_owners :: "'e ip_owners"
  sv_active_connections :: nat
  sv_next_session_id :: "64 word"

text \<open>\<open>lock\<close> is the outcome of acquiring the single-instance lock; the outer \<open>None\<close> is an
  arithmetic overflow in one of the pools.\<close>

datatype ('n4, 'n6) server_error = BadConfig config_error | LockError "('n4, 'n6) vpn_error"

definition vpn_server_new ::
  "('n4, 'n6) ipnet \<Rightarrow> 'e node_id_lib \<Rightarrow> (('n4, 'n6) vpn_error + unit) \<Rightarrow>
     ('n4, 'n6, 'keys) vpn_server_config \<Rightarrow> 'e \<Rightarrow>
     (('n4, 'n6) server_error + ('n4, 'n6, 'e, 'c) vpn_server) option" where
  "vpn_server_new lib nl lock config server_endpoint_id =
    (case server_config_validate lib config of
       Inl e \<Rightarrow> Some (Inl (BadConfig e))
     | Inr _ \<Rightarrow>
         (case lock of
            Inl e \<Rightarrow> Some (Inl (LockError e))
          | Inr _ \<Rightarrow>
              Option.bind (case sc_network config of
                  None \<Rightarrow> Some None
                | Some net \<Rightarrow> map_option Some (ip_pool_new (ops4 lib) net (sc_server_ip config))) (\<lambda>pool4.
              Option.bind (case sc_network6 config of
                  None \<Rightarrow> Some (Inr None)
                | Some net6 \<Rightarrow> map_option (map_sum id Some)
                    (ip6_pool_new lib nl net6 (sc_server_ip6 config) (sc_ip6_strategy config) server_endpoint_id)) (\<lambda>r.
              Some (case r of
                  Inl e \<Rightarrow> Inl (BadConfig e)
                | Inr pool6 \<Rightarrow> Inr \<lparr> sv_max_clients = sc_max_clients config, sv_ip_pool = pool4, sv_ip6_pool = pool6,
                    sv_clients = Map.empty, sv_owners = \<lparr> ip_to_endpoint = Map.empty, ip6_to_endpoint = Map.empty \<rparr>,
                    sv_active_connections = 0, sv_next_session_id = 1 \<rparr>)))))"

section \<open>The handler's operations\<close>

text \<open>The outer \<open>None\<close> is the overflow panic of a pool.\<close>

definition assign_ipv4 ::
  "('n4, 'n6, 'e, 'c) vpn_server \<Rightarrow> 'e client_key \<Rightarrow>
     (('n4, 'n6, 'e, 'c) vpn_server \<times> (('n4, 'n6) vpn_error + 32 word option)) option" where
  "assign_ipv4 s key =
    (case sv_ip_pool s of
       None \<Rightarrow> Some (s, Inr None)
     | Some pool \<Rightarrow>
         (case ip_pool_allocate pool key of
            None \<Rightarrow> None
          | Some (pool', Some ip) \<Rightarrow> Some (s\<lparr>sv_ip_pool := Some pool'\<rparr>, Inr (Some ip))
          | Some (pool', None) \<Rightarrow>
              Some (s\<lparr>sv_ip_pool := Some pool'\<rparr>,
                if sv_ip6_pool s = None then Inl (IpAssignment ''IPv4 pool exhausted'') else Inr None)))"

definition assign_ipv6 ::
  "('n4, 'n6) ipnet \<Rightarrow> 'e node_id_lib \<Rightarrow> ('n4, 'n6, 'e, 'c) vpn_server \<Rightarrow> 'e client_key \<Rightarrow>
     (('n4, 'n6, 'e, 'c) vpn_server \<times> (('n4, 'n6) vpn_error + 128 word option)) option" where
  "assign_ipv6 lib nl s key =
    (case sv_ip6_pool s of
       None \<Rightarrow> Some (s, Inr None)
     | Some pool \<Rightarrow>
         (case ip6_pool_allocate (ops6 lib) nl pool key of
            None \<Rightarrow> None
          | Some (pool', Some ip) \<Rightarrow> Some (s\<lparr>sv_ip6_pool := Some pool'\<rparr>, Inr (Some ip))
          | Some (pool', None) \<Rightarrow>
              Some (s\<lparr>sv_ip6_pool := Some pool'\<rparr>,
                if sv_ip_pool s = None then Inl (IpAssignment ''IPv6 pool exhausted'') else Inr None)))"

text \<open>Building, encoding and writing the response; \<open>io\<close> is the outcome of the write, \<open>None\<close> a
  failed \<open>unwrap\<close>.\<close>

definition respond ::
  "('n4, 'n6) ipnet \<Rightarrow> ('n4, 'n6) handshake_response json \<Rightarrow> ip_addr list \<Rightarrow> (('n4, 'n6) vpn_error + unit) \<Rightarrow>
     ('n4, 'n6, 'e, 'c) vpn_server \<Rightarrow> 32 word option \<Rightarrow> 128 word option \<Rightarrow> (('n4, 'n6) vpn_error + unit) option" where
  "respond lib rjs addrs io s ip ip6 =
    (case build_response lib (sv_ip_pool s) (sv_ip6_pool s) ip ip6 of
       None \<Rightarrow> None
     | Some response \<Rightarrow> Some (and_then (response_encode rjs (with_server_addrs response addrs)) (\<lambda>_. io)))"

definition refuse ::
  "('n4, 'n6) handshake_response json \<Rightarrow> (('n4, 'n6) vpn_error + unit) \<Rightarrow> ('n4, 'n6) vpn_error + unit" where
  "refuse rjs io =
    and_then (response_encode rjs (rejected ''Server full'')) (\<lambda>_.
    and_then io (\<lambda>_. Inl (IpAssignment ''Server full'')))"

text \<open>Removals that check the owner first (\<open>remove_if\<close>).\<close>

definition unroute4 :: "'e client_key \<Rightarrow> 32 word option \<Rightarrow> 'e ip_owners \<Rightarrow> 'e ip_owners" where
  "unroute4 key ip owners =
    (case ip of
       None \<Rightarrow> owners
     | Some a \<Rightarrow> if ip_to_endpoint owners a = Some key
         then owners\<lparr>ip_to_endpoint := (ip_to_endpoint owners)(a := None)\<rparr> else owners)"

definition unroute6 :: "'e client_key \<Rightarrow> 128 word option \<Rightarrow> 'e ip_owners \<Rightarrow> 'e ip_owners" where
  "unroute6 key ip6 owners =
    (case ip6 of
       None \<Rightarrow> owners
     | Some a \<Rightarrow> if ip6_to_endpoint owners a = Some key
         then owners\<lparr>ip6_to_endpoint := (ip6_to_endpoint owners)(a := None)\<rparr> else owners)"

section \<open>A session, one operation at a time\<close>

text \<open>Where a session is, with its local variables: the counter value it saw, the addresses it was
  assigned, its session id, which leases to release and the handler's result.  A session starts
  as \<open>Arrived\<close>, its credential verified.\<close>

datatype ('n4, 'n6) phase =
    Arrived
  | Counted nat
  | Refused
  | Admitted
  | Leased4 "32 word option"
  | Leased "32 word option" "128 word option"
  | Responded "32 word option" "128 word option"
  | Numbered "64 word" "32 word option" "128 word option"
  | Inserted "64 word" "32 word option" "128 word option"
  | Published4 "64 word" "32 word option" "128 word option"
  | Active "64 word" "32 word option" "128 word option"
  | Ended "64 word" "32 word option" "128 word option" "('n4, 'n6) vpn_error + unit"
  | Removed "32 word option" "128 word option" bool bool "('n4, 'n6) vpn_error + unit"
  | Withdrawn4 "32 word option" "128 word option" bool bool "('n4, 'n6) vpn_error + unit"
  | Withdrawn "32 word option" "128 word option" bool bool "('n4, 'n6) vpn_error + unit"
  | Released4 "128 word option" bool "('n4, 'n6) vpn_error + unit"
  | Leaving "('n4, 'n6) vpn_error + unit"
  | Done "('n4, 'n6) vpn_error + unit"

text \<open>The next operation of a session; \<open>io\<close> is the outcome of what the operation waits for (the
  write of the response, the end of \<open>handle_client_data\<close>).  \<open>None\<close>: the session is over, or its
  task panics.\<close>

fun session_next ::
  "('n4, 'n6) ipnet \<Rightarrow> 'e node_id_lib \<Rightarrow> ('n4, 'n6) handshake_response json \<Rightarrow> ip_addr list \<Rightarrow>
     (('n4, 'n6) vpn_error + unit) \<Rightarrow> 'e client_key \<Rightarrow> 'c \<Rightarrow> ('n4, 'n6, 'e, 'c) vpn_server \<Rightarrow> ('n4, 'n6) phase \<Rightarrow>
     (('n4, 'n6, 'e, 'c) vpn_server \<times> ('n4, 'n6) phase) option" where
  "session_next lib nl rjs addrs io key conn s Arrived =
    Some (s\<lparr>sv_active_connections := sv_active_connections s + 1\<rparr>, Counted (sv_active_connections s))"
| "session_next lib nl rjs addrs io key conn s (Counted prev_count) =
    Some (s, if prev_count \<ge> sv_max_clients s then Refused else Admitted)"
| "session_next lib nl rjs addrs io key conn s Refused =
    Some (s\<lparr>sv_active_connections := sv_active_connections s - 1\<rparr>, Done (refuse rjs io))"
| "session_next lib nl rjs addrs io key conn s Admitted =
    (case assign_ipv4 s key of
       None \<Rightarrow> None
     | Some (s', Inl e) \<Rightarrow> Some (s', Leaving (Inl e))
     | Some (s', Inr ip) \<Rightarrow> Some (s', Leased4 ip))"
| "session_next lib nl rjs addrs io key conn s (Leased4 ip) =
    (case assign_ipv6 lib nl s key of
       None \<Rightarrow> None
     | Some (s', Inl e) \<Rightarrow> Some (s', Leaving (Inl e))
     | Some (s', Inr ip6) \<Rightarrow>
         Some (s', if ip = None \<and> ip6 = None then Leaving (Inl (IpAssignment ''All IP pools exhausted''))
                   else Leased ip ip6))"
| "session_next lib nl rjs addrs io key conn s (Leased ip ip6) =
    (case respond lib rjs addrs io s ip ip6 of
       None \<Rightarrow> None
     | Some (Inl e) \<Rightarrow> Some (s, Leaving (Inl e))
     | Some (Inr _) \<Rightarrow> Some (s, Responded ip ip6))"
| "session_next lib nl rjs addrs io key conn s (Responded ip ip6) =
    Some (s\<lparr>sv_next_session_id := sv_next_session_id s + 1\<rparr>, Numbered (sv_next_session_id s) ip ip6)"
| "session_next lib nl rjs addrs io key conn s (Numbered session_id ip ip6) =
    Some (s\<lparr>sv_clients := (sv_clients s)(key \<mapsto> \<lparr> cs_session_id = session_id, cs_assigned_ip = ip,
            cs_assigned_ip6 = ip6, cs_connection = conn, cs_datagram_tx = client_queue_new \<rparr>)\<rparr>,
          Inserted session_id ip ip6)"
| "session_next lib nl rjs addrs io key conn s (Inserted session_id ip ip6) =
    Some (case ip of None \<Rightarrow> s | Some a \<Rightarrow>
            s\<lparr>sv_owners := (sv_owners s)\<lparr>ip_to_endpoint := (ip_to_endpoint (sv_owners s))(a \<mapsto> key)\<rparr>\<rparr>,
          Published4 session_id ip ip6)"
| "session_next lib nl rjs addrs io key conn s (Published4 session_id ip ip6) =
    Some (case ip6 of None \<Rightarrow> s | Some a \<Rightarrow>
            s\<lparr>sv_owners := (sv_owners s)\<lparr>ip6_to_endpoint := (ip6_to_endpoint (sv_owners s))(a \<mapsto> key)\<rparr>\<rparr>,
          Active session_id ip ip6)"
| "session_next lib nl rjs addrs io key conn s (Active session_id ip ip6) = Some (s, Ended session_id ip ip6 io)"
| "session_next lib nl rjs addrs io key conn s (Ended session_id ip ip6 r) =
    Some (case sv_clients s key of
        None \<Rightarrow> (s, Leaving r)
      | Some c \<Rightarrow>
          if cs_session_id c = session_id
          then (s\<lparr>sv_clients := (sv_clients s)(key := None)\<rparr>,
                Removed ip ip6 (cs_assigned_ip c \<noteq> None) (cs_assigned_ip6 c \<noteq> None) r)
          else (s, Leaving r))"
| "session_next lib nl rjs addrs io key conn s (Removed ip ip6 rel4 rel6 r) =
    Some (s\<lparr>sv_owners := unroute4 key ip (sv_owners s)\<rparr>, Withdrawn4 ip ip6 rel4 rel6 r)"
| "session_next lib nl rjs addrs io key conn s (Withdrawn4 ip ip6 rel4 rel6 r) =
    Some (s\<lparr>sv_owners := unroute6 key ip6 (sv_owners s)\<rparr>, Withdrawn ip ip6 rel4 rel6 r)"
| "session_next lib nl rjs addrs io key conn s (Withdrawn ip ip6 rel4 rel6 r) =
    Some (if rel4 then s\<lparr>sv_ip_pool := map_option (\<lambda>p. ip_pool_release p key) (sv_ip_pool s)\<rparr> else s,
          Released4 ip6 rel6 r)"
| "session_next lib nl rjs addrs io key conn s (Released4 ip6 rel6 r) =
    Some (if rel6 then s\<lparr>sv_ip6_pool := map_option (\<lambda>p. ip6_pool_release p key) (sv_ip6_pool s)\<rparr> else s,
          Leaving r)"
| "session_next lib nl rjs addrs io key conn s (Leaving r) =
    Some (s\<lparr>sv_active_connections := sv_active_connections s - 1\<rparr>, Done r)"
| "session_next lib nl rjs addrs io key conn s (Done r) = None"

section \<open>Interleaved sessions\<close>

type_synonym ('n4, 'n6, 'e, 'c) session = "'e client_key \<times> 'c \<times> ('n4, 'n6) phase"
type_synonym ('n4, 'n6, 'e, 'c) server_run = "('n4, 'n6, 'e, 'c) vpn_server \<times> ('n4, 'n6, 'e, 'c) session list"

definition running :: "('n4, 'n6) phase \<Rightarrow> bool" where
  "running ph = (case ph of Done _ \<Rightarrow> False | _ \<Rightarrow> True)"

text \<open>Any session may take its next operation, and a verified client may arrive at any time.  With
  \<open>overlap\<close> false a client does not come back before the handler of its previous connection
  has finished.\<close>

inductive server_step ::
  "('n4, 'n6) ipnet \<Rightarrow> 'e node_id_lib \<Rightarrow> ('n4, 'n6) handshake_response json \<Rightarrow> bool \<Rightarrow>
     ('n4, 'n6, 'e, 'c) server_run \<Rightarrow> ('n4, 'n6, 'e, 'c) server_run \<Rightarrow> bool"
  for lib nl rjs overlap where
  arrive: "overlap \<or> (\<forall>(key', conn', ph) \<in> set sessions. running ph \<longrightarrow> key' \<noteq> key) \<Longrightarrow>
    server_step lib nl rjs overlap (s, sessions) (s, sessions @ [(key, conn, Arrived)])"
| advance: "i < length sessions \<Longrightarrow> sessions ! i = (key, conn, ph) \<Longrightarrow>
    session_next lib nl rjs addrs io key conn s ph = Some (s', ph') \<Longrightarrow>
    server_step lib nl rjs overlap (s, sessions) (s', sessions[i := (key, conn, ph')])"

section \<open>The connection limit\<close>

text \<open>Sessions the counter counts, and those that were let in.\<close>

definition counted :: "('n4, 'n6) phase \<Rightarrow> bool" where
  "counted ph = (case ph of Arrived \<Rightarrow> False | Done _ \<Rightarrow> False | _ \<Rightarrow> True)"

definition admitted :: "nat \<Rightarrow> ('n4, 'n6) phase \<Rightarrow> bool" where
  "admitted mx ph = (case ph of Arrived \<Rightarrow> False | Done _ \<Rightarrow> False | Refused \<Rightarrow> False
     | Counted prev \<Rightarrow> prev < mx | _ \<Rightarrow> True)"

definition count :: "(('n4, 'n6) phase \<Rightarrow> bool) \<Rightarrow> ('n4, 'n6, 'e, 'c) session list \<Rightarrow> nat" where
  "count P sessions = length (filter (\<lambda>(key, conn, ph). P ph) sessions)"

lemma count_update:
  assumes "i < length sessions" and "sessions ! i = (key, conn, ph)"
  shows "count P (sessions[i := (key, conn, ph')]) + of_bool (P ph) = count P sessions + of_bool (P ph')"
proof -
  have split: "sessions = take i sessions @ (key, conn, ph) # drop (Suc i) sessions"
    using id_take_nth_drop [OF assms(1)] assms(2) by simp
  have "sessions[i := (key, conn, ph')] = take i sessions @ (key, conn, ph') # drop (Suc i) sessions"
    by (rule upd_conv_take_nth_drop [OF assms(1)])
  then show ?thesis by (subst (2) split) (simp add: count_def del: append_take_drop_id)
qed

lemma count_append [simp]: "count P (sessions @ [(key, conn, ph)]) = count P sessions + of_bool (P ph)"
  by (simp add: count_def)

lemma count_mono: "(\<And>ph. P ph \<Longrightarrow> Q ph) \<Longrightarrow> count P sessions \<le> count Q sessions"
  by (induction sessions) (auto simp: count_def)

lemma assign_frame:
  "assign_ipv4 s key = Some (s', r) \<Longrightarrow> \<exists>p. s' = s\<lparr>sv_ip_pool := p\<rparr>"
  "assign_ipv6 lib nl s key = Some (s', r6) \<Longrightarrow> \<exists>p. s' = s\<lparr>sv_ip6_pool := p\<rparr>"
proof -
  assume "assign_ipv4 s key = Some (s', r)"
  then show "\<exists>p. s' = s\<lparr>sv_ip_pool := p\<rparr>"
    by (cases "sv_ip_pool s") (auto simp: assign_ipv4_def split: option.splits prod.splits intro: exI [of _ "sv_ip_pool s"])
next
  assume "assign_ipv6 lib nl s key = Some (s', r6)"
  then show "\<exists>p. s' = s\<lparr>sv_ip6_pool := p\<rparr>"
    by (cases "sv_ip6_pool s") (auto simp: assign_ipv6_def split: option.splits prod.splits intro: exI [of _ "sv_ip6_pool s"])
qed

lemma session_next_counter:
  assumes "session_next lib nl rjs addrs io key conn s ph = Some (s', ph')" and "counted ph \<longrightarrow> 0 < sv_active_connections s"
  shows "sv_max_clients s' = sv_max_clients s \<and>
    sv_active_connections s' + of_bool (counted ph) = sv_active_connections s + of_bool (counted ph') \<and>
    (admitted (sv_max_clients s) ph' \<longrightarrow> admitted (sv_max_clients s) ph \<or>
      \<not> counted ph \<and> sv_active_connections s < sv_max_clients s)"
  using assms
  by (cases ph)
    (auto simp: counted_def admitted_def dest!: assign_frame split: option.splits sum.splits if_splits prod.splits)

definition limit_inv :: "('n4, 'n6, 'e, 'c) server_run \<Rightarrow> bool" where
  "limit_inv st \<longleftrightarrow> (case st of (s, sessions) \<Rightarrow>
    sv_active_connections s = count counted sessions \<and>
    count (admitted (sv_max_clients s)) sessions \<le> sv_max_clients s)"

lemma server_step_limit: "server_step lib nl rjs overlap st st' \<Longrightarrow> limit_inv st \<Longrightarrow> limit_inv st'"
proof (induction rule: server_step.induct)
  case (arrive sessions key s conn)
  then show ?case by (simp add: limit_inv_def counted_def admitted_def)
next
  case (advance i sessions key conn ph addrs io s s' ph')
  let ?adm = "admitted (sv_max_clients s)"
  note upd = count_update [OF advance.hyps(1,2), of _ ph']
  have "0 < sv_active_connections s" if "counted ph"
    using advance.prems count_update [OF advance.hyps(1,2), of counted Arrived] that
    by (simp add: limit_inv_def counted_def [of Arrived])
  then have n: "sv_max_clients s' = sv_max_clients s"
    "sv_active_connections s' + of_bool (counted ph) = sv_active_connections s + of_bool (counted ph')"
    "?adm ph' \<Longrightarrow> ?adm ph \<or> \<not> counted ph \<and> sv_active_connections s < sv_max_clients s"
    using session_next_counter [OF advance.hyps(3)] by simp_all
  have le: "count ?adm sessions \<le> count counted sessions"
    by (rule count_mono) (auto simp: admitted_def counted_def split: phase.splits)
  show ?case
    using advance.prems n upd [of counted] upd [of ?adm] le
    by (cases "?adm ph'"; cases "?adm ph") (auto simp: limit_inv_def)
qed

lemma server_steps_limit: "(server_step lib nl rjs overlap)\<^sup>*\<^sup>* st st' \<Longrightarrow> limit_inv st \<Longrightarrow> limit_inv st'"
  by (induction rule: rtranclp_induct) (auto intro: server_step_limit)

lemma session_next_max:
  "session_next lib nl rjs addrs io key conn s ph = Some (s', ph') \<Longrightarrow> sv_max_clients s' = sv_max_clients s"
  by (cases ph) (auto dest!: assign_frame split: option.splits sum.splits if_splits)

lemma server_steps_max:
  "(server_step lib nl rjs overlap)\<^sup>*\<^sup>* st st' \<Longrightarrow> sv_max_clients (fst st') = sv_max_clients (fst st)"
proof (induction rule: rtranclp_induct)
  case (step y z)
  from step(2) have "sv_max_clients (fst z) = sv_max_clients (fst y)"
    by induction (simp_all add: session_next_max)
  then show ?case using step(3) by simp
qed simp

section \<open>Refinement of the lease protocol\<close>

text \<open>What a session holds of each family, as its phase shows it.\<close>

fun hold4 :: "('n4, 'n6) phase \<Rightarrow> 32 word hold" where
  "hold4 (Leased4 ip) = held ip"
| "hold4 (Leased ip ip6) = held ip"
| "hold4 (Responded ip ip6) = held ip"
| "hold4 (Numbered sid ip ip6) = held ip"
| "hold4 (Inserted sid ip ip6) = held ip"
| "hold4 (Published4 sid ip ip6) = published ip"
| "hold4 (Active sid ip ip6) = published ip"
| "hold4 (Ended sid ip ip6 r) = published ip"
| "hold4 (Removed ip ip6 rel4 rel6 r) = published ip"
| "hold4 (Withdrawn4 ip ip6 rel4 rel6 r) = held ip"
| "hold4 (Withdrawn ip ip6 rel4 rel6 r) = held ip"
| "hold4 _ = Free"

fun hold6 :: "('n4, 'n6) phase \<Rightarrow> 128 word hold" where
  "hold6 (Leased ip ip6) = held ip6"
| "hold6 (Responded ip ip6) = held ip6"
| "hold6 (Numbered sid ip ip6) = held ip6"
| "hold6 (Inserted sid ip ip6) = held ip6"
| "hold6 (Published4 sid ip ip6) = held ip6"
| "hold6 (Active sid ip ip6) = published ip6"
| "hold6 (Ended sid ip ip6 r) = published ip6"
| "hold6 (Removed ip ip6 rel4 rel6 r) = published ip6"
| "hold6 (Withdrawn4 ip ip6 rel4 rel6 r) = published ip6"
| "hold6 (Withdrawn ip ip6 rel4 rel6 r) = held ip6"
| "hold6 (Released4 ip6 rel6 r) = held ip6"
| "hold6 _ = Free"

definition lease4 :: "('n4, 'n6, 'e, 'c) vpn_server \<Rightarrow> 'e client_key \<rightharpoonup> 32 word" where
  "lease4 s = (case sv_ip_pool s of None \<Rightarrow> Map.empty | Some p \<Rightarrow> map_of (p4_in_use p))"

definition lease6 :: "('n4, 'n6, 'e, 'c) vpn_server \<Rightarrow> 'e client_key \<rightharpoonup> 128 word" where
  "lease6 s = (case sv_ip6_pool s of None \<Rightarrow> Map.empty | Some p \<Rightarrow> map_of (p6_in_use p))"

definition abs4 :: "('n4, 'n6, 'e, 'c) server_run \<Rightarrow> ('e client_key, 32 word) lease_state" where
  "abs4 st = (case st of (s, sessions) \<Rightarrow> \<lparr> ls_lease = lease4 s, ls_route = ip_to_endpoint (sv_owners s),
     ls_sessions = map (\<lambda>(key, conn, ph). (key, running ph, hold4 ph)) sessions \<rparr>)"

definition abs6 :: "('n4, 'n6, 'e, 'c) server_run \<Rightarrow> ('e client_key, 128 word) lease_state" where
  "abs6 st = (case st of (s, sessions) \<Rightarrow> \<lparr> ls_lease = lease6 s, ls_route = ip6_to_endpoint (sv_owners s),
     ls_sessions = map (\<lambda>(key, conn, ph). (key, running ph, hold6 ph)) sessions \<rparr>)"

text \<open>The pools are sound, and a session between its insertion and its removal finds its own entry
  in the client table.\<close>

definition pools_inv :: "('n4, 'n6) ipnet \<Rightarrow> 'e node_id_lib \<Rightarrow> ('n4, 'n6, 'e, 'c) vpn_server \<Rightarrow> bool" where
  "pools_inv lib nl s \<longleftrightarrow>
    (\<forall>p. sv_ip_pool s = Some p \<longrightarrow> pool4_inv p) \<and> (\<forall>p. sv_ip6_pool s = Some p \<longrightarrow> pool6_inv (ops6 lib) nl p)"

definition is_entry ::
  "'c client_state option \<Rightarrow> 64 word \<Rightarrow> 32 word option \<Rightarrow> 128 word option \<Rightarrow> 'c \<Rightarrow> bool" where
  "is_entry m sid ip ip6 conn \<longleftrightarrow> (\<exists>c. m = Some c \<and> cs_session_id c = sid \<and> cs_assigned_ip c = ip \<and>
     cs_assigned_ip6 c = ip6 \<and> cs_connection c = conn)"

fun entry_ok :: "'c client_state option \<Rightarrow> 'c \<Rightarrow> ('n4, 'n6) phase \<Rightarrow> bool" where
  "entry_ok m conn (Inserted sid ip ip6) = is_entry m sid ip ip6 conn"
| "entry_ok m conn (Published4 sid ip ip6) = is_entry m sid ip ip6 conn"
| "entry_ok m conn (Active sid ip ip6) = is_entry m sid ip ip6 conn"
| "entry_ok m conn (Ended sid ip ip6 r) = is_entry m sid ip ip6 conn"
| "entry_ok m conn _ = True"

lemma assign_ipv4_effect:
  assumes "pools_inv lib nl s" and "assign_ipv4 s key = Some (s', r)"
  shows "pools_inv lib nl s' \<and> sv_clients s' = sv_clients s \<and> sv_owners s' = sv_owners s \<and> lease6 s' = lease6 s \<and>
    (case r of Inr (Some a) \<Rightarrow> lease4 s' = (lease4 s)(key \<mapsto> a) \<and> (\<forall>k. k \<noteq> key \<longrightarrow> lease4 s k \<noteq> Some a)
     | _ \<Rightarrow> lease4 s' = lease4 s)"
proof (cases "sv_ip_pool s")
  case None
  then show ?thesis using assms by (auto simp: assign_ipv4_def)
next
  case (Some p)
  have inv: "pool4_inv p" using assms(1) Some by (simp add: pools_inv_def)
  obtain p' a where a: "ip_pool_allocate p key = Some (p', a)" using pool4.alloc_total [OF inv] by blast
  then show ?thesis
    using assms Some pool4.alloc_invar [OF inv a] pool4.alloc_lease [OF inv a] pool4.alloc_fresh [OF inv, of key p']
    by (cases a) (auto simp: assign_ipv4_def pools_inv_def lease4_def lease6_def split: if_splits)
qed

lemma assign_ipv6_effect:
  assumes "pools_inv lib nl s" and "assign_ipv6 lib nl s key = Some (s', r)"
  shows "pools_inv lib nl s' \<and> sv_clients s' = sv_clients s \<and> sv_owners s' = sv_owners s \<and> lease4 s' = lease4 s \<and>
    (case r of Inr (Some a) \<Rightarrow> lease6 s' = (lease6 s)(key \<mapsto> a) \<and> (\<forall>k. k \<noteq> key \<longrightarrow> lease6 s k \<noteq> Some a)
     | _ \<Rightarrow> lease6 s' = lease6 s)"
proof (cases "sv_ip6_pool s")
  case None
  then show ?thesis using assms by (auto simp: assign_ipv6_def)
next
  case (Some p)
  have inv: "pool6_inv (ops6 lib) nl p" using assms(1) Some by (simp add: pools_inv_def)
  obtain p' a where a: "ip6_pool_allocate (ops6 lib) nl p key = Some (p', a)" using pool6.alloc_total [OF inv] by blast
  then show ?thesis
    using assms Some pool6.alloc_invar [OF inv a] pool6.alloc_lease [OF inv a] pool6.alloc_fresh [OF inv, of key p']
    by (cases a) (auto simp: assign_ipv6_def pools_inv_def lease4_def lease6_def split: if_splits)
qed

lemma release_effect:
  assumes "pools_inv lib nl s"
  shows "pools_inv lib nl (s\<lparr>sv_ip_pool := map_option (\<lambda>p. ip_pool_release p key) (sv_ip_pool s)\<rparr>)"
    and "lease4 (s\<lparr>sv_ip_pool := map_option (\<lambda>p. ip_pool_release p key) (sv_ip_pool s)\<rparr>) = (lease4 s)(key := None)"
    and "pools_inv lib nl (s\<lparr>sv_ip6_pool := map_option (\<lambda>p. ip6_pool_release p key) (sv_ip6_pool s)\<rparr>)"
    and "lease6 (s\<lparr>sv_ip6_pool := map_option (\<lambda>p. ip6_pool_release p key) (sv_ip6_pool s)\<rparr>) = (lease6 s)(key := None)"
  using assms pool4.rel_invar pool4.rel_lease pool6.rel_invar [of "ops6 lib" nl _ key] pool6.rel_lease [of "ops6 lib" nl _ key]
  by (auto simp: pools_inv_def lease4_def lease6_def split: option.splits)

lemma lease_frame [simp]:
  "lease4 (s\<lparr>sv_clients := c\<rparr>) = lease4 s" "lease6 (s\<lparr>sv_clients := c\<rparr>) = lease6 s"
  "lease4 (s\<lparr>sv_owners := ow\<rparr>) = lease4 s" "lease6 (s\<lparr>sv_owners := ow\<rparr>) = lease6 s"
  "lease4 (s\<lparr>sv_active_connections := n\<rparr>) = lease4 s" "lease6 (s\<lparr>sv_active_connections := n\<rparr>) = lease6 s"
  "lease4 (s\<lparr>sv_next_session_id := x\<rparr>) = lease4 s" "lease6 (s\<lparr>sv_next_session_id := x\<rparr>) = lease6 s"
  "lease4 (s\<lparr>sv_ip6_pool := p6\<rparr>) = lease4 s" "lease6 (s\<lparr>sv_ip_pool := p4\<rparr>) = lease6 s"
  by (simp_all add: lease4_def lease6_def)

lemma hold_change_held:
  "hold_change k lease route (held ip) lease route True Free"
  "hold_change k lease route (held ip) (lease(k := None)) route True Free"
  by (simp_all add: hold_change.abandon hold_change.give_back)

lemma hold_change_publish:
  "hold_change k lease route (held ip) lease (case ip of None \<Rightarrow> route | Some a \<Rightarrow> route(a \<mapsto> k)) True (published ip)"
  by (cases ip) (simp_all add: held_def published_def hold_change.keep hold_change.publish)

lemma hold_change_withdraw:
  "hold_change k lease route (published ip) lease
    (case ip of None \<Rightarrow> route | Some a \<Rightarrow> if route a = Some k then route(a := None) else route) True (held ip)"
proof (cases ip)
  case (Some a)
  then show ?thesis
    using hold_change.withdraw [of k lease route a] by (cases "route a = Some k") (simp_all add: held_def published_def)
qed (simp add: held_def published_def hold_change.keep)

lemma hold_change_grant:
  "(case r of None \<Rightarrow> lease' = lease | Some a \<Rightarrow> lease' = lease(k \<mapsto> a) \<and> (\<forall>k'. k' \<noteq> k \<longrightarrow> lease k' \<noteq> Some a)) \<Longrightarrow>
    hold_change k lease route Free lease' route True (held r)"
  by (cases r) (simp_all add: held_def hold_change.keep hold_change.grant)

lemma unroute_tables:
  "ip_to_endpoint (unroute4 key ip ow) = (case ip of None \<Rightarrow> ip_to_endpoint ow
    | Some a \<Rightarrow> if ip_to_endpoint ow a = Some key then (ip_to_endpoint ow)(a := None) else ip_to_endpoint ow)"
  "ip6_to_endpoint (unroute4 key ip ow) = ip6_to_endpoint ow"
  "ip6_to_endpoint (unroute6 key ip6 ow) = (case ip6 of None \<Rightarrow> ip6_to_endpoint ow
    | Some a \<Rightarrow> if ip6_to_endpoint ow a = Some key then (ip6_to_endpoint ow)(a := None) else ip6_to_endpoint ow)"
  "ip_to_endpoint (unroute6 key ip6 ow) = ip_to_endpoint ow"
  by (simp_all add: unroute4_def unroute6_def split: option.split)

lemmas hold_changes = hold_change.keep hold_change.stop hold_change_held hold_change_publish hold_change_withdraw

text \<open>Each operation of a session is a step of the protocol for either family.\<close>

lemma session_next_hold4:
  assumes "pools_inv lib nl s" and "entry_ok (sv_clients s key) conn ph"
    and "session_next lib nl rjs addrs io key conn s ph = Some (s', ph')"
  shows "hold_change key (lease4 s) (ip_to_endpoint (sv_owners s)) (hold4 ph)
    (lease4 s') (ip_to_endpoint (sv_owners s')) (running ph') (hold4 ph')"
proof (cases ph)
  case Admitted
  then obtain r where r: "assign_ipv4 s key = Some (s', r)"
    and ph': "ph' = (case r of Inl e \<Rightarrow> Leaving (Inl e) | Inr ip \<Rightarrow> Leased4 ip)"
    using assms(3) by (auto split: option.splits sum.splits)
  from assign_ipv4_effect [OF assms(1) r] show ?thesis
    by (cases r) (auto simp: Admitted ph' running_def intro!: hold_change.keep hold_change_grant split: option.splits)
next
  case (Leased4 ip)
  then obtain r where r: "assign_ipv6 lib nl s key = Some (s', r)"
    and ph': "(\<exists>e. ph' = Leaving (Inl e)) \<or> (\<exists>ip6. ph' = Leased ip ip6)"
    using assms(3) by (auto split: option.splits sum.splits if_splits)
  from assign_ipv6_effect [OF assms(1) r] ph' show ?thesis by (auto simp: Leased4 running_def hold_changes)
next
  case (Inserted sid ip ip6)
  then show ?thesis
    using assms(3) hold_change_publish [of key "lease4 s" "ip_to_endpoint (sv_owners s)" ip]
    by (cases ip) (auto simp: running_def)
next
  case (Removed ip ip6 rel4 rel6 r)
  then show ?thesis using assms(3) by (auto simp: running_def unroute_tables intro: hold_change_withdraw)
next
  case (Withdrawn ip ip6 rel4 rel6 r)
  then show ?thesis
    using assms(3) release_effect(2) [OF assms(1), of key] by (cases rel4) (auto simp: running_def hold_changes)
next
  case (Ended sid ip ip6 r)
  then show ?thesis
    using assms(2,3) by (auto simp: running_def is_entry_def hold_change.keep)
qed (use assms(3) in \<open>auto simp: running_def unroute_tables hold_changes
      split: option.splits sum.splits if_splits\<close>)

lemma session_next_hold6:
  assumes "pools_inv lib nl s" and "entry_ok (sv_clients s key) conn ph"
    and "session_next lib nl rjs addrs io key conn s ph = Some (s', ph')"
  shows "hold_change key (lease6 s) (ip6_to_endpoint (sv_owners s)) (hold6 ph)
    (lease6 s') (ip6_to_endpoint (sv_owners s')) (running ph') (hold6 ph')"
proof (cases ph)
  case Admitted
  then obtain r where r: "assign_ipv4 s key = Some (s', r)"
    and ph': "ph' = (case r of Inl e \<Rightarrow> Leaving (Inl e) | Inr ip \<Rightarrow> Leased4 ip)"
    using assms(3) by (auto split: option.splits sum.splits)
  from assign_ipv4_effect [OF assms(1) r] show ?thesis
    by (cases r) (auto simp: Admitted ph' running_def hold_changes)
next
  case (Leased4 ip)
  then obtain r where r: "assign_ipv6 lib nl s key = Some (s', r)"
    and ph': "ph' = (case r of Inl e \<Rightarrow> Leaving (Inl e) | Inr ip6 \<Rightarrow>
      if ip = None \<and> ip6 = None then Leaving (Inl (IpAssignment ''All IP pools exhausted'')) else Leased ip ip6)"
    using assms(3) by (auto split: option.splits sum.splits if_splits)
  from assign_ipv6_effect [OF assms(1) r] show ?thesis
    by (cases r) (auto simp: Leased4 ph' running_def intro!: hold_change.keep hold_change_grant split: option.splits)
next
  case (Published4 sid ip ip6)
  then show ?thesis
    using assms(3) hold_change_publish [of key "lease6 s" "ip6_to_endpoint (sv_owners s)" ip6]
    by (cases ip6) (auto simp: running_def)
next
  case (Withdrawn4 ip ip6 rel4 rel6 r)
  then show ?thesis using assms(3) by (auto simp: running_def unroute_tables intro: hold_change_withdraw)
next
  case (Released4 ip6 rel6 r)
  then show ?thesis
    using assms(3) release_effect(4) [OF assms(1), of key] by (cases rel6) (auto simp: running_def hold_changes)
next
  case (Ended sid ip ip6 r)
  then show ?thesis
    using assms(2,3) by (auto simp: running_def is_entry_def hold_change.keep)
qed (use assms(3) in \<open>auto simp: running_def unroute_tables hold_changes
      split: option.splits sum.splits if_splits\<close>)

section \<open>Invariants of the interleaving\<close>

fun phase_ok :: "('n4, 'n6, 'e, 'c) vpn_server \<Rightarrow> ('n4, 'n6) phase \<Rightarrow> bool" where
  "phase_ok s (Leased4 ip) \<longleftrightarrow> (ip \<noteq> None \<longrightarrow> sv_ip_pool s \<noteq> None)"
| "phase_ok s (Leased ip ip6) \<longleftrightarrow> (ip \<noteq> None \<or> ip6 \<noteq> None) \<and>
    (ip \<noteq> None \<longrightarrow> sv_ip_pool s \<noteq> None) \<and> (ip6 \<noteq> None \<longrightarrow> sv_ip6_pool s \<noteq> None)"
| "phase_ok s _ \<longleftrightarrow> True"

text \<open>Which pools the server has never changes.\<close>

definition same_pools :: "('n4, 'n6, 'e, 'c) vpn_server \<Rightarrow> ('n4, 'n6, 'e, 'c) vpn_server \<Rightarrow> bool" where
  "same_pools s s' \<longleftrightarrow> (sv_ip_pool s' = None) = (sv_ip_pool s = None) \<and> (sv_ip6_pool s' = None) = (sv_ip6_pool s = None)"

lemma phase_ok_same_pools: "same_pools s s' \<Longrightarrow> phase_ok s' ph = phase_ok s ph"
  by (cases ph) (auto simp: same_pools_def)

lemma assign_pools:
  "assign_ipv4 s key = Some (s', r) \<Longrightarrow> same_pools s s' \<and> (\<forall>a. r = Inr (Some a) \<longrightarrow> sv_ip_pool s \<noteq> None)"
  "assign_ipv6 lib nl s key = Some (s', r6) \<Longrightarrow> same_pools s s' \<and> (\<forall>a. r6 = Inr (Some a) \<longrightarrow> sv_ip6_pool s \<noteq> None)"
  by (auto simp: assign_ipv4_def assign_ipv6_def same_pools_def split: option.splits prod.splits if_splits)

lemma pools_inv_frame [simp]:
  "pools_inv lib nl (s\<lparr>sv_clients := c\<rparr>) = pools_inv lib nl s"
  "pools_inv lib nl (s\<lparr>sv_owners := ow\<rparr>) = pools_inv lib nl s"
  "pools_inv lib nl (s\<lparr>sv_active_connections := n\<rparr>) = pools_inv lib nl s"
  "pools_inv lib nl (s\<lparr>sv_next_session_id := x\<rparr>) = pools_inv lib nl s"
  by (simp_all add: pools_inv_def)

lemma session_next_pools:
  assumes "session_next lib nl rjs addrs io key conn s ph = Some (s', ph')"
  shows "same_pools s s'" and "pools_inv lib nl s \<Longrightarrow> pools_inv lib nl s'" and "phase_ok s ph \<Longrightarrow> phase_ok s' ph'"
proof -
  show "same_pools s s'"
    using assms by (cases ph) (auto simp: same_pools_def dest!: assign_pools split: option.splits sum.splits if_splits)
  show "pools_inv lib nl s'" if "pools_inv lib nl s"
    using assms that release_effect(1,3) [OF that, of key]
    by (cases ph) (auto dest!: assign_ipv4_effect [OF that] assign_ipv6_effect [OF that]
        split: option.splits sum.splits if_splits)
  show "phase_ok s' ph'" if "phase_ok s ph"
    using assms that
    by (cases ph) (auto simp: same_pools_def dest!: assign_pools split: option.splits sum.splits if_splits)
qed

lemma session_next_clients:
  assumes "session_next lib nl rjs addrs io key conn s ph = Some (s', ph')"
  shows "k \<noteq> key \<Longrightarrow> sv_clients s' k = sv_clients s k"
    and "entry_ok (sv_clients s key) conn ph \<Longrightarrow> entry_ok (sv_clients s' key) conn ph'"
  using assms
  by (cases ph; auto simp: is_entry_def dest!: assign_frame split: option.splits sum.splits if_splits)+

definition pools_ok :: "('n4, 'n6) ipnet \<Rightarrow> 'e node_id_lib \<Rightarrow> ('n4, 'n6, 'e, 'c) server_run \<Rightarrow> bool" where
  "pools_ok lib nl st \<longleftrightarrow> (case st of (s, sessions) \<Rightarrow>
    pools_inv lib nl s \<and> (\<forall>(key, conn, ph) \<in> set sessions. phase_ok s ph))"

definition session_inv :: "('n4, 'n6) ipnet \<Rightarrow> 'e node_id_lib \<Rightarrow> ('n4, 'n6, 'e, 'c) server_run \<Rightarrow> bool" where
  "session_inv lib nl st \<longleftrightarrow> pools_ok lib nl st \<and> lease_inv (abs4 st) \<and> lease_inv (abs6 st) \<and>
    (case st of (s, sessions) \<Rightarrow> \<forall>(key, conn, ph) \<in> set sessions. entry_ok (sv_clients s key) conn ph)"

lemma server_step_pools: "server_step lib nl rjs overlap st st' \<Longrightarrow> pools_ok lib nl st \<Longrightarrow> pools_ok lib nl st'"
proof (induction rule: server_step.induct)
  case (advance i sessions key conn ph addrs io s s' ph')
  have pools: "pools_inv lib nl s" and phases: "\<forall>(key, conn, ph) \<in> set sessions. phase_ok s ph"
    using advance.prems by (simp_all add: pools_ok_def)
  have "phase_ok s ph" using bspec [OF phases nth_mem [OF advance.hyps(1)]] advance.hyps(2) by simp
  then have "phase_ok s' ph'" by (rule session_next_pools(3) [OF advance.hyps(3)])
  moreover have "\<forall>(key, conn, ph) \<in> set sessions. phase_ok s' ph"
    using phases by (simp add: phase_ok_same_pools [OF session_next_pools(1) [OF advance.hyps(3)]])
  ultimately have "\<forall>(key, conn, ph) \<in> set (sessions[i := (key, conn, ph')]). phase_ok s' ph"
    by (intro ballI) (auto dest!: set_update_subset_insert [THEN subsetD])
  then show ?case using session_next_pools(2) [OF advance.hyps(3) pools] by (simp add: pools_ok_def)
qed (auto simp: pools_ok_def)

lemma nth_update_map:
  "i < length sessions \<Longrightarrow>
    map (\<lambda>(key, conn, ph). (key, running ph, h ph)) (sessions[i := (key, conn, ph')]) =
    (map (\<lambda>(key, conn, ph). (key, running ph, h ph)) sessions)[i := (key, running ph', h ph')]"
  by (simp add: map_update)

lemma server_step_refines:
  assumes "server_step lib nl rjs False st st'" and "session_inv lib nl st"
  shows "lease_step (abs4 st) (abs4 st') \<and> lease_step (abs6 st) (abs6 st')"
  using assms
proof (induction rule: server_step.induct)
  case (arrive sessions key s conn)
  then have "\<forall>(k', live, h) \<in> set (ls_sessions (abs4 (s, sessions))). live \<longrightarrow> k' \<noteq> key"
    "\<forall>(k', live, h) \<in> set (ls_sessions (abs6 (s, sessions))). live \<longrightarrow> k' \<noteq> key"
    by (auto simp: abs4_def abs6_def)
  from lease_step.start [OF this(1)] lease_step.start [OF this(2)] show ?case
    by (simp add: abs4_def abs6_def running_def)
next
  case (advance i sessions key conn ph addrs io s s' ph')
  have run: "running ph" using advance.hyps(3) by (cases ph) (simp_all add: running_def)
  have pools: "pools_inv lib nl s" using advance.prems by (simp add: session_inv_def pools_ok_def)
  have "\<forall>(key, conn, ph) \<in> set sessions. entry_ok (sv_clients s key) conn ph"
    using advance.prems by (simp add: session_inv_def)
  then have entry: "entry_ok (sv_clients s key) conn ph"
    using nth_mem [OF advance.hyps(1)] advance.hyps(2) by fastforce
  show ?case
    using hold_change_step [OF session_next_hold4 [OF pools entry advance.hyps(3)], of i
        "map (\<lambda>(key, conn, ph). (key, running ph, hold4 ph)) sessions"]
      hold_change_step [OF session_next_hold6 [OF pools entry advance.hyps(3)], of i
        "map (\<lambda>(key, conn, ph). (key, running ph, hold6 ph)) sessions"]
      advance.hyps(1,2) run
    by (simp add: abs4_def abs6_def nth_update_map)
qed

lemma running_keys_distinct:
  assumes "lease_inv (abs4 (s, sessions))" and "i < length sessions" "j < length sessions"
    and "sessions ! i = (key, c, ph)" "sessions ! j = (key, c', ph')" and "running ph" "running ph'"
  shows "i = j"
  using lease_invD(2) [OF assms(1), of i j key "hold4 ph" "hold4 ph'"] assms(2-) by (simp add: abs4_def)

lemma entry_ok_over: "\<not> running ph \<Longrightarrow> entry_ok m conn ph"
  by (cases ph) (simp_all add: running_def)

lemma server_step_session_inv:
  assumes "server_step lib nl rjs False st st'" and inv: "session_inv lib nl st"
  shows "session_inv lib nl st'"
proof -
  have leases: "lease_inv (abs4 st')" "lease_inv (abs6 st')"
    using server_step_refines [OF assms] inv lease_step_inv by (auto simp: session_inv_def)
  have "case st' of (s, sessions) \<Rightarrow> \<forall>(key, conn, ph) \<in> set sessions. entry_ok (sv_clients s key) conn ph"
    using assms leases(1)
  proof (induction rule: server_step.induct)
    case (advance i sessions key conn ph addrs io s s' ph')
    have old: "entry_ok (sv_clients s k) c q" if "j < length sessions" "sessions ! j = (k, c, q)" for j k c q
      using advance.prems(1) nth_mem [OF that(1)] that(2) unfolding session_inv_def by fastforce
    have "entry_ok (sv_clients s' k) c q"
      if j: "j < length sessions" "sessions[i := (key, conn, ph')] ! j = (k, c, q)" for j k c q
    proof (cases "j = i")
      case True
      then show ?thesis
        using j session_next_clients(2) [OF advance.hyps(3) old [OF advance.hyps(1,2)]] by simp
    next
      case False
      then have jq: "sessions ! j = (k, c, q)" using j by simp
      have run: "running ph" using advance.hyps(3) by (cases ph) (simp_all add: running_def)
      have "k \<noteq> key" if "running q"
        using running_keys_distinct [of s sessions j i key c q conn ph] False j(1) jq advance.hyps(1,2) that run
          advance.prems(1) by (auto simp: session_inv_def)
      then show ?thesis
        using session_next_clients(1) [OF advance.hyps(3), of k] old [OF j(1) jq] entry_ok_over [of q] by metis
    qed
    then show ?case by (auto simp: in_set_conv_nth)
  qed (auto simp: session_inv_def)
  then show ?thesis
    using leases server_step_pools [OF assms(1)] inv by (simp add: session_inv_def)
qed

lemma server_steps_session_inv:
  "(server_step lib nl rjs False)\<^sup>*\<^sup>* st st' \<Longrightarrow> session_inv lib nl st \<Longrightarrow>
    session_inv lib nl st' \<and> lease_step\<^sup>*\<^sup>* (abs4 st) (abs4 st') \<and> lease_step\<^sup>*\<^sup>* (abs6 st) (abs6 st')"
proof (induction rule: rtranclp_induct)
  case (step y z)
  then show ?case
    using server_step_session_inv [of lib nl rjs y z] server_step_refines [of lib nl rjs y z]
    by (auto intro: rtranclp.rtrancl_into_rtrancl)
qed simp

text \<open>An IPv4 network with room for clients, and a server address other than its broadcast address.\<close>

definition usable_config :: "('n4, 'n6) ipnet \<Rightarrow> ('n4, 'n6, 'keys) vpn_server_config \<Rightarrow> bool" where
  "usable_config lib config \<longleftrightarrow> (\<forall>net. sc_network config = Some net \<longrightarrow>
    prefix_len (ops4 lib) net \<le> 30 \<and> sc_server_ip config \<noteq> Some (broadcast (ops4 lib) net))"

lemma ip6_pool_new_empty: "ip6_pool_new lib nl net server_ip strategy sid = Some (Inr p) \<Longrightarrow> p6_in_use p = []"
  by (auto simp: ip6_pool_new_def Let_def split: if_splits sum.splits ip6_strategy.splits option.splits)

lemma vpn_server_newE:
  fixes lib :: "('n4, 'n6) ipnet" and s :: "('n4, 'n6, 'e, 'c) vpn_server"
  assumes "vpn_server_new lib nl lock config sid = Some (Inr s)"
  obtains pool4 pool6 where "server_config_validate lib config = Inr ()"
    and "(case sc_network config of None \<Rightarrow> Some None
      | Some net \<Rightarrow> map_option Some (ip_pool_new (ops4 lib) net (sc_server_ip config))) = Some pool4"
    and "(case sc_network6 config of None \<Rightarrow> Some (Inr None)
      | Some net6 \<Rightarrow> map_option (map_sum id Some)
          (ip6_pool_new lib nl net6 (sc_server_ip6 config) (sc_ip6_strategy config) sid)) = Some (Inr pool6)"
    and "s = \<lparr> sv_max_clients = sc_max_clients config, sv_ip_pool = pool4, sv_ip6_pool = pool6,
        sv_clients = Map.empty, sv_owners = \<lparr> ip_to_endpoint = Map.empty, ip6_to_endpoint = Map.empty \<rparr>,
        sv_active_connections = 0, sv_next_session_id = 1 \<rparr>"
proof -
  obtain u v where uv: "server_config_validate lib config = Inr u" "lock = Inr v"
    using assms by (auto simp: vpn_server_new_def split: sum.splits)
  obtain pool4 r where
    4: "(case sc_network config of None \<Rightarrow> Some None
      | Some net \<Rightarrow> map_option Some (ip_pool_new (ops4 lib) net (sc_server_ip config))) = Some pool4"
    and 6: "(case sc_network6 config of None \<Rightarrow> Some (Inr None)
      | Some net6 \<Rightarrow> map_option (map_sum id Some)
          (ip6_pool_new lib nl net6 (sc_server_ip6 config) (sc_ip6_strategy config) sid)) = Some r"
    and r: "(case r of Inl e \<Rightarrow> Inl (BadConfig e)
      | Inr pool6 \<Rightarrow> Inr \<lparr> sv_max_clients = sc_max_clients config, sv_ip_pool = pool4, sv_ip6_pool = pool6,
          sv_clients = Map.empty, sv_owners = \<lparr> ip_to_endpoint = Map.empty, ip6_to_endpoint = Map.empty \<rparr>,
          sv_active_connections = 0, sv_next_session_id = 1 \<rparr>) = (Inr s :: ('n4, 'n6) server_error + _)"
    using assms unfolding vpn_server_new_def uv sum.case bind_eq_Some_conv option.inject by blast
  from r obtain pool6 where pool6: "r = Inr pool6"
    "s = \<lparr> sv_max_clients = sc_max_clients config, sv_ip_pool = pool4, sv_ip6_pool = pool6,
        sv_clients = Map.empty, sv_owners = \<lparr> ip_to_endpoint = Map.empty, ip6_to_endpoint = Map.empty \<rparr>,
        sv_active_connections = 0, sv_next_session_id = 1 \<rparr>" by (cases r) auto
  show thesis by (rule that [OF _ 4 6 [unfolded pool6(1)] pool6(2)]) (use uv(1) in simp)
qed

lemma vpn_server_new_cases:
  assumes "vpn_server_new lib nl lock config sid = Some (Inr s)"
  shows "server_config_validate lib config = Inr ()" and "sv_max_clients s = sc_max_clients config"
    and "sv_active_connections s = 0"
    and "sv_owners s = \<lparr> ip_to_endpoint = Map.empty, ip6_to_endpoint = Map.empty \<rparr>"
    and "sv_ip_pool s = Some p \<Longrightarrow> \<exists>net. sc_network config = Some net \<and>
      ip_pool_new (ops4 lib) net (sc_server_ip config) = Some p"
    and "sv_ip6_pool s = Some q \<Longrightarrow> \<exists>net. sc_network6 config = Some net \<and>
      ip6_pool_new lib nl net (sc_server_ip6 config) (sc_ip6_strategy config) sid = Some (Inr q)"
proof -
  from assms obtain pool4 pool6 where *: "server_config_validate lib config = Inr ()"
    "(case sc_network config of None \<Rightarrow> Some None
      | Some net \<Rightarrow> map_option Some (ip_pool_new (ops4 lib) net (sc_server_ip config))) = Some pool4"
    "(case sc_network6 config of None \<Rightarrow> Some (Inr None)
      | Some net6 \<Rightarrow> map_option (map_sum id Some)
          (ip6_pool_new lib nl net6 (sc_server_ip6 config) (sc_ip6_strategy config) sid)) = Some (Inr pool6)"
    "s = \<lparr> sv_max_clients = sc_max_clients config, sv_ip_pool = pool4, sv_ip6_pool = pool6,
        sv_clients = Map.empty, sv_owners = \<lparr> ip_to_endpoint = Map.empty, ip6_to_endpoint = Map.empty \<rparr>,
        sv_active_connections = 0, sv_next_session_id = 1 \<rparr>"
    by (rule vpn_server_newE)
  then show "server_config_validate lib config = Inr ()" "sv_max_clients s = sc_max_clients config"
    "sv_active_connections s = 0" "sv_owners s = \<lparr> ip_to_endpoint = Map.empty, ip6_to_endpoint = Map.empty \<rparr>"
    by simp_all
  show "\<exists>net. sc_network config = Some net \<and> ip_pool_new (ops4 lib) net (sc_server_ip config) = Some p"
    if "sv_ip_pool s = Some p" using *(2,4) that by (auto split: option.splits)
  show "\<exists>net. sc_network6 config = Some net \<and>
      ip6_pool_new lib nl net (sc_server_ip6 config) (sc_ip6_strategy config) sid = Some (Inr q)"
    if "sv_ip6_pool s = Some q"
  proof -
    have "z = Inr q" if "map_sum id Some z = (Inr (Some q) :: config_error + _)" for z
      using that by (cases z) auto
    then show ?thesis using *(3,4) that by (cases "sc_network6 config") auto
  qed
qed

lemma vpn_server_new_inv:
  fixes s :: "('n4, 'n6, 'e, 'c) vpn_server"
  assumes "lawful_ipnet lib" and "vpn_server_new lib nl lock config sid = Some (Inr s)" and "usable_config lib config"
  shows "session_inv lib nl (s, [])" and "limit_inv (s, [])" and "pools_ok lib nl (s, [])"
proof -
  note new = vpn_server_new_cases [OF assms(2)]
  have laws: "lawful_net (ops4 lib)" "lawful_net (ops6 lib)" using assms(1) by (simp_all add: lawful_ipnet_def)
  have valid: "\<forall>ip. sc_server_ip config = Some ip \<longrightarrow> (\<exists>n. sc_network config = Some n \<and> contains (ops4 lib) n ip)"
    "\<forall>ip. sc_server_ip6 config = Some ip \<longrightarrow> (\<exists>n. sc_network6 config = Some n \<and> contains (ops6 lib) n ip)"
    using new(1) unfolding server_config_validate_def validate_vpn_networks_Inr by blast+
  have p4: "pool4_inv p \<and> p4_in_use p = []" if p: "sv_ip_pool s = Some p" for p
  proof -
    obtain net where net: "sc_network config = Some net" "ip_pool_new (ops4 lib) net (sc_server_ip config) = Some p"
      using new(5) [OF p] by blast
    have len: "prefix_len (ops4 lib) net \<le> 30" using assms(3) net(1) by (simp add: usable_config_def)
    have srv: "case sc_server_ip config of None \<Rightarrow> True
        | Some ip \<Rightarrow> contains (ops4 lib) net ip \<and> ip \<noteq> broadcast (ops4 lib) net"
      using valid(1) assms(3) net(1) by (auto simp: usable_config_def split: option.split)
    obtain p' where "ip_pool_new (ops4 lib) net (sc_server_ip config) = Some p'"
      "pool4_inv (p' :: ('n4, 'e client_key) ip_pool)"
      by (rule ip_pool_new_ok [OF laws(1) len srv]) (rule that)
    then have "pool4_inv p" using net(2) by simp
    moreover have "p4_in_use p = []"
      using net(2) by (auto simp: ip_pool_new_def Let_def split: option.splits)
    ultimately show ?thesis ..
  qed
  have p6: "pool6_inv (ops6 lib) nl p \<and> p6_in_use p = []" if p: "sv_ip6_pool s = Some p" for p
  proof -
    obtain net where net: "sc_network6 config = Some net"
      "ip6_pool_new lib nl net (sc_server_ip6 config) (sc_ip6_strategy config) sid = Some (Inr p)"
      using new(6) [OF p] by blast
    have "\<forall>ip. sc_server_ip6 config = Some ip \<longrightarrow> contains (ops6 lib) net ip" using valid(2) net(1) by auto
    from ip6_pool_new_built(1) [OF laws(2) net(2) this] ip6_pool_new_empty [OF net(2)] show ?thesis by simp
  qed
  show pools: "pools_ok lib nl (s, [])" using p4 p6 by (simp add: pools_ok_def pools_inv_def)
  have "lease4 s = Map.empty" "lease6 s = Map.empty"
    using p4 p6 by (auto simp: lease4_def lease6_def split: option.splits)
  then show "session_inv lib nl (s, [])"
    using pools new(4) by (simp add: session_inv_def abs4_def abs6_def lease_inv_def)
  show "limit_inv (s, [])" using new(3) by (simp add: limit_inv_def count_def)
qed

section \<open>Properties\<close>

text \<open>C21. However connections interleave, reconnects of the same client included, the server
  never has more sessions past the admission check than the configured maximum, and the connection
  counter is always the number of sessions that have counted themselves and not yet left, so
  it never underflows and is back at zero when all have left.\<close>

theorem connection_limit:
  assumes "lawful_ipnet lib" and "vpn_server_new lib nl lock config sid = Some (Inr s0)" and "usable_config lib config"
    and "(server_step lib nl rjs overlap)\<^sup>*\<^sup>* (s0, []) (s, sessions)"
  shows "count (\<lambda>ph. counted ph \<and> ph \<noteq> Refused \<and> (\<forall>prev. ph \<noteq> Counted prev)) sessions \<le> sc_max_clients config \<and>
    sv_active_connections s = count counted sessions"
proof -
  have lim: "limit_inv (s, sessions)"
    by (rule server_steps_limit [OF assms(4) vpn_server_new_inv(2) [OF assms(1-3)]])
  have "sv_max_clients s = sv_max_clients s0" using server_steps_max [OF assms(4)] by simp
  then have mx: "sv_max_clients s = sc_max_clients config" using vpn_server_new_cases(2) [OF assms(2)] by simp
  have "count (\<lambda>ph. counted ph \<and> ph \<noteq> Refused \<and> (\<forall>prev. ph \<noteq> Counted prev)) sessions \<le>
      count (admitted (sv_max_clients s)) sessions"
    by (rule count_mono) (auto simp: counted_def admitted_def split: phase.splits)
  then show ?thesis using lim mx by (simp add: limit_inv_def)
qed



section \<open>Concrete schedules\<close>

text \<open>A schedule says who arrives and which session moves; every awaited operation succeeds.\<close>

datatype ('e, 'c) event = Connect "'e client_key" 'c | Step nat

fun run_schedule ::
  "('n4, 'n6) ipnet \<Rightarrow> 'e node_id_lib \<Rightarrow> ('n4, 'n6) handshake_response json \<Rightarrow> bool \<Rightarrow> ('e, 'c) event list \<Rightarrow>
     ('n4, 'n6, 'e, 'c) server_run \<Rightarrow> ('n4, 'n6, 'e, 'c) server_run option" where
  "run_schedule lib nl rjs overlap [] st = Some st"
| "run_schedule lib nl rjs overlap (Connect key conn # es) (s, sessions) =
    (if overlap \<or> list_all (\<lambda>(key', conn', ph). running ph \<longrightarrow> key' \<noteq> key) sessions
     then run_schedule lib nl rjs overlap es (s, sessions @ [(key, conn, Arrived)]) else None)"
| "run_schedule lib nl rjs overlap (Step i # es) (s, sessions) =
    (if i < length sessions then
       case sessions ! i of (key, conn, ph) \<Rightarrow>
         (case session_next lib nl rjs [] (Inr ()) key conn s ph of
            None \<Rightarrow> None
          | Some (s', ph') \<Rightarrow> run_schedule lib nl rjs overlap es (s', sessions[i := (key, conn, ph')]))
     else None)"

lemma run_schedule_steps:
  "run_schedule lib nl rjs overlap es st = Some st' \<Longrightarrow> (server_step lib nl rjs overlap)\<^sup>*\<^sup>* st st'"
proof (induction lib nl rjs overlap es st rule: run_schedule.induct)
  case (2 lib nl rjs overlap key conn es s sessions)
  then have ok: "overlap \<or> (\<forall>(key', conn', ph) \<in> set sessions. running ph \<longrightarrow> key' \<noteq> key)"
    and rest: "run_schedule lib nl rjs overlap es (s, sessions @ [(key, conn, Arrived)]) = Some st'"
    by (auto simp: list_all_iff split: if_splits)
  have "(server_step lib nl rjs overlap)\<^sup>*\<^sup>* (s, sessions @ [(key, conn, Arrived)]) st'"
    using 2 rest by (simp split: if_splits)
  with server_step.arrive [OF ok] show ?case by (rule converse_rtranclp_into_rtranclp)
next
  case (3 lib nl rjs overlap i es s sessions)
  then obtain key conn ph s' ph' where i: "i < length sessions" "sessions ! i = (key, conn, ph)"
    and next': "session_next lib nl rjs [] (Inr ()) key conn s ph = Some (s', ph')"
    and rest: "run_schedule lib nl rjs overlap es (s', sessions[i := (key, conn, ph')]) = Some st'"
    by (auto split: if_splits option.splits prod.splits)
  have "(server_step lib nl rjs overlap)\<^sup>*\<^sup>* (s', sessions[i := (key, conn, ph')]) st'"
    using 3(1) [OF i(1) i(2) [symmetric] refl next' refl rest] .
  with server_step.advance [OF i next'] show ?case by (rule converse_rtranclp_into_rtranclp)
qed simp

definition sample_config :: "(32 word \<times> nat, 128 word \<times> nat, unit) vpn_server_config" where
  "sample_config = \<lparr> sc_network = Some (0x0A000000, 24), sc_network6 = None, sc_server_ip = Some 0x0A000001,
     sc_server_ip6 = None, sc_ip6_strategy = Sequential, sc_max_clients = 5, sc_authorized_keys = () \<rparr>"

definition sample_json :: "(32 word \<times> nat, 128 word \<times> nat) handshake_response json" where
  "sample_json = \<lparr> to_vec = (\<lambda>_. Some []), from_slice = (\<lambda>_. None) \<rparr>"

definition sample_server :: "(32 word \<times> nat, 128 word \<times> nat, nat, unit) vpn_server" where
  "sample_server = \<lparr> sv_max_clients = 5, sv_ip_pool = Some \<lparr> p4_network = (0x0A000000, 24),
       p4_server_ip = 0x0A000001, p4_next_ip = 0x0A000002, p4_max_ip = 0x0A0000FE, p4_in_use = [], p4_released = [],
       p4_reserved = {} \<rparr>,
     sv_ip6_pool = None, sv_clients = Map.empty,
     sv_owners = \<lparr> ip_to_endpoint = Map.empty, ip6_to_endpoint = Map.empty \<rparr>, sv_active_connections = 0,
     sv_next_session_id = 1 \<rparr>"

lemma sample_server_new:
  "vpn_server_new cidr_ipnet sample_node_lib (Inr ()) sample_config 0 = Some (Inr sample_server)"
  by (simp add: vpn_server_new_def server_config_validate_def validate_vpn_networks_def validate_ip6_strategy_def
      sample_config_def cidr_ipnet_def cidr_net_def mask_eq_exp_minus_1 ip_pool_new_def checked_add_def checked_sub_def
      sample_server_def)

lemma sample_config_usable: "usable_config cidr_ipnet sample_config"
  by (simp add: usable_config_def sample_config_def cidr_ipnet_def cidr_net_def mask_eq_exp_minus_1)

lemma sample_evaluation:
  "p4_reserved p = {} \<Longrightarrow> p4_next_ip p = 0x0A000002 \<Longrightarrow> p4_max_ip p = 0x0A0000FE \<Longrightarrow>
    next_unreserved_ip p = Some (p\<lparr>p4_next_ip := 0x0A000003\<rparr>, Some 0x0A000002)"
  "pop_released {} [] = ([], None)" "pop_released {} [a] = ([], Some a)"
  "host_net4 (ops4 cidr_ipnet) 0x0A000001 = Some (0x0A000001, 32)"
  by (subst next_unreserved_ip.simps, simp add: checked_add_def Let_def)
    (simp_all add: pop_released.simps host_net4_def cidr_ipnet_def cidr_net_def)

lemmas evaluate_schedule = sample_server_def sample_json_def sample_evaluation assign_ipv4_def assign_ipv6_def
  ip_pool_allocate_def ip_pool_release_def respond_def build_response_def response_encode_def with_server_addrs_def
  accepted_def is_valid_def unroute4_def unroute6_def running_def

text \<open>The client of key \<open>(7, 0)\<close> is active, comes back and has its address assigned again; its old
  session then ends and releases that address before the new one has entered itself in the client
  table; a second client gets the address.\<close>

definition reconnect_schedule :: "(nat, unit) event list" where
  "reconnect_schedule =
    [Connect (7, 0) (), Step 0, Step 0, Step 0, Step 0, Step 0, Step 0, Step 0, Step 0, Step 0,
     Connect (7, 0) (), Step 1, Step 1, Step 1, Step 1,
     Step 0, Step 0, Step 0, Step 0, Step 0, Step 0, Step 0,
     Step 1, Step 1, Step 1, Step 1, Step 1,
     Connect (8, 0) (), Step 2, Step 2, Step 2, Step 2, Step 2, Step 2, Step 2, Step 2, Step 2]"

text \<open>Without the condition the exclusive use of addresses fails: a reconnect that overtakes the
  cleanup of the previous session leaves two clients active with the same address.\<close>

theorem reconnect_race:
  "\<exists>s sessions. vpn_server_new cidr_ipnet sample_node_lib (Inr ()) sample_config 0 = Some (Inr sample_server) \<and>
    (server_step cidr_ipnet sample_node_lib sample_json True)\<^sup>*\<^sup>* (sample_server, []) (s, sessions) \<and>
    map (\<lambda>(key, conn, ph). (key, ph)) (tl sessions) =
      [((7, 0), Active 2 (Some 0x0A000002) None), ((8, 0), Active 3 (Some 0x0A000002) None)]"
proof -
  have "case run_schedule cidr_ipnet sample_node_lib sample_json True reconnect_schedule (sample_server, []) of
      None \<Rightarrow> False
    | Some (s, sessions) \<Rightarrow> map (\<lambda>(key, conn, ph). (key, ph)) (tl sessions) =
        [((7, 0), Active 2 (Some 0x0A000002) None), ((8, 0), Active 3 (Some 0x0A000002) None)]"
    by (simp add: reconnect_schedule_def evaluate_schedule)
  then show ?thesis
    using run_schedule_steps sample_server_new by (fastforce split: option.splits)
qed

text \<open>A response that cannot be sent ends the session without giving its leases back.\<close>

lemma failed_response_keeps_leases:
  assumes "respond lib rjs addrs io s ip ip6 = Some (Inl e)"
  shows "\<exists>s'. session_next lib nl rjs addrs io key conn s (Leased ip ip6) = Some (s, Leaving (Inl e)) \<and>
    session_next lib nl rjs addrs io key conn s (Leaving (Inl e)) = Some (s', Done (Inl e)) \<and>
    lease4 s' = lease4 s \<and> lease6 s' = lease6 s"
  using assms by simp

text \<open>Two clients active at the same time.\<close>

definition two_clients :: "(nat, unit) event list" where
  "two_clients = [Connect (7, 0) (), Step 0, Step 0, Step 0, Step 0, Step 0, Step 0, Step 0, Step 0, Step 0,
     Connect (8, 0) (), Step 1]"

lemma two_clients_run:
  "\<exists>s. (server_step cidr_ipnet sample_node_lib sample_json False)\<^sup>*\<^sup>* (sample_server, [])
    (s, [((7, 0), (), Active 1 (Some 0x0A000002) None), ((8, 0), (), Counted 1)])"
proof -
  have "case run_schedule cidr_ipnet sample_node_lib sample_json False two_clients (sample_server, []) of
      None \<Rightarrow> False
    | Some (s, sessions) \<Rightarrow> sessions = [((7, 0), (), Active 1 (Some 0x0A000002) None), ((8, 0), (), Counted 1)]"
    by (simp add: two_clients_def evaluate_schedule)
  then show ?thesis using run_schedule_steps by (fastforce split: option.splits)
qed

theorem connection_limit_witness:
  "\<exists>s. (server_step cidr_ipnet sample_node_lib sample_json False)\<^sup>*\<^sup>* (sample_server, [])
      (s, [((7, 0), (), Active 1 (Some 0x0A000002) None), ((8, 0), (), Counted 1)]) \<and> sv_active_connections s = 2"
proof -
  obtain s where run: "(server_step cidr_ipnet sample_node_lib sample_json False)\<^sup>*\<^sup>* (sample_server, [])
      (s, [((7, 0), (), Active 1 (Some 0x0A000002) None), ((8, 0), (), Counted 1)])" using two_clients_run by blast
  with connection_limit [OF lawful_cidr_ipnet sample_server_new sample_config_usable run] show ?thesis
    by (auto simp: count_def counted_def)
qed



section \<open>Sessions finish\<close>

text \<open>How many operations a session has at most before it.\<close>

primrec remaining :: "('n4, 'n6) phase \<Rightarrow> nat" where
  "remaining Arrived = 17"
| "remaining (Counted _) = 16"
| "remaining Refused = 1"
| "remaining Admitted = 15"
| "remaining (Leased4 _) = 14"
| "remaining (Leased _ _) = 13"
| "remaining (Responded _ _) = 12"
| "remaining (Numbered _ _ _) = 11"
| "remaining (Inserted _ _ _) = 10"
| "remaining (Published4 _ _ _) = 9"
| "remaining (Active _ _ _) = 8"
| "remaining (Ended _ _ _ _) = 7"
| "remaining (Removed _ _ _ _ _) = 6"
| "remaining (Withdrawn4 _ _ _ _ _) = 5"
| "remaining (Withdrawn _ _ _ _ _) = 4"
| "remaining (Released4 _ _ _) = 3"
| "remaining (Leaving _) = 2"
| "remaining (Done _) = 0"

lemma assign_total:
  assumes "pools_inv lib nl s"
  shows "assign_ipv4 s key \<noteq> None" and "assign_ipv6 lib nl s key \<noteq> None"
proof -
  show "assign_ipv4 s key \<noteq> None"
  proof (cases "sv_ip_pool s")
    case (Some p)
    then have "pool4_inv p" using assms by (simp add: pools_inv_def)
    from pool4.alloc_total [OF this, of key] Some show ?thesis by (auto simp: assign_ipv4_def split: option.split)
  qed (simp add: assign_ipv4_def)
  show "assign_ipv6 lib nl s key \<noteq> None"
  proof (cases "sv_ip6_pool s")
    case (Some p)
    then have "pool6_inv (ops6 lib) nl p" using assms by (simp add: pools_inv_def)
    from pool6.alloc_total [OF this, of key] Some show ?thesis by (auto simp: assign_ipv6_def split: option.split)
  qed (simp add: assign_ipv6_def)
qed

lemma server_steps_pools:
  "(server_step lib nl rjs overlap)\<^sup>*\<^sup>* st st' \<Longrightarrow> pools_ok lib nl st \<Longrightarrow> pools_ok lib nl st'"
  by (induction rule: rtranclp_induct) (auto intro: server_step_pools)

lemma session_next_enabled:
  assumes "lawful_ipnet lib" and "pools_inv lib nl s" and "phase_ok s ph" and "running ph"
  shows "\<exists>s' ph'. session_next lib nl rjs addrs io key conn s ph = Some (s', ph')"
proof (cases ph)
  case (Leased ip ip6)
  then obtain r where "build_response lib (sv_ip_pool s) (sv_ip6_pool s) ip ip6 = Some r"
    using build_response_info [OF assms(1), of ip ip6 "sv_ip_pool s" "sv_ip6_pool s"] assms(3) by auto
  then show ?thesis using Leased by (auto simp: respond_def split: sum.split)
next
  case Admitted
  then show ?thesis using assign_total(1) [OF assms(2), of key] by (auto split: sum.split)
next
  case (Leased4 ip)
  then show ?thesis using assign_total(2) [OF assms(2), of key] by (auto split: sum.split)
qed (use assms(4) in \<open>auto simp: running_def\<close>)

lemma session_next_remaining:
  "session_next lib nl rjs addrs io key conn s ph = Some (s', ph') \<Longrightarrow> remaining ph' < remaining ph"
  by (cases ph) (auto split: option.splits sum.splits if_splits)

text \<open>C20. No session is ever stuck or panics: in every reachable state, whatever the other
  sessions have done, a session that is not over can take its next operation as soon as what it
  awaits completes, with success or with an error, and each operation brings it closer to its end,
  which it reaches after at most seventeen operations of its own.\<close>

theorem sessions_progress:
  assumes "lawful_ipnet lib" and "vpn_server_new lib nl lock config sid = Some (Inr s0)" and "usable_config lib config"
    and "(server_step lib nl rjs overlap)\<^sup>*\<^sup>* (s0, []) (s, sessions)"
    and "(key, conn, ph) \<in> set sessions" and "running ph"
  shows "\<exists>s' ph'. session_next lib nl rjs addrs io key conn s ph = Some (s', ph') \<and>
    remaining ph' < remaining ph \<and> remaining ph \<le> 17"
proof -
  have ok: "pools_ok lib nl (s, sessions)"
    by (rule server_steps_pools [OF assms(4) vpn_server_new_inv(3) [OF assms(1-3)]])
  then have now: "pools_inv lib nl s" "phase_ok s ph" using assms(5) by (auto simp: pools_ok_def)
  obtain s' ph' where n: "session_next lib nl rjs addrs io key conn s ph = Some (s', ph')"
    using session_next_enabled [OF assms(1) now assms(6), of rjs addrs io key conn] by blast
  moreover have "remaining ph \<le> 17" by (cases ph) simp_all
  ultimately show ?thesis using session_next_remaining [OF n] by blast
qed

theorem sessions_progress_witness:
  "\<exists>s s' ph'. (server_step cidr_ipnet sample_node_lib sample_json False)\<^sup>*\<^sup>* (sample_server, [])
      (s, [((7, 0), (), Active 1 (Some 0x0A000002) None), ((8, 0), (), Counted 1)]) \<and>
    session_next cidr_ipnet sample_node_lib sample_json [] (Inr ()) (8, 0) () s (Counted 1) = Some (s', ph') \<and>
    remaining ph' < 16"
proof -
  obtain s where run: "(server_step cidr_ipnet sample_node_lib sample_json False)\<^sup>*\<^sup>* (sample_server, [])
      (s, [((7, 0), (), Active 1 (Some 0x0A000002) None), ((8, 0), (), Counted 1)])" using two_clients_run by blast
  from sessions_progress [OF lawful_cidr_ipnet sample_server_new sample_config_usable run, of "(8, 0)" "()" "Counted 1"
      "[]" "Inr ()"] run
  show ?thesis by (auto simp: running_def)
qed

end
