(* ===== verification/Path_Selector.thy ===== *)
theory Path_Selector
  imports Ip_Net "HOL-Library.Product_Lexorder"
begin

unbundle bit_operations_syntax

text \<open>
  The client's path selector (\<open>transport/path_selector.rs\<close>).  A network path is \<open>iroh\<close>'s
  \<open>FourTuple\<close>; the two methods the selector calls on it are a record of operations.  A round
  trip time is its number of nanoseconds, which a \<open>Duration\<close> keeps below \<open>2^94\<close>, so the
  \<open>i128\<close> arithmetic is that of the integers.
\<close>

section \<open>The selector\<close>

datatype path_remote = Ip ip_addr "16 word" | OtherRemote

record 'p path_ops =
  remote :: "'p \<Rightarrow> path_remote"
  is_relay :: "'p \<Rightarrow> bool"

definition IPV6_RTT_ADVANTAGE :: int where "IPV6_RTT_ADVANTAGE = 3 * 1000000"
definition RTT_SWITCHING_MIN :: int where "RTT_SWITCHING_MIN = 5 * 1000000"

record ('n4, 'n6) path_selector =
  excluded :: "('n4, 'n6) ip_net list"

text \<open>\<open>IpAddr::to_canonical\<close>: an IPv4-mapped IPv6 address is the IPv4 address.\<close>

definition to_canonical :: "ip_addr \<Rightarrow> ip_addr" where
  "to_canonical ip =
    (case ip of V4 a \<Rightarrow> V4 a | V6 a \<Rightarrow> if drop_bit 32 a = 0xFFFF then V4 (ucast a) else V6 a)"

definition is_excluded :: "('n4, 'n6) ipnet \<Rightarrow> 'p path_ops \<Rightarrow> ('n4, 'n6) path_selector \<Rightarrow> 'p \<Rightarrow> bool" where
  "is_excluded lib po sel path =
    (case remote po path of
       Ip addr port \<Rightarrow>
         let ip = to_canonical addr in list_ex (\<lambda>net. contains (opsx lib) net ip) (excluded sel)
     | OtherRemote \<Rightarrow> False)"

definition path_sort_key :: "'p path_ops \<Rightarrow> 'p \<Rightarrow> nat \<Rightarrow> bool \<times> int" where
  "path_sort_key po path rtt =
    (let biased = int rtt;
         biased = (case remote po path of Ip (V6 _) _ \<Rightarrow> biased - IPV6_RTT_ADVANTAGE | _ \<Rightarrow> biased) in
     (is_relay po path, biased))"

text \<open>The loop over the candidates keeps the best index with its key, and the best key of the
  current path.\<close>

definition choose_step ::
  "('n4, 'n6) ipnet \<Rightarrow> 'p path_ops \<Rightarrow> ('n4, 'n6) path_selector \<Rightarrow> 'p option \<Rightarrow> nat \<times> 'p \<times> nat \<Rightarrow>
     (nat \<times> bool \<times> int) option \<times> (bool \<times> int) option \<Rightarrow> (nat \<times> bool \<times> int) option \<times> (bool \<times> int) option" where
  "choose_step lib po sel current item st =
    (case item of (i, path, rtt) \<Rightarrow> case st of (best, current_key) \<Rightarrow>
       if is_excluded lib po sel path then st
       else
         let key = path_sort_key po path rtt in
         (if (case best of None \<Rightarrow> True | Some (_, b) \<Rightarrow> key < b) then Some (i, key) else best,
          if Some path = current \<and> (case current_key of None \<Rightarrow> True | Some c \<Rightarrow> key < c) then Some key
          else current_key))"

definition choose_path ::
  "('n4, 'n6) ipnet \<Rightarrow> 'p path_ops \<Rightarrow> ('n4, 'n6) path_selector \<Rightarrow> 'p option \<Rightarrow> ('p \<times> nat) list \<Rightarrow> nat option" where
  "choose_path lib po sel current candidates =
    (case fold (choose_step lib po sel current) (enumerate 0 candidates) (None, None) of
       (None, _) \<Rightarrow> None
     | (Some (best_idx, best_tier, best_biased), current_key) \<Rightarrow>
         (case current_key of
            None \<Rightarrow> Some best_idx
          | Some (current_tier, current_biased) \<Rightarrow>
              if current_tier \<noteq> best_tier then Some best_idx
              else if best_biased + RTT_SWITCHING_MIN \<le> current_biased then Some best_idx
              else None))"

text \<open>The selection over the paths of a connection, each with its round trip time if its
  statistics can be read.\<close>

definition select ::
  "('n4, 'n6) ipnet \<Rightarrow> 'p path_ops \<Rightarrow> ('n4, 'n6) path_selector \<Rightarrow> 'p option \<Rightarrow> ('p \<times> nat option) list \<Rightarrow> 'p option" where
  "select lib po sel current ctx_paths =
    (let paths = List.map_filter (\<lambda>(psd, stats). map_option (Pair psd) stats) ctx_paths in
     map_option (\<lambda>i. fst (paths ! i)) (choose_path lib po sel current paths))"

section \<open>What it selects\<close>

definition allowed :: "('n4, 'n6) ipnet \<Rightarrow> 'p path_ops \<Rightarrow> ('n4, 'n6) path_selector \<Rightarrow> ('p \<times> nat) list \<Rightarrow> nat \<Rightarrow> bool" where
  "allowed lib po sel cs i \<longleftrightarrow> i < length cs \<and> \<not> is_excluded lib po sel (fst (cs ! i))"

definition key_at :: "'p path_ops \<Rightarrow> ('p \<times> nat) list \<Rightarrow> nat \<Rightarrow> bool \<times> int" where
  "key_at po cs i = path_sort_key po (fst (cs ! i)) (snd (cs ! i))"

definition first_best :: "('n4, 'n6) ipnet \<Rightarrow> 'p path_ops \<Rightarrow> ('n4, 'n6) path_selector \<Rightarrow> ('p \<times> nat) list \<Rightarrow> nat \<Rightarrow> bool" where
  "first_best lib po sel cs b \<longleftrightarrow> allowed lib po sel cs b \<and>
    (\<forall>i. allowed lib po sel cs i \<longrightarrow> key_at po cs b \<le> key_at po cs i \<and> (i < b \<longrightarrow> key_at po cs b < key_at po cs i))"

definition current_at :: "('n4, 'n6) ipnet \<Rightarrow> 'p path_ops \<Rightarrow> ('n4, 'n6) path_selector \<Rightarrow> 'p option \<Rightarrow> ('p \<times> nat) list \<Rightarrow> nat \<Rightarrow> bool" where
  "current_at lib po sel current cs j \<longleftrightarrow> allowed lib po sel cs j \<and> Some (fst (cs ! j)) = current"

definition loop_inv ::
  "('n4, 'n6) ipnet \<Rightarrow> 'p path_ops \<Rightarrow> ('n4, 'n6) path_selector \<Rightarrow> 'p option \<Rightarrow> ('p \<times> nat) list \<Rightarrow>
     (nat \<times> bool \<times> int) option \<times> (bool \<times> int) option \<Rightarrow> bool" where
  "loop_inv lib po sel current cs st \<longleftrightarrow>
    (case fst st of
       None \<Rightarrow> \<forall>i. \<not> allowed lib po sel cs i
     | Some (b, k) \<Rightarrow> first_best lib po sel cs b \<and> k = key_at po cs b) \<and>
    (case snd st of
       None \<Rightarrow> \<forall>j. \<not> current_at lib po sel current cs j
     | Some k \<Rightarrow> (\<exists>j. current_at lib po sel current cs j \<and> key_at po cs j = k) \<and>
         (\<forall>j. current_at lib po sel current cs j \<longrightarrow> k \<le> key_at po cs j))"

lemma snoc_simps:
  "allowed lib po sel (cs @ [c]) i \<longleftrightarrow>
    allowed lib po sel cs i \<or> i = length cs \<and> \<not> is_excluded lib po sel (fst c)"
  "allowed lib po sel cs i \<Longrightarrow> key_at po (cs @ [c]) i = key_at po cs i"
  "current_at lib po sel current cs i \<Longrightarrow> key_at po (cs @ [c]) i = key_at po cs i"
  "key_at po (cs @ [c]) (length cs) = path_sort_key po (fst c) (snd c)"
  "current_at lib po sel current (cs @ [c]) i \<longleftrightarrow> current_at lib po sel current cs i \<or>
    i = length cs \<and> \<not> is_excluded lib po sel (fst c) \<and> Some (fst c) = current"
  by (auto simp: allowed_def key_at_def current_at_def nth_append)

lemma allowed_less: "allowed lib po sel cs i \<Longrightarrow> i < length cs"
  by (simp add: allowed_def)

lemma current_allowed: "current_at lib po sel current cs i \<Longrightarrow> allowed lib po sel cs i"
  by (simp add: current_at_def)

lemma loop_inv_step:
  assumes "loop_inv lib po sel current cs st"
  shows "loop_inv lib po sel current (cs @ [c]) (choose_step lib po sel current (length cs, c) st)"
proof (cases "is_excluded lib po sel (fst c)")
  case True
  then show ?thesis
    using assms
    by (cases c; cases st) (auto simp: loop_inv_def choose_step_def first_best_def snoc_simps
        cong: conj_cong split: option.splits)
next
  case False
  let ?k = "path_sort_key po (fst c) (snd c)"
  obtain best ck where st: "st = (best, ck)" by (cases st)
  let ?best' = "if (case best of None \<Rightarrow> True | Some (_, b) \<Rightarrow> ?k < b) then Some (length cs, ?k) else best"
  let ?ck' = "if Some (fst c) = current \<and> (case ck of None \<Rightarrow> True | Some k \<Rightarrow> ?k < k) then Some ?k else ck"
  have eq: "choose_step lib po sel current (length cs, c) st = (?best', ?ck')"
    using False by (simp add: choose_step_def st Let_def split_beta)
  have "case ?best' of None \<Rightarrow> \<forall>i. \<not> allowed lib po sel (cs @ [c]) i
    | Some (b, k) \<Rightarrow> first_best lib po sel (cs @ [c]) b \<and> k = key_at po (cs @ [c]) b"
  proof (cases best)
    case None
    then show ?thesis using assms False by (auto simp: loop_inv_def st first_best_def snoc_simps)
  next
    case (Some bk)
    obtain b k where bk: "bk = (b, k)" by (cases bk)
    have inv: "first_best lib po sel cs b" "k = key_at po cs b" using assms Some bk by (simp_all add: loop_inv_def st)
    show ?thesis
    proof (cases "?k < k")
      case True
      then show ?thesis
        using inv False Some bk
        by (auto simp: first_best_def snoc_simps intro: less_imp_le less_le_trans)
    next
      case ge: False
      then show ?thesis
        using inv False Some bk
        by (auto simp: first_best_def snoc_simps not_less dest: allowed_less)
    qed
  qed
  moreover have "case ?ck' of None \<Rightarrow> \<forall>j. \<not> current_at lib po sel current (cs @ [c]) j
    | Some k \<Rightarrow> (\<exists>j. current_at lib po sel current (cs @ [c]) j \<and> key_at po (cs @ [c]) j = k) \<and>
        (\<forall>j. current_at lib po sel current (cs @ [c]) j \<longrightarrow> k \<le> key_at po (cs @ [c]) j)"
  proof (cases ck)
    case None
    then show ?thesis using assms False by (auto simp: loop_inv_def st snoc_simps)
  next
    case (Some k)
    then obtain j where j: "current_at lib po sel current cs j" "key_at po cs j = k"
      and min: "\<And>i. current_at lib po sel current cs i \<Longrightarrow> k \<le> key_at po cs i"
      using assms by (auto simp: loop_inv_def st)
    from j have ex: "\<exists>j. current_at lib po sel current (cs @ [c]) j \<and> key_at po (cs @ [c]) j = k"
      by (intro exI [of _ j]) (simp add: snoc_simps)
    show ?thesis
    proof (cases "Some (fst c) = current \<and> ?k < k")
      case True
      then show ?thesis using min False Some
        by (auto simp: snoc_simps current_allowed intro: less_imp_le less_le_trans)
    next
      case ge: False
      then show ?thesis using min False Some ex
        by (auto simp: snoc_simps not_less)
    qed
  qed
  ultimately show ?thesis by (simp add: loop_inv_def eq)
qed

lemma choose_loop_inv:
  "loop_inv lib po sel current cs (fold (choose_step lib po sel current) (enumerate 0 cs) (None, None))"
proof (induction cs rule: rev_induct)
  case Nil
  then show ?case by (simp add: loop_inv_def allowed_def current_at_def)
next
  case (snoc c cs)
  then show ?case using loop_inv_step by (simp add: enumerate_append_eq)
qed

lemma choose_path_cases:
  obtains (none) "\<And>i. \<not> allowed lib po sel cs i" "choose_path lib po sel current cs = None"
  | (best) b where "first_best lib po sel cs b" "\<And>j. \<not> current_at lib po sel current cs j"
      "choose_path lib po sel current cs = Some b"
  | (current) b j where "first_best lib po sel cs b" "current_at lib po sel current cs j"
      "\<And>i. current_at lib po sel current cs i \<Longrightarrow> key_at po cs j \<le> key_at po cs i"
      "choose_path lib po sel current cs =
        (if fst (key_at po cs j) \<noteq> fst (key_at po cs b) \<or>
            snd (key_at po cs b) + RTT_SWITCHING_MIN \<le> snd (key_at po cs j) then Some b else None)"
proof -
  obtain bst ck where st: "fold (choose_step lib po sel current) (enumerate 0 cs) (None, None) = (bst, ck)" by fastforce
  have inv: "loop_inv lib po sel current cs (bst, ck)" using choose_loop_inv st by metis
  show thesis
  proof (cases bst)
    case None
    then show ?thesis using inv by (intro none) (auto simp: loop_inv_def choose_path_def st)
  next
    case (Some bk)
    then obtain b where b: "bst = Some (b, key_at po cs b)" "first_best lib po sel cs b"
      using inv by (cases bk) (auto simp: loop_inv_def)
    show ?thesis
    proof (cases ck)
      case None
      then show ?thesis using inv b
        by (intro best [of b]) (auto simp: loop_inv_def choose_path_def st split_beta)
    next
      case (Some k)
      then obtain j where "current_at lib po sel current cs j" "key_at po cs j = k"
        "\<And>i. current_at lib po sel current cs i \<Longrightarrow> k \<le> key_at po cs i" using inv by (auto simp: loop_inv_def)
      then show ?thesis using b Some
        by (intro current [of b j]) (auto simp: choose_path_def st split_beta)
    qed
  qed
qed

text \<open>The current path is kept.\<close>

definition stays :: "('n4, 'n6) ipnet \<Rightarrow> 'p path_ops \<Rightarrow> ('n4, 'n6) path_selector \<Rightarrow> 'p option \<Rightarrow> ('p \<times> nat) list \<Rightarrow> bool" where
  "stays lib po sel current cs \<longleftrightarrow> (\<exists>j. current_at lib po sel current cs j \<and>
    (\<forall>i. allowed lib po sel cs i \<longrightarrow> fst (key_at po cs j) \<le> fst (key_at po cs i) \<and>
      (fst (key_at po cs i) = fst (key_at po cs j) \<longrightarrow>
        snd (key_at po cs j) < snd (key_at po cs i) + RTT_SWITCHING_MIN)))"

lemma choose_path_None_iff:
  "choose_path lib po sel current cs = None \<longleftrightarrow>
    (\<forall>i. \<not> allowed lib po sel cs i) \<or> stays lib po sel current cs"
proof (cases rule: choose_path_cases [where lib = lib and po = po and sel = sel and cs = cs and current = current])
  case none
  then show ?thesis by simp
next
  case (best b)
  then show ?thesis by (auto simp: stays_def first_best_def)
next
  case (current b j)
  have b: "allowed lib po sel cs b" and min: "\<And>i. allowed lib po sel cs i \<Longrightarrow> key_at po cs b \<le> key_at po cs i"
    using current(1) by (auto simp: first_best_def)
  have "stays lib po sel current cs \<longleftrightarrow> fst (key_at po cs j) = fst (key_at po cs b) \<and>
      snd (key_at po cs j) < snd (key_at po cs b) + RTT_SWITCHING_MIN"
  proof
    assume "stays lib po sel current cs"
    then obtain i where i: "current_at lib po sel current cs i" "fst (key_at po cs i) \<le> fst (key_at po cs b)"
      "fst (key_at po cs b) = fst (key_at po cs i) \<longrightarrow> snd (key_at po cs i) < snd (key_at po cs b) + RTT_SWITCHING_MIN"
      using b by (auto simp: stays_def)
    have "key_at po cs b \<le> key_at po cs j" "key_at po cs j \<le> key_at po cs i"
      using min current(2,3) i(1) by (auto simp: current_allowed)
    then show "fst (key_at po cs j) = fst (key_at po cs b) \<and> snd (key_at po cs j) < snd (key_at po cs b) + RTT_SWITCHING_MIN"
      using i(2,3) by (auto simp: less_eq_prod_def)
  next
    assume "fst (key_at po cs j) = fst (key_at po cs b) \<and> snd (key_at po cs j) < snd (key_at po cs b) + RTT_SWITCHING_MIN"
    moreover have "fst (key_at po cs b) \<le> fst (key_at po cs i)"
      "fst (key_at po cs b) = fst (key_at po cs i) \<longrightarrow> snd (key_at po cs b) \<le> snd (key_at po cs i)"
      if "allowed lib po sel cs i" for i using min [OF that] by (auto simp: less_eq_prod_def)
    ultimately show "stays lib po sel current cs"
      using current(2) unfolding stays_def by (intro exI [of _ j]) fastforce
  qed
  then show ?thesis using b current(4) by auto
qed

lemma choose_path_SomeD: "choose_path lib po sel current cs = Some b \<Longrightarrow> first_best lib po sel cs b"
  by (cases rule: choose_path_cases [where lib = lib and po = po and sel = sel and cs = cs and current = current]) (auto split: if_splits)

text \<open>C27. The selector only ever switches to an allowed path, and to the best one: direct before
  relay, then the lowest biased round trip time, the earliest on a tie.  It keeps the current
  path exactly when no candidate is allowed, or the current path is allowed and of the best
  tier and no allowed path of that tier is better by the switching minimum.  It does not flap:
  asked again with the path it chose as the current one, it keeps it.\<close>

theorem path_selection:
  "(choose_path lib po sel current cs = None \<longleftrightarrow>
      (\<forall>i. \<not> allowed lib po sel cs i) \<or> stays lib po sel current cs) \<and>
    (\<forall>b. choose_path lib po sel current cs = Some b \<longrightarrow>
      first_best lib po sel cs b \<and> choose_path lib po sel (Some (fst (cs ! b))) cs = None)"
proof (intro conjI allI impI)
  show "choose_path lib po sel current cs = None \<longleftrightarrow>
      (\<forall>i. \<not> allowed lib po sel cs i) \<or> stays lib po sel current cs" by (rule choose_path_None_iff)
next
  fix b assume "choose_path lib po sel current cs = Some b"
  then show best: "first_best lib po sel cs b" by (rule choose_path_SomeD)
  have "stays lib po sel (Some (fst (cs ! b))) cs"
    unfolding stays_def
  proof (intro exI [of _ b] conjI allI impI)
    show "current_at lib po sel (Some (fst (cs ! b))) cs b" using best by (simp add: current_at_def first_best_def)
  next
    fix i assume "allowed lib po sel cs i"
    then have "key_at po cs b \<le> key_at po cs i" using best by (simp add: first_best_def)
    then show "fst (key_at po cs b) \<le> fst (key_at po cs i)"
      "fst (key_at po cs i) = fst (key_at po cs b) \<Longrightarrow> snd (key_at po cs b) < snd (key_at po cs i) + RTT_SWITCHING_MIN"
      by (auto simp: less_eq_prod_def RTT_SWITCHING_MIN_def)
  qed
  then show "choose_path lib po sel (Some (fst (cs ! b))) cs = None" by (simp add: choose_path_None_iff)
qed

text \<open>A connection with a path through another VPN, a LAN path and the relay.\<close>

definition sample_path_ops :: "nat path_ops" where
  "sample_path_ops = \<lparr> remote = (\<lambda>p. if p = 0 then Ip (V4 0x6460731F) 4000 else if p = 1 then Ip (V4 0x0A16283D) 4000 else OtherRemote),
     is_relay = (\<lambda>p. p = 2) \<rparr>"

definition sample_selector :: "(32 word \<times> nat, 128 word \<times> nat) path_selector" where
  "sample_selector = \<lparr> excluded = [Net4 (0x64400000, 10)] \<rparr>"

theorem path_selection_witness:
  "choose_path cidr_ipnet sample_path_ops sample_selector (Some 0) [(0, 1000000), (1, 8000000), (2, 50000000)] = Some 1 \<and>
    choose_path cidr_ipnet sample_path_ops sample_selector (Some 1) [(0, 1000000), (1, 8000000), (2, 50000000)] = None"
proof -
  have "choose_path cidr_ipnet sample_path_ops sample_selector (Some 0) [(0, 1000000), (1, 8000000), (2, 50000000)] = Some 1"
    by (simp add: choose_path_def choose_step_def is_excluded_def path_sort_key_def sample_path_ops_def sample_selector_def
        cidr_ipnet_def cidr_net_def to_canonical_def RTT_SWITCHING_MIN_def enumerate_eq_zip upt_rec
        mask_eq_exp_minus_1 Let_def less_prod_def)
  with path_selection [of cidr_ipnet sample_path_ops sample_selector "Some 0" "[(0, 1000000), (1, 8000000), (2, 50000000)]"]
  show ?thesis by simp
qed

text \<open>Whatever path is selected had readable statistics and is not excluded.\<close>

lemma select_allowed:
  assumes "select lib po sel current ctx_paths = Some path"
  shows "\<not> is_excluded lib po sel path \<and> (\<exists>rtt. (path, Some rtt) \<in> set ctx_paths)"
proof -
  define ps where "ps = List.map_filter (\<lambda>(psd, stats). map_option (Pair psd) stats) ctx_paths"
  obtain i where i: "choose_path lib po sel current ps = Some i" "path = fst (ps ! i)"
    using assms by (auto simp: select_def Let_def ps_def)
  then have "allowed lib po sel ps i" using choose_path_SomeD first_best_def by metis
  then have "i < length ps" "\<not> is_excluded lib po sel path" using i(2) by (auto simp: allowed_def)
  then have "ps ! i \<in> set ps" by simp
  then have "\<exists>rtt. (fst (ps ! i), Some rtt) \<in> set ctx_paths"
    by (auto simp: ps_def List.map_filter_def)
  then show ?thesis using i(2) \<open>\<not> is_excluded lib po sel path\<close> by blast
qed

end
