(* ===== verification/Client_Reconnect.thy ===== *)
theory Client_Reconnect
  imports Errors
begin

text \<open>
  The client's reconnect loop and its backoff (\<open>tunnel/client.rs\<close>).  What an attempt to
  connect returns and the jitter drawn from the random generator are arguments.
\<close>

section \<open>Saturating arithmetic\<close>

definition saturate :: "nat \<Rightarrow> 'a::len word" where
  "saturate n = (if n < 2 ^ LENGTH('a) then of_nat n else - 1)"

definition saturating_add :: "'a::len word \<Rightarrow> 'a word \<Rightarrow> 'a word" where
  "saturating_add a b = saturate (unat a + unat b)"

definition saturating_mul :: "'a::len word \<Rightarrow> 'a word \<Rightarrow> 'a word" where
  "saturating_mul a b = saturate (unat a * unat b)"

definition saturating_sub :: "'a::len word \<Rightarrow> 'a word \<Rightarrow> 'a word" where
  "saturating_sub a b = (if b \<le> a then a - b else 0)"

definition saturating_pow :: "'a::len word \<Rightarrow> 32 word \<Rightarrow> 'a word" where
  "saturating_pow a n = saturate (unat a ^ unat n)"

lemma unat_saturate: "unat (saturate n :: 'a::len word) = min n (2 ^ LENGTH('a) - 1)"
proof (cases "n < 2 ^ LENGTH('a)")
  case True
  then show ?thesis by (simp add: saturate_def unat_of_nat min_def)
next
  case False
  then have "min n (2 ^ LENGTH('a) - 1) = 2 ^ LENGTH('a) - 1" by linarith
  then show ?thesis using False by (simp add: saturate_def unsigned_minus_1_eq_mask mask_eq_exp_minus_1)
qed

lemma unat_saturating_sub: "unat (saturating_sub a b) = unat a - unat b"
  by (auto simp: saturating_sub_def unat_sub word_le_nat_alt)

section \<open>Backoff\<close>

definition BACKOFF_BASE_MS :: "64 word" where "BACKOFF_BASE_MS = 1000"
definition BACKOFF_MAX_MS :: "64 word" where "BACKOFF_MAX_MS = 60000"
definition BACKOFF_JITTER_MS :: "64 word" where "BACKOFF_JITTER_MS = 500"

text \<open>\<open>jitter_ms\<close> is what \<open>random_range(0..BACKOFF_JITTER_MS)\<close> returned.\<close>

definition calculate_backoff_with_rng :: "32 word \<Rightarrow> 64 word \<Rightarrow> 64 word" where
  "calculate_backoff_with_rng attempt jitter_ms =
    (let multiplier = saturating_pow 2 (saturating_sub attempt 1);
         base_delay_ms = saturating_mul BACKOFF_BASE_MS multiplier in
     min (saturating_add base_delay_ms jitter_ms) BACKOFF_MAX_MS)"

lemma backoff_value:
  assumes "jitter < BACKOFF_JITTER_MS"
  shows "unat (calculate_backoff_with_rng attempt jitter) = min 60000 (1000 * 2 ^ (unat attempt - 1) + unat jitter)"
proof -
  let ?e = "unat attempt - 1"
  have pow: "unat (saturating_pow (2 :: 64 word) (saturating_sub attempt 1)) = min (2 ^ ?e) (2 ^ 64 - 1)"
    by (simp add: saturating_pow_def unat_saturate unat_saturating_sub)
  have "unat (calculate_backoff_with_rng attempt jitter) =
      min (min (min (1000 * min (2 ^ ?e) (2 ^ 64 - 1)) (2 ^ 64 - 1) + unat jitter) (2 ^ 64 - 1)) 60000"
    by (simp add: calculate_backoff_with_rng_def Let_def saturating_mul_def saturating_add_def unat_saturate pow
        BACKOFF_BASE_MS_def BACKOFF_MAX_MS_def min_def word_le_nat_alt)
  also have "\<dots> = min 60000 (1000 * 2 ^ ?e + unat jitter)" by (simp add: min_def)
  finally show ?thesis .
qed

text \<open>C29. The delay before a retry is one second doubled for every further attempt plus the
  jitter, cut at a minute, for any attempt number up to the largest \<open>u32\<close>: it is never under a
  second or over a minute, it is a minute from the seventh attempt on, and whatever the jitter
  it never decreases from one attempt to a later one.\<close>

theorem backoff_bounds:
  assumes "jitter < BACKOFF_JITTER_MS" and "jitter' < BACKOFF_JITTER_MS"
  shows "unat (calculate_backoff_with_rng attempt jitter) = min 60000 (1000 * 2 ^ (unat attempt - 1) + unat jitter) \<and>
    BACKOFF_BASE_MS \<le> calculate_backoff_with_rng attempt jitter \<and>
    calculate_backoff_with_rng attempt jitter \<le> BACKOFF_MAX_MS \<and>
    (7 \<le> attempt \<longrightarrow> calculate_backoff_with_rng attempt jitter = BACKOFF_MAX_MS) \<and>
    (0 < attempt \<and> attempt < attempt' \<longrightarrow>
      calculate_backoff_with_rng attempt jitter \<le> calculate_backoff_with_rng attempt' jitter')"
proof (intro conjI impI)
  note val = backoff_value [OF assms(1), of attempt] backoff_value [OF assms(2), of attempt']
  show "unat (calculate_backoff_with_rng attempt jitter) = min 60000 (1000 * 2 ^ (unat attempt - 1) + unat jitter)"
    by (rule val)
  have "1000 * 1 \<le> 1000 * 2 ^ (unat attempt - 1) + unat jitter" by (intro trans_le_add1 mult_le_mono2) simp
  then show "BACKOFF_BASE_MS \<le> calculate_backoff_with_rng attempt jitter"
    "calculate_backoff_with_rng attempt jitter \<le> BACKOFF_MAX_MS"
    by (simp_all add: word_le_nat_alt val BACKOFF_BASE_MS_def BACKOFF_MAX_MS_def)
  show "calculate_backoff_with_rng attempt jitter = BACKOFF_MAX_MS" if "7 \<le> attempt"
  proof -
    have "7 \<le> unat attempt" using that by (simp add: word_le_nat_alt)
    then have "(2::nat) ^ 6 \<le> 2 ^ (unat attempt - 1)" by (intro power_increasing) auto
    then have "unat (calculate_backoff_with_rng attempt jitter) = 60000" by (simp add: val)
    then show ?thesis by (simp add: word_unat_eq_iff BACKOFF_MAX_MS_def)
  qed
  show "calculate_backoff_with_rng attempt jitter \<le> calculate_backoff_with_rng attempt' jitter'"
    if "0 < attempt \<and> attempt < attempt'"
  proof -
    have "0 < unat attempt" "unat attempt < unat attempt'" using that by (simp_all add: word_less_nat_alt)
    then have "unat attempt \<le> unat attempt' - 1" "Suc (unat attempt - 1) = unat attempt" by auto
    then have "(2::nat) ^ Suc (unat attempt - 1) \<le> 2 ^ (unat attempt' - 1)" by (intro power_increasing) auto
    moreover have "unat jitter < 500" using assms(1) by (simp add: BACKOFF_JITTER_MS_def word_less_nat_alt)
    moreover have "(1::nat) \<le> 2 ^ (unat attempt - 1)" by simp
    ultimately have "1000 * 2 ^ (unat attempt - 1) + unat jitter \<le> 1000 * 2 ^ (unat attempt' - 1) + unat jitter'"
      unfolding power_Suc by linarith
    then show ?thesis by (simp add: word_le_nat_alt val min_def)
  qed
qed

theorem backoff_bounds_witness:
  "calculate_backoff_with_rng 3 250 = 4250 \<and> calculate_backoff_with_rng 9 0 = 60000 \<and>
    calculate_backoff_with_rng 3 250 \<le> calculate_backoff_with_rng 9 0"
proof -
  have "(250 :: 64 word) < BACKOFF_JITTER_MS" "(0 :: 64 word) < BACKOFF_JITTER_MS" by (simp_all add: BACKOFF_JITTER_MS_def)
  from backoff_bounds [OF this, of 3 "9"] backoff_bounds [OF this(2,1), of "9" 3] show ?thesis
    by (simp add: word_unat_eq_iff word_le_nat_alt BACKOFF_MAX_MS_def)
qed

section \<open>The reconnect loop\<close>

text \<open>The loop over what its attempts return, each with the jitter of the backoff that may follow:
  the retries it publishes (consecutive failures, error, delay in milliseconds), and its result,
  \<open>None\<close> while it is still at it.\<close>

fun run_with_reconnect ::
  "32 word option \<Rightarrow> ((('n4, 'n6) vpn_error + unit) \<times> 64 word) list \<Rightarrow> 32 word \<Rightarrow>
     (32 word \<times> ('n4, 'n6) vpn_error \<times> 64 word) list \<times> (('n4, 'n6) vpn_error + unit) option" where
  "run_with_reconnect max_attempts [] failures = ([], None)"
| "run_with_reconnect max_attempts ((Inr _, _) # attempts) failures = ([], Some (Inr ()))"
| "run_with_reconnect max_attempts ((Inl e, jitter) # attempts) failures =
    (if is_recoverable e then
       let failures = (case e of ConnectionLost _ \<Rightarrow> 0 | _ \<Rightarrow> failures);
           failures = saturating_add failures 1 in
       if (case max_attempts of Some cap \<Rightarrow> failures > cap | None \<Rightarrow> False)
       then ([], Some (Inl (MaxReconnectAttemptsExceeded (the max_attempts))))
       else (case run_with_reconnect max_attempts attempts failures of (retries, r) \<Rightarrow>
         ((failures, e, calculate_backoff_with_rng failures jitter) # retries, r))
     else ([], Some (Inl e)))"

text \<open>The length of the outage a history of attempts ends in: the failures since the last
  established tunnel was lost, that loss included.\<close>

definition lost :: "(('n4, 'n6) vpn_error + unit) \<times> 64 word \<Rightarrow> bool" where
  "lost a = (case fst a of Inl (ConnectionLost _) \<Rightarrow> True | _ \<Rightarrow> False)"

definition outage :: "((('n4, 'n6) vpn_error + unit) \<times> 64 word) list \<Rightarrow> nat" where
  "outage as = length (takeWhile (\<lambda>a. \<not> lost a) (rev as)) + (if \<exists>a \<in> set as. lost a then 1 else 0)"

lemma outage_snoc: "outage (as @ [a]) = (if lost a then 1 else outage as + 1)"
  by (auto simp: outage_def)

text \<open>The failure count saturates, so the largest cap is no cap.\<close>

definition within_cap :: "32 word option \<Rightarrow> nat \<Rightarrow> bool" where
  "within_cap max_attempts n = (case max_attempts of None \<Rightarrow> True | Some cap \<Rightarrow> n \<le> unat cap \<or> cap = - 1)"

text \<open>The attempts after which the loop goes on.\<close>

definition retried :: "32 word option \<Rightarrow> ((('n4, 'n6) vpn_error + unit) \<times> 64 word) list \<Rightarrow> nat \<Rightarrow> bool" where
  "retried max_attempts as i \<longleftrightarrow> i < length as \<and> (case fst (as ! i) of Inl e \<Rightarrow> is_recoverable e | Inr _ \<Rightarrow> False) \<and>
    within_cap max_attempts (outage (take (Suc i) as))"

definition retry :: "((('n4, 'n6) vpn_error + unit) \<times> 64 word) list \<Rightarrow> nat \<Rightarrow> 32 word \<times> ('n4, 'n6) vpn_error \<times> 64 word" where
  "retry as i = (let failures = saturate (outage (take (Suc i) as)) in
    (failures, projl (fst (as ! i)), calculate_backoff_with_rng failures (snd (as ! i))))"

definition verdict_on :: "32 word option \<Rightarrow> ('n4, 'n6) vpn_error + unit \<Rightarrow> ('n4, 'n6) vpn_error + unit" where
  "verdict_on max_attempts r = (case r of
     Inr _ \<Rightarrow> Inr ()
   | Inl e \<Rightarrow> if is_recoverable e then Inl (MaxReconnectAttemptsExceeded (the max_attempts)) else Inl e)"

lemma saturate_Suc: "saturating_add (saturate n) 1 = (saturate (Suc n) :: 32 word)"
  by (rule word_unat_eq_iff [THEN iffD2]) (simp add: saturating_add_def unat_saturate)

lemma within_cap_saturate: "within_cap m n \<longleftrightarrow> \<not> (case m of Some cap \<Rightarrow> saturate n > cap | None \<Rightarrow> False)"
proof (cases m)
  case (Some cap)
  have "unat cap \<le> 2 ^ 32 - 1" using unat_less_exp [of cap] by simp
  moreover have "cap = - 1 \<longleftrightarrow> unat cap = 2 ^ 32 - 1"
    by (simp add: word_unat_eq_iff unsigned_minus_1_eq_mask mask_eq_exp_minus_1)
  ultimately show ?thesis using Some by (auto simp: within_cap_def word_less_nat_alt unat_saturate)
qed (simp add: within_cap_def)

lemma run_with_reconnect_from:
  "\<exists>n \<le> length as. (\<forall>i < n. retried m (pre @ as) (length pre + i)) \<and> \<not> retried m (pre @ as) (length pre + n) \<and>
    run_with_reconnect m as (saturate (outage pre)) =
      (map (\<lambda>i. retry (pre @ as) (length pre + i)) [0..<n],
       if n < length as then Some (verdict_on m (fst (as ! n))) else None)"
proof (induction as arbitrary: pre)
  case Nil
  show ?case by (simp add: retried_def)
next
  case (Cons a as)
  obtain r jitter where a: "a = (r, jitter)" by (cases a)
  have first: "(pre @ a # as) ! length pre = a" "take (Suc (length pre)) (pre @ a # as) = pre @ [a]"
    by (simp_all add: nth_append take_Suc_conv_app_nth)
  let ?f = "saturate (outage (pre @ [a])) :: 32 word"
  have f: "saturating_add (case e of ConnectionLost _ \<Rightarrow> 0 | _ \<Rightarrow> saturate (outage pre)) 1 = ?f" if "r = Inl e" for e
    using saturate_Suc [of 0] saturate_Suc [of "outage pre"]
    by (cases e) (simp_all add: outage_snoc lost_def a that saturate_def [of 0])
  have step: "run_with_reconnect m (a # as) (saturate (outage pre)) =
      (if \<not> is_recoverable e then ([], Some (Inl e))
       else if \<not> within_cap m (outage (pre @ [a])) then ([], Some (Inl (MaxReconnectAttemptsExceeded (the m))))
       else case run_with_reconnect m as ?f of (retries, r) \<Rightarrow>
         ((?f, e, calculate_backoff_with_rng ?f jitter) # retries, r))" if "r = Inl e" for e
    using f [OF that] by (cases m) (simp_all add: a that within_cap_saturate Let_def)
  show ?case
  proof (cases "retried m (pre @ a # as) (length pre)")
    case False
    have "run_with_reconnect m (a # as) (saturate (outage pre)) = ([], Some (verdict_on m r))"
      using False step a by (cases r) (auto simp: retried_def first verdict_on_def)
    then show ?thesis using False by (intro exI [of _ 0]) (simp add: a)
  next
    case True
    then obtain e where e: "r = Inl e" "is_recoverable e" and cap: "within_cap m (outage (pre @ [a]))"
      by (cases r) (auto simp: retried_def a first)
    obtain n where n: "n \<le> length as" "\<forall>i < n. retried m ((pre @ [a]) @ as) (length (pre @ [a]) + i)"
      "\<not> retried m ((pre @ [a]) @ as) (length (pre @ [a]) + n)"
      "run_with_reconnect m as ?f = (map (\<lambda>i. retry ((pre @ [a]) @ as) (length (pre @ [a]) + i)) [0..<n],
        if n < length as then Some (verdict_on m (fst (as ! n))) else None)"
      using Cons.IH [of "pre @ [a]"] by blast
    have "run_with_reconnect m (a # as) (saturate (outage pre)) =
        (retry (pre @ a # as) (length pre) # map (\<lambda>i. retry ((pre @ [a]) @ as) (length (pre @ [a]) + i)) [0..<n],
          if n < length as then Some (verdict_on m (fst (as ! n))) else None)"
      using e(2) cap n(4) by (simp add: step [OF e(1)] retry_def first Let_def) (simp add: a e(1))
    moreover have "retry (pre @ a # as) (length pre) # map (\<lambda>i. retry ((pre @ [a]) @ as) (length (pre @ [a]) + i)) [0..<n] =
        map (\<lambda>i. retry (pre @ a # as) (length pre + i)) [0..<Suc n]"
      by (simp add: upt_conv_Cons map_Suc_upt [symmetric] del: upt_Suc)
    moreover have "\<forall>i < Suc n. retried m (pre @ a # as) (length pre + i)"
      using n(2) True by (auto simp: less_Suc_eq_0_disj)
    ultimately show ?thesis using n(1,3) by (intro exI [of _ "Suc n"]) simp
  qed
qed

text \<open>C5. The reconnect loop retries exactly while attempts fail recoverably and the current
  outage, counted from the last established tunnel that was lost, has not used up its retries; so
  without a cap it never gives up on a recoverable failure.  Every retry is published with the
  length of the outage and waits for the backoff of that length.  It ends with success on a
  graceful end, with the error itself on a fatal one, and with the exceeded cap otherwise.\<close>

theorem reconnect_policy:
  "\<exists>n \<le> length as. (\<forall>i < n. retried m as i) \<and> \<not> retried m as n \<and>
    run_with_reconnect m as 0 =
      (map (retry as) [0..<n], if n < length as then Some (verdict_on m (fst (as ! n))) else None)"
  using run_with_reconnect_from [of as m "[]"] by (simp add: outage_def saturate_def)

definition sample_attempts :: "(((nat, nat) vpn_error + unit) \<times> 64 word) list" where
  "sample_attempts = [(Inl (Network ''refused''), 10), (Inl (ConnectionLost ''idle''), 20), (Inl (Network ''refused''), 30)]"

theorem reconnect_policy_witness:
  "run_with_reconnect (Some 1) sample_attempts 0 =
    ([(1, Network ''refused'', 1010), (1, ConnectionLost ''idle'', 1020)], Some (Inl (MaxReconnectAttemptsExceeded 1)))"
proof -
  have at: "sample_attempts ! 0 = (Inl (Network ''refused''), 10)" "sample_attempts ! 1 = (Inl (ConnectionLost ''idle''), 20)"
    "sample_attempts ! 2 = (Inl (Network ''refused''), 30)" "length sample_attempts = 3" by (simp_all add: sample_attempts_def)
  have out: "outage (take (Suc 0) sample_attempts) = 1" "outage (take (Suc 1) sample_attempts) = 1"
    "outage (take (Suc 2) sample_attempts) = 2" by (simp_all add: sample_attempts_def outage_def lost_def)
  have two: "outage (take 2 sample_attempts) = 1" by (simp add: sample_attempts_def outage_def lost_def)
  have r: "retried (Some 1) sample_attempts 0" "retried (Some 1) sample_attempts 1" "\<not> retried (Some 1) sample_attempts 2"
    unfolding retried_def at out by (simp_all add: within_cap_def)
  obtain n where n: "\<forall>i < n. retried (Some 1) sample_attempts i" "\<not> retried (Some 1) sample_attempts n"
    "run_with_reconnect (Some 1) sample_attempts 0 = (map (retry sample_attempts) [0..<n],
      if n < length sample_attempts then Some (verdict_on (Some 1) (fst (sample_attempts ! n))) else None)"
    using reconnect_policy [of sample_attempts "Some 1"] by blast
  have "\<not> 2 < n" using n(1) r(3) by blast
  moreover have "n \<noteq> 0" "n \<noteq> 1" using n(2) r(1,2) by metis+
  ultimately have "n = 2" by linarith
  moreover have "[0..<2] = [0, 1 :: nat]" by (simp add: upt_rec)
  moreover have "calculate_backoff_with_rng 1 10 = 1010" "calculate_backoff_with_rng 1 20 = 1020"
    using backoff_value [of 10 1] backoff_value [of 20 1] by (simp_all add: BACKOFF_JITTER_MS_def word_unat_eq_iff)
  ultimately show ?thesis using n(3)
    by (simp add: retry_def at out two Let_def saturate_def verdict_on_def del: One_nat_def)
qed

end
