(* ===== verification/Heartbeat.thy ===== *)
theory Heartbeat
  imports Server_Data
begin

text \<open>
  The application heartbeat: the client's sender (\<open>run_heartbeat\<close> of \<open>tunnel/client.rs\<close>) and
  the server's responder (\<open>run_heartbeat_responder\<close> of \<open>tunnel/server.rs\<close>).  Both wait for
  several things at once; what they wake up for is a list of timed events, in milliseconds, and
  a timer event has an effect only if the deadline has passed.
\<close>

definition HEARTBEAT_INTERVAL :: nat where "HEARTBEAT_INTERVAL = 10 * 1000"
definition HEARTBEAT_TIMEOUT :: nat where "HEARTBEAT_TIMEOUT = 30 * 1000"

section \<open>The client\<close>

text \<open>A tick of the ticker carries the outcome of writing the ping.\<close>

datatype heartbeat_event = Tick "string + unit" | PongReceived "64 word" | DeadlineTimer

fun run_heartbeat :: "(nat \<times> heartbeat_event) list \<Rightarrow> nat \<Rightarrow> 64 word \<Rightarrow> bytes list \<times> string option" where
  "run_heartbeat [] deadline seq_no = ([], None)"
| "run_heartbeat ((now, Tick written) # events) deadline seq_no =
    (let seq_no = seq_no + 1; frame = encode_heartbeat_frame Ping seq_no in
     case written of
       Inl e \<Rightarrow> ([], Some (''heartbeat send failed: '' @ e))
     | Inr _ \<Rightarrow> (case run_heartbeat events deadline seq_no of (frames, r) \<Rightarrow> (frame # frames, r)))"
| "run_heartbeat ((now, PongReceived pong_seq) # events) deadline seq_no =
    run_heartbeat events (now + HEARTBEAT_TIMEOUT) seq_no"
| "run_heartbeat ((now, DeadlineTimer) # events) deadline seq_no =
    (if deadline \<le> now then ([], Some ''heartbeat timed out: no reply from the server in 30s'')
     else run_heartbeat events deadline seq_no)"

section \<open>The server\<close>

text \<open>What the read of a control frame under the deadline gives; \<open>try_send\<close> is that of the queue to
  the control writer.  The result is the reason the connection was closed with.\<close>

datatype ('n4, 'n6) responder_event = ControlRead "('n4, 'n6) vpn_error + bytes option" | Elapsed

fun run_heartbeat_responder ::
  "('q \<Rightarrow> bytes \<Rightarrow> 'q \<times> (channel_error + unit)) \<Rightarrow> (nat \<times> ('n4, 'n6) responder_event) list \<Rightarrow> nat \<Rightarrow> 'q \<Rightarrow>
     'q \<times> string option" where
  "run_heartbeat_responder try_send [] deadline control_tx = (control_tx, None)"
| "run_heartbeat_responder try_send ((now, ControlRead (Inr (Some body))) # events) deadline control_tx =
    (case classify body :: ('n4, 'n6) vpn_error + frame of
       Inr (PingFrame seq_no) \<Rightarrow>
         run_heartbeat_responder try_send events (now + HEARTBEAT_TIMEOUT)
           (fst (try_send control_tx (encode_heartbeat_frame Pong seq_no)))
     | _ \<Rightarrow> run_heartbeat_responder try_send events deadline control_tx)"
| "run_heartbeat_responder try_send ((now, ControlRead (Inr None)) # events) deadline control_tx =
    (control_tx, Some ''control stream finished'')"
| "run_heartbeat_responder try_send ((now, ControlRead (Inl e)) # events) deadline control_tx =
    (control_tx, Some ''control stream error'')"
| "run_heartbeat_responder try_send ((now, Elapsed) # events) deadline control_tx =
    (if deadline \<le> now then (control_tx, Some ''heartbeat timeout'')
     else run_heartbeat_responder try_send events deadline control_tx)"

section \<open>Deadlines\<close>

text \<open>Both ends keep a deadline that some events push back and a timer checks.\<close>

locale deadline_monitor =
  fixes resets :: "'ev \<Rightarrow> bool" and timer :: "'ev \<Rightarrow> bool" and expires :: "(nat \<times> 'ev) list \<Rightarrow> nat \<Rightarrow> bool"
  assumes empty_run: "\<And>d. \<not> expires [] d"
    and event: "\<And>t e es d. expires ((t, e) # es) d \<longleftrightarrow>
      timer e \<and> d \<le> t \<or> expires es (if resets e then t + HEARTBEAT_TIMEOUT else d)"
begin

text \<open>A run expires exactly if the timer is checked at a time when the start and all resets so
  far lie a whole timeout back.\<close>

lemma expires_iff:
  assumes "sorted (t0 # map fst es)"
  shows "expires es (t0 + HEARTBEAT_TIMEOUT) \<longleftrightarrow> (\<exists>k < length es. timer (snd (es ! k)) \<and>
    t0 + HEARTBEAT_TIMEOUT \<le> fst (es ! k) \<and>
    (\<forall>j < k. resets (snd (es ! j)) \<longrightarrow> fst (es ! j) + HEARTBEAT_TIMEOUT \<le> fst (es ! k)))"
  using assms
proof (induction es arbitrary: t0)
  case Nil
  then show ?case by (simp add: empty_run)
next
  case (Cons x es)
  obtain t e where x: "x = (t, e)" by (cases x)
  let ?t0 = "if resets e then t else t0"
  let ?due = "\<lambda>u k. timer (snd (es ! k)) \<and> u + HEARTBEAT_TIMEOUT \<le> fst (es ! k) \<and>
    (\<forall>j < k. resets (snd (es ! j)) \<longrightarrow> fst (es ! j) + HEARTBEAT_TIMEOUT \<le> fst (es ! k))"
  have le: "t0 \<le> t" and s: "sorted (t # map fst es)" using Cons.prems x by auto
  then have "sorted (?t0 # map fst es)" by auto
  then have IH: "expires es (?t0 + HEARTBEAT_TIMEOUT) \<longleftrightarrow> (\<exists>k < length es. ?due ?t0 k)" by (rule Cons.IH)
  have "expires (x # es) (t0 + HEARTBEAT_TIMEOUT) \<longleftrightarrow>
      timer e \<and> t0 + HEARTBEAT_TIMEOUT \<le> t \<or> (\<exists>k < length es. ?due ?t0 k)"
    unfolding x event IH [symmetric] by simp
  also have "(\<exists>k < length es. ?due ?t0 k) \<longleftrightarrow> (\<exists>k < length es. ?due t0 k \<and>
      (resets e \<longrightarrow> t + HEARTBEAT_TIMEOUT \<le> fst (es ! k)))" using le by auto
  finally show ?case
    unfolding x length_Cons Ex_less_Suc2 All_less_Suc2 nth_Cons_0 nth_Cons_Suc fst_conv snd_conv
    by (simp only: less_nat_zero_code simp_thms) (blast)
qed

end

section \<open>No false alarms, no missed ones\<close>

definition timed_out :: "string" where "timed_out = ''heartbeat timed out: no reply from the server in 30s''"

definition pong :: "heartbeat_event \<Rightarrow> bool" where
  "pong e = (case e of PongReceived _ \<Rightarrow> True | _ \<Rightarrow> False)"

definition ping :: "('n4, 'n6) responder_event \<Rightarrow> bool" where
  "ping e = (case e of ControlRead (Inr (Some body)) \<Rightarrow>
     (case classify body :: ('n4, 'n6) vpn_error + frame of Inr (PingFrame _) \<Rightarrow> True | _ \<Rightarrow> False) | _ \<Rightarrow> False)"

text \<open>Runs whose streams do not fail.\<close>

definition ticks_ok :: "(nat \<times> heartbeat_event) list \<Rightarrow> bool" where
  "ticks_ok es \<longleftrightarrow> (\<forall>(t, e) \<in> set es. case e of Tick (Inl _) \<Rightarrow> False | _ \<Rightarrow> True)"

definition reads_ok :: "(nat \<times> ('n4, 'n6) responder_event) list \<Rightarrow> bool" where
  "reads_ok es \<longleftrightarrow> (\<forall>(t, e) \<in> set es. case e of ControlRead (Inr None) \<Rightarrow> False | ControlRead (Inl _) \<Rightarrow> False | _ \<Rightarrow> True)"

fun watch :: "('ev \<Rightarrow> bool) \<Rightarrow> ('ev \<Rightarrow> bool) \<Rightarrow> (nat \<times> 'ev) list \<Rightarrow> nat \<Rightarrow> bool" where
  "watch resets timer [] d = False"
| "watch resets timer ((t, e) # es) d =
    (timer e \<and> d \<le> t \<or> watch resets timer es (if resets e then t + HEARTBEAT_TIMEOUT else d))"

interpretation client_heartbeat: deadline_monitor pong "\<lambda>e. e = DeadlineTimer" "watch pong (\<lambda>e. e = DeadlineTimer)"
  by unfold_locales auto

interpretation server_heartbeat: deadline_monitor ping "\<lambda>e. e = Elapsed" "watch ping (\<lambda>e. e = Elapsed)"
  by unfold_locales auto

lemma run_heartbeat_watch:
  "ticks_ok es \<Longrightarrow> snd (run_heartbeat es d n) = (if watch pong (\<lambda>e. e = DeadlineTimer) es d then Some timed_out else None)"
proof (induction es arbitrary: d n)
  case (Cons x es)
  obtain t e where x: "x = (t, e)" by (cases x)
  have "ticks_ok es" using Cons.prems by (simp add: ticks_ok_def)
  note IH = Cons.IH [OF this]
  show ?case
    using Cons.prems by (cases e) (auto simp: x IH pong_def timed_out_def Let_def ticks_ok_def split_beta split: sum.splits)
qed simp

lemma responder_watch:
  fixes es :: "(nat \<times> ('n4, 'n6) responder_event) list"
  assumes "reads_ok es"
  shows "snd (run_heartbeat_responder try_send es d q) =
    (if watch ping (\<lambda>e. e = Elapsed) es d then Some ''heartbeat timeout'' else None)"
  using assms
proof (induction es arbitrary: d q)
  case (Cons x es)
  obtain t e where x: "x = (t, e)" by (cases x)
  have "reads_ok es" using Cons.prems by (simp add: reads_ok_def)
  note IH = Cons.IH [OF this]
  show ?case
  proof (cases e)
    case (ControlRead r)
    then obtain body where "e = ControlRead (Inr (Some body))"
      using Cons.prems by (auto simp: x reads_ok_def split: sum.splits option.splits)
    then show ?thesis by (auto simp: x IH ping_def split: sum.splits frame.splits)
  qed (simp add: x IH ping_def)
qed simp

text \<open>C26. Neither end declares a live session dead or keeps a dead one, as long as its stream
  works: the client's heartbeat times out exactly when its timer is checked at a moment when the
  start and every pong lie thirty seconds back, and the server closes the connection for a
  missed heartbeat exactly when that holds of the start and every ping; no other control frame
  keeps a session alive.\<close>

theorem heartbeat_timeouts:
  assumes "sorted (t0 # map fst es)" and "ticks_ok es" and "sorted (u0 # map fst reads)" and "reads_ok reads"
  shows "(snd (run_heartbeat es (t0 + HEARTBEAT_TIMEOUT) 0) = Some timed_out \<longleftrightarrow>
      (\<exists>k < length es. snd (es ! k) = DeadlineTimer \<and> t0 + HEARTBEAT_TIMEOUT \<le> fst (es ! k) \<and>
        (\<forall>j < k. pong (snd (es ! j)) \<longrightarrow> fst (es ! j) + HEARTBEAT_TIMEOUT \<le> fst (es ! k)))) \<and>
    (snd (run_heartbeat_responder try_send reads (u0 + HEARTBEAT_TIMEOUT) q) = Some ''heartbeat timeout'' \<longleftrightarrow>
      (\<exists>k < length reads. snd (reads ! k) = Elapsed \<and> u0 + HEARTBEAT_TIMEOUT \<le> fst (reads ! k) \<and>
        (\<forall>j < k. ping (snd (reads ! j)) \<longrightarrow> fst (reads ! j) + HEARTBEAT_TIMEOUT \<le> fst (reads ! k))))"
  unfolding client_heartbeat.expires_iff [OF assms(1), symmetric] server_heartbeat.expires_iff [OF assms(3), symmetric]
    run_heartbeat_watch [OF assms(2)] responder_watch [OF assms(4)]
  by simp

theorem heartbeat_timeouts_witness:
  "snd (run_heartbeat [(0, Tick (Inr ())), (80, PongReceived 1), (10000, Tick (Inr ())), (30080, DeadlineTimer)]
      (0 + HEARTBEAT_TIMEOUT) 0) = Some timed_out \<and>
    snd (run_heartbeat_responder (\<lambda>q frame. (q @ [frame], Inr ()))
      [(40, ControlRead (Inr (Some (as_byte Ping # to_be_bytes (1 :: 64 word))))),
       (30000, (Elapsed :: (nat, nat) responder_event))] (0 + HEARTBEAT_TIMEOUT) []) \<noteq> Some ''heartbeat timeout''"
proof -
  let ?es = "[(0, Tick (Inr ())), (80, PongReceived 1), (10000, Tick (Inr ())), (30080, DeadlineTimer)] :: (nat \<times> heartbeat_event) list"
  let ?rs = "[(40, ControlRead (Inr (Some (as_byte Ping # to_be_bytes (1 :: 64 word))))), (30000, Elapsed)]
    :: (nat \<times> (nat, nat) responder_event) list"
  have ping: "ping (ControlRead (Inr (Some (as_byte Ping # to_be_bytes (1 :: 64 word)))) :: (nat, nat) responder_event)"
    using frame_layout(4) [of undefined "SendPing 1"]
    by (simp add: ping_def classify_def from_byte_def be64.enc_length Let_def)
  have ok: "sorted (0 # map fst ?es)" "ticks_ok ?es" "sorted (0 # map fst ?rs)" "reads_ok ?rs"
    by (simp_all add: ticks_ok_def reads_ok_def)
  note iff = heartbeat_timeouts [OF ok, of "\<lambda>q frame. (q @ [frame], Inr ())" "[]"]
  have "snd (?es ! 3) = DeadlineTimer \<and> 0 + HEARTBEAT_TIMEOUT \<le> fst (?es ! 3) \<and>
      (\<forall>j < 3. pong (snd (?es ! j)) \<longrightarrow> fst (?es ! j) + HEARTBEAT_TIMEOUT \<le> fst (?es ! 3))"
    by (auto simp: HEARTBEAT_TIMEOUT_def pong_def nth_Cons' less_Suc_eq numeral_3_eq_3)
  moreover have "\<not> (\<exists>k < length ?rs. snd (?rs ! k) = Elapsed \<and> 0 + HEARTBEAT_TIMEOUT \<le> fst (?rs ! k) \<and>
      (\<forall>j < k. ping (snd (?rs ! j)) \<longrightarrow> fst (?rs ! j) + HEARTBEAT_TIMEOUT \<le> fst (?rs ! k)))"
    using ping by (auto simp: HEARTBEAT_TIMEOUT_def nth_Cons' less_Suc_eq)
  ultimately show ?thesis using iff by (intro conjI) (auto simp del: run_heartbeat.simps run_heartbeat_responder.simps)
qed

text \<open>The pings are numbered from one, and each is echoed if the queue takes the reply.\<close>

lemma heartbeat_frames:
  "ticks_ok es \<Longrightarrow> \<exists>k. fst (run_heartbeat es d n) = map (\<lambda>i. encode_heartbeat_frame Ping (n + of_nat i)) [1..<Suc k]"
proof (induction es arbitrary: d n)
  case Nil
  show ?case by (rule exI [of _ 0]) simp
next
  case (Cons x es)
  obtain t e where x: "x = (t, e)" by (cases x)
  have "ticks_ok es" using Cons.prems by (simp add: ticks_ok_def)
  note IH = Cons.IH [OF this]
  show ?case
  proof (cases e)
    case (Tick w)
    then have w: "w = Inr ()" using Cons.prems by (auto simp: x ticks_ok_def split: sum.splits)
    obtain k where k: "fst (run_heartbeat es d (n + 1)) =
        map (\<lambda>i. encode_heartbeat_frame Ping (n + 1 + of_nat i)) [1..<Suc k]" using IH by blast
    have "fst (run_heartbeat (x # es) d n) =
        encode_heartbeat_frame Ping (n + 1) # map (\<lambda>i. encode_heartbeat_frame Ping (n + 1 + of_nat i)) [1..<Suc k]"
      using k by (simp add: x Tick w Let_def split_beta)
    also have "\<dots> = map (\<lambda>i. encode_heartbeat_frame Ping (n + of_nat i)) [1..<Suc (Suc k)]"
      by (simp add: upt_conv_Cons map_Suc_upt [symmetric] ac_simps del: upt_Suc)
    finally show ?thesis by blast
  next
    case (PongReceived m)
    then show ?thesis using IH by (simp add: x)
  next
    case DeadlineTimer
    then show ?thesis using IH [of d n] by (auto simp: x intro: exI [of _ 0])
  qed
qed

end
