(* ===== verification/Routes.thy ===== *)
theory Routes
  imports Errors Local_Networks
begin

unbundle bit_operations_syntax

text \<open>
  Installing the VPN's routes (\<open>net/device.rs\<close>, the Linux build).  The kernel's routing table
  is reached by running \<open>ip\<close>: a command is a function on an abstract operating-system state
  that returns an error if it could not be run, or its exit status and output.  How addresses
  and networks are printed and parsed is a record of functions.
\<close>

section \<open>Commands\<close>

record cmd_output =
  cmd_success :: bool
  cmd_stdout :: string
  cmd_stderr :: string

type_synonym 'os ip_command = "'os \<Rightarrow> string list \<Rightarrow> 'os \<times> (string + cmd_output)"

record ('n4, 'n6) addr_text =
  show_ip :: "ip_addr \<Rightarrow> string"
  parse_ip :: "string \<Rightarrow> ip_addr option"
  show_net4 :: "'n4 \<Rightarrow> string"
  show_net6 :: "'n6 \<Rightarrow> string"

text \<open>\<open>str::to_lowercase\<close> and \<open>str::contains\<close> on the command's output.\<close>

definition to_lowercase :: "string \<Rightarrow> string" where
  "to_lowercase s = map (\<lambda>c. let n = (of_char c :: nat) in if 65 \<le> n \<and> n \<le> 90 then char_of (n + 32) else c) s"

definition str_contains :: "string \<Rightarrow> string \<Rightarrow> bool" where
  "str_contains s pat = list_ex (\<lambda>i. take (length pat) (drop i s) = pat) [0..<Suc (length s)]"

definition is_already_exists_error :: "string \<Rightarrow> bool" where
  "is_already_exists_error stderr =
    (let lower = to_lowercase stderr in
     str_contains lower ''file exists'' \<or> str_contains lower ''eexist'' \<or> str_contains lower ''already exists'')"

section \<open>Adding and removing one route\<close>

datatype route_add_outcome = Added | AlreadyExisted

definition linux_add_args4 :: "('n4, 'n6) addr_text \<Rightarrow> 'n4 \<Rightarrow> string \<Rightarrow> string list" where
  "linux_add_args4 fmt route tun_name = [''route'', ''add'', show_net4 fmt route, ''dev'', tun_name]"

definition linux_delete_args4 :: "('n4, 'n6) addr_text \<Rightarrow> 'n4 \<Rightarrow> string \<Rightarrow> string list" where
  "linux_delete_args4 fmt route tun_name = [''route'', ''del'', show_net4 fmt route, ''dev'', tun_name]"

definition linux_add_args6 :: "('n4, 'n6) addr_text \<Rightarrow> 'n6 \<Rightarrow> string \<Rightarrow> string list" where
  "linux_add_args6 fmt route tun_name = [''-6'', ''route'', ''add'', show_net6 fmt route, ''dev'', tun_name]"

definition linux_delete_args6 :: "('n4, 'n6) addr_text \<Rightarrow> 'n6 \<Rightarrow> string \<Rightarrow> string list" where
  "linux_delete_args6 fmt route tun_name = [''-6'', ''route'', ''del'', show_net6 fmt route, ''dev'', tun_name]"

definition handle_route_add_output :: "cmd_output \<Rightarrow> ('n4, 'n6) vpn_error + route_add_outcome" where
  "handle_route_add_output output =
    (if cmd_success output then Inr Added
     else if is_already_exists_error (cmd_stderr output) \<or> is_already_exists_error (cmd_stdout output)
     then Inr AlreadyExisted
     else Inl (TunDevice ''Failed to add route''))"

text \<open>The functions that are generic over the route type take the arguments it builds.\<close>

definition add_route_generic ::
  "'os ip_command \<Rightarrow> string list \<Rightarrow> 'os \<Rightarrow> 'os \<times> (('n4, 'n6) vpn_error + route_add_outcome)" where
  "add_route_generic ip add_args os =
    (case ip os add_args of
       (os', Inl e) \<Rightarrow> (os', Inl (TunDevice ''Failed to execute ip route command''))
     | (os', Inr output) \<Rightarrow> (os', handle_route_add_output output))"

definition remove_route_generic ::
  "'os ip_command \<Rightarrow> string list \<Rightarrow> 'os \<Rightarrow> 'os \<times> (('n4, 'n6) vpn_error + unit)" where
  "remove_route_generic ip delete_args os =
    (case ip os delete_args of
       (os', Inl e) \<Rightarrow> (os', Inl (TunDevice ''Failed to execute ip route command''))
     | (os', Inr output) \<Rightarrow> (os', Inr ()))"

definition remove_route_sync_generic :: "'os ip_command \<Rightarrow> string list \<Rightarrow> 'os \<Rightarrow> 'os" where
  "remove_route_sync_generic ip delete_args os = fst (ip os delete_args)"

definition add_route6_with_src ::
  "('n4, 'n6) addr_text \<Rightarrow> 'os ip_command \<Rightarrow> string \<Rightarrow> 128 word \<Rightarrow> 'n6 \<Rightarrow> 'os \<Rightarrow>
     'os \<times> (('n4, 'n6) vpn_error + route_add_outcome)" where
  "add_route6_with_src fmt ip tun_name src route os =
    (case ip os [''-6'', ''route'', ''add'', show_net6 fmt route, ''dev'', tun_name, ''src'', show_ip fmt (V6 src)] of
       (os', Inl e) \<Rightarrow> (os', Inl (TunDevice ''Failed to execute ip route command''))
     | (os', Inr output) \<Rightarrow>
         (os', if cmd_success output then Inr Added
               else if is_already_exists_error (cmd_stderr output) then Inr AlreadyExisted
               else Inl (TunDevice ''Failed to add IPv6 route'')))"

section \<open>Default routes\<close>

text \<open>\<open>None\<close> is a failed \<open>expect\<close>.\<close>

definition expand_default_route4 :: "('n4, 'n6) ipnet \<Rightarrow> 'n4 \<Rightarrow> 'n4 list option" where
  "expand_default_route4 lib route =
    (if prefix_len (ops4 lib) route \<noteq> 0 then Some [route]
     else Option.bind (new_net (ops4 lib) 0 1) (\<lambda>lo.
          Option.bind (new_net (ops4 lib) 0x80000000 1) (\<lambda>hi. Some [lo, hi])))"

definition expand_default_route6 :: "('n4, 'n6) ipnet \<Rightarrow> 'n6 \<Rightarrow> 'n6 list option" where
  "expand_default_route6 lib route =
    (if prefix_len (ops6 lib) route \<noteq> 0 then Some [route]
     else Option.bind (new_net (ops6 lib) 0 1) (\<lambda>lo.
          Option.bind (new_net (ops6 lib) (0x8000 * 2 ^ 112) 1) (\<lambda>hi. Some [lo, hi])))"

section \<open>Adding many routes\<close>

record 'r route_guard =
  rg_tun_name :: string
  rg_routes :: "'r list"

text \<open>The loop of \<open>add_routes\<close> and \<open>add_routes6_with_src\<close> with its rollback.\<close>

fun install_routes ::
  "('r \<Rightarrow> 'os \<Rightarrow> 'os \<times> (('n4, 'n6) vpn_error + route_add_outcome)) \<Rightarrow>
     ('r \<Rightarrow> 'os \<Rightarrow> 'os \<times> (('n4, 'n6) vpn_error + unit)) \<Rightarrow> 'r list \<Rightarrow> 'r list \<Rightarrow> 'os \<Rightarrow>
     'os \<times> (('n4, 'n6) vpn_error + 'r list)" where
  "install_routes add remove [] added os = (os, Inr added)"
| "install_routes add remove (route # routes) added os =
    (case add route os of
       (os', Inr Added) \<Rightarrow> install_routes add remove routes (added @ [route]) os'
     | (os', Inr AlreadyExisted) \<Rightarrow> install_routes add remove routes added os'
     | (os', Inl e) \<Rightarrow> (fold (\<lambda>r s. fst (remove r s)) (rev added) os', Inl e))"

definition flat_expand :: "('r \<Rightarrow> 'r list option) \<Rightarrow> 'r list \<Rightarrow> 'r list option" where
  "flat_expand expand routes = map_option concat (those (map expand routes))"

definition add_routes ::
  "('n4, 'n6) ipnet \<Rightarrow> ('n4, 'n6) addr_text \<Rightarrow> 'os ip_command \<Rightarrow> string \<Rightarrow> 'n4 list \<Rightarrow> 'os \<Rightarrow>
     ('os \<times> (('n4, 'n6) vpn_error + 'n4 route_guard)) option" where
  "add_routes lib fmt ip tun_name routes os =
    map_option (\<lambda>rs.
      case install_routes (\<lambda>r. add_route_generic ip (linux_add_args4 fmt r tun_name))
             (\<lambda>r. remove_route_generic ip (linux_delete_args4 fmt r tun_name)) rs [] os of
        (os', Inl e) \<Rightarrow> (os', Inl e)
      | (os', Inr added) \<Rightarrow> (os', Inr \<lparr> rg_tun_name = tun_name, rg_routes = added \<rparr>))
    (flat_expand (expand_default_route4 lib) routes)"

definition add_routes6_with_src ::
  "('n4, 'n6) ipnet \<Rightarrow> ('n4, 'n6) addr_text \<Rightarrow> 'os ip_command \<Rightarrow> string \<Rightarrow> 'n6 list \<Rightarrow> 128 word \<Rightarrow> 'os \<Rightarrow>
     ('os \<times> (('n4, 'n6) vpn_error + 'n6 route_guard)) option" where
  "add_routes6_with_src lib fmt ip tun_name routes src os =
    map_option (\<lambda>rs.
      case install_routes (add_route6_with_src fmt ip tun_name src)
             (\<lambda>r. remove_route_generic ip (linux_delete_args6 fmt r tun_name)) rs [] os of
        (os', Inl e) \<Rightarrow> (os', Inl e)
      | (os', Inr added) \<Rightarrow> (os', Inr \<lparr> rg_tun_name = tun_name, rg_routes = added \<rparr>))
    (flat_expand (expand_default_route6 lib) routes)"

definition route_guard_drop :: "('n4, 'n6) addr_text \<Rightarrow> 'os ip_command \<Rightarrow> 'n4 route_guard \<Rightarrow> 'os \<Rightarrow> 'os" where
  "route_guard_drop fmt ip g os =
    (if rg_routes g = [] then os
     else fold (\<lambda>r. remove_route_sync_generic ip (linux_delete_args4 fmt r (rg_tun_name g))) (rev (rg_routes g)) os)"

definition route6_guard_drop :: "('n4, 'n6) addr_text \<Rightarrow> 'os ip_command \<Rightarrow> 'n6 route_guard \<Rightarrow> 'os \<Rightarrow> 'os" where
  "route6_guard_drop fmt ip g os =
    (if rg_routes g = [] then os
     else fold (\<lambda>r. remove_route_sync_generic ip (linux_delete_args6 fmt r (rg_tun_name g))) (rev (rg_routes g)) os)"

section \<open>Routes are installed and removed exactly\<close>

text \<open>A route of the kernel's table: its family, prefix, gateway and device.\<close>

type_synonym route_key = "bool \<times> string \<times> string option \<times> string"

definition ip_route_args :: "string \<Rightarrow> route_key \<Rightarrow> string list \<Rightarrow> string list" where
  "ip_route_args verb k extra = (case k of (six, prefix, via, dev) \<Rightarrow>
    (if six then [''-6''] else []) @ [''route'', verb, prefix] @
    (case via of None \<Rightarrow> [] | Some gw \<Rightarrow> [''via'', gw]) @ [''dev'', dev] @ extra)"

text \<open>What \<open>ip route\<close> promises: a route that was added was not there before, a failed addition
  changes nothing, a route that is there can be deleted, and queries change nothing.\<close>

definition route_queries :: "string list set" where
  "route_queries = {[''route'', ''get'', a] | a. True} \<union> {[''-6'', ''route'', ''get'', a] | a. True} \<union>
    {[''-4'', ''route'', ''show'', ''default''], [''-6'', ''route'', ''show'', ''default'']}"

definition lawful_ip :: "'os ip_command \<Rightarrow> ('os \<Rightarrow> route_key set) \<Rightarrow> bool" where
  "lawful_ip ip table \<longleftrightarrow>
    (\<forall>os k extra os' r. ip os (ip_route_args ''add'' k extra) = (os', r) \<longrightarrow>
      (if (case r of Inr output \<Rightarrow> cmd_success output | Inl _ \<Rightarrow> False)
       then k \<notin> table os \<and> table os' = insert k (table os) else table os' = table os)) \<and>
    (\<forall>os k extra. k \<in> table os \<longrightarrow> table (fst (ip os (ip_route_args ''del'' k extra))) = table os - {k}) \<and>
    (\<forall>os args. args \<in> route_queries \<longrightarrow> table (fst (ip os args)) = table os)"

definition key4 :: "('n4, 'n6) addr_text \<Rightarrow> string \<Rightarrow> 'n4 \<Rightarrow> route_key" where
  "key4 fmt tun r = (False, show_net4 fmt r, None, tun)"

definition key6 :: "('n4, 'n6) addr_text \<Rightarrow> string \<Rightarrow> 'n6 \<Rightarrow> route_key" where
  "key6 fmt tun r = (True, show_net6 fmt r, None, tun)"

lemma route_args:
  "linux_add_args4 fmt r tun = ip_route_args ''add'' (key4 fmt tun r) []"
  "linux_delete_args4 fmt r tun = ip_route_args ''del'' (key4 fmt tun r) []"
  "linux_add_args6 fmt r6 tun = ip_route_args ''add'' (key6 fmt tun r6) []"
  "linux_delete_args6 fmt r6 tun = ip_route_args ''del'' (key6 fmt tun r6) []"
  "[''-6'', ''route'', ''add'', show_net6 fmt r6, ''dev'', tun, ''src'', src] =
    ip_route_args ''add'' (key6 fmt tun r6) [''src'', src]"
  by (simp_all add: ip_route_args_def key4_def key6_def linux_add_args4_def linux_delete_args4_def
      linux_add_args6_def linux_delete_args6_def)

lemma lawful_ip_add:
  assumes "lawful_ip ip table" and "ip os (ip_route_args ''add'' k extra) = (os', Inr output)"
  shows "if cmd_success output then k \<notin> table os \<and> table os' = insert k (table os) else table os' = table os"
  using assms unfolding lawful_ip_def by (metis sum.case(2))

lemma lawful_ip_not_run:
  assumes "lawful_ip ip table" and "ip os (ip_route_args ''add'' k extra) = (os', Inl e)"
  shows "table os' = table os"
  using assms unfolding lawful_ip_def by (metis sum.case(1))

lemma lawful_ip_del:
  "lawful_ip ip table \<Longrightarrow> k \<in> table os \<Longrightarrow> table (fst (ip os (ip_route_args ''del'' k extra))) = table os - {k}"
  unfolding lawful_ip_def by blast

lemma lawful_ip_query:
  "lawful_ip ip table \<Longrightarrow> args \<in> route_queries \<Longrightarrow> table (fst (ip os args)) = table os"
  unfolding lawful_ip_def by blast

text \<open>An operation that adds the route of a key, or reports why not.\<close>

definition adds :: "('os \<Rightarrow> 'k set) \<Rightarrow> 'k \<Rightarrow> 'os \<Rightarrow> 'os \<times> ('e + route_add_outcome) \<Rightarrow> bool" where
  "adds table k os res \<longleftrightarrow> (if snd res = Inr Added then k \<notin> table os \<and> table (fst res) = insert k (table os)
    else table (fst res) = table os)"

lemma add_route_generic_adds:
  assumes "lawful_ip ip table"
  shows "adds table k os (add_route_generic ip (ip_route_args ''add'' k []) os)"
  using lawful_ip_add [OF assms, of os k "[]"] lawful_ip_not_run [OF assms, of os k "[]"]
  by (cases "ip os (ip_route_args ''add'' k [])"; cases "snd (ip os (ip_route_args ''add'' k []))")
    (auto simp: adds_def add_route_generic_def handle_route_add_output_def split: if_splits)

lemma add_route6_with_src_adds:
  assumes "lawful_ip ip table"
  shows "adds table (key6 fmt tun r) os (add_route6_with_src fmt ip tun src r os)"
  using lawful_ip_add [OF assms, of os "key6 fmt tun r" "[''src'', show_ip fmt (V6 src)]"]
    lawful_ip_not_run [OF assms, of os "key6 fmt tun r" "[''src'', show_ip fmt (V6 src)]"]
  unfolding add_route6_with_src_def route_args
  by (cases "ip os (ip_route_args ''add'' (key6 fmt tun r) [''src'', show_ip fmt (V6 src)])";
      cases "snd (ip os (ip_route_args ''add'' (key6 fmt tun r) [''src'', show_ip fmt (V6 src)]))")
    (auto simp: adds_def split: if_splits)

lemma remove_route_generic_removes:
  "lawful_ip ip table \<Longrightarrow> k \<in> table os \<Longrightarrow>
    table (fst (remove_route_generic ip (ip_route_args ''del'' k []) os :: _ \<times> (('n4, 'n6) vpn_error + unit))) = table os - {k}"
  using lawful_ip_del [of ip table k os "[]"]
  by (cases "ip os (ip_route_args ''del'' k [])") (auto simp: remove_route_generic_def split: sum.split)

lemma fold_removes:
  assumes "\<And>r os. key r \<in> table os \<Longrightarrow> table (remove r os) = table os - {key r}"
  shows "distinct (map key rs) \<Longrightarrow> key ` set rs \<subseteq> table os \<Longrightarrow>
    table (fold remove rs os) = table os - key ` set rs"
proof (induction rs arbitrary: os)
  case (Cons r rs)
  have rm: "table (remove r os) = table os - {key r}" using Cons.prems(2) by (simp add: assms)
  moreover have "key ` set rs \<subseteq> table os - {key r}" using Cons.prems by (force simp: image_iff)
  ultimately show ?case using Cons.IH [of "remove r os"] Cons.prems(1) by auto
qed simp

lemma install_routes_exact:
  assumes add: "\<And>r os. adds table (key r) os (add r os)"
    and remove: "\<And>r os. key r \<in> table os \<Longrightarrow> table (fst (remove r os)) = table os - {key r}"
  shows "distinct (map key added) \<Longrightarrow> key ` set added \<subseteq> table os \<Longrightarrow>
    (case install_routes add remove routes added os of
       (os', Inl e) \<Rightarrow> table os' = table os - key ` set added
     | (os', Inr added') \<Rightarrow> distinct (map key added') \<and> key ` set added' \<subseteq> table os' \<and>
         table os' - key ` set added' = table os - key ` set added)"
proof (induction routes arbitrary: added os)
  case (Cons r routes)
  obtain os' x where x: "add r os = (os', x)" by (cases "add r os")
  have a: "adds table (key r) os (os', x)" using add [of r os] x by simp
  show ?case
  proof (cases x)
    case (Inl e)
    then have "table os' = table os" using a by (simp add: adds_def)
    moreover have "table (fold (\<lambda>r s. fst (remove r s)) (rev added) os') = table os' - key ` set (rev added)"
      using Cons.prems calculation by (intro fold_removes remove) (simp_all flip: rev_map)
    ultimately show ?thesis using x Inl by simp
  next
    case (Inr out)
    show ?thesis
    proof (cases out)
      case Added
      then have new: "key r \<notin> table os" "table os' = insert (key r) (table os)" using a Inr by (simp_all add: adds_def)
      then have "distinct (map key (added @ [r]))" "key ` set (added @ [r]) \<subseteq> table os'" using Cons.prems by auto
      moreover have "table os' - key ` set (added @ [r]) = table os - key ` set added" using new by auto
      ultimately show ?thesis using Cons.IH [of "added @ [r]" os'] x Inr Added by simp
    next
      case AlreadyExisted
      then have "table os' = table os" using a Inr by (simp add: adds_def)
      then show ?thesis using Cons.IH [of added os'] Cons.prems x Inr AlreadyExisted by simp
    qed
  qed
qed simp

lemma route_guard_drop_exact:
  assumes "lawful_ip ip table"
  shows "distinct (map (key4 fmt (rg_tun_name g)) (rg_routes g)) \<Longrightarrow> key4 fmt (rg_tun_name g) ` set (rg_routes g) \<subseteq> table os \<Longrightarrow>
      table (route_guard_drop fmt ip g os) = table os - key4 fmt (rg_tun_name g) ` set (rg_routes g)"
    and "distinct (map (key6 fmt (rg_tun_name g6)) (rg_routes g6)) \<Longrightarrow> key6 fmt (rg_tun_name g6) ` set (rg_routes g6) \<subseteq> table os \<Longrightarrow>
      table (route6_guard_drop fmt ip g6 os) = table os - key6 fmt (rg_tun_name g6) ` set (rg_routes g6)"
proof -
  assume "distinct (map (key4 fmt (rg_tun_name g)) (rg_routes g))" "key4 fmt (rg_tun_name g) ` set (rg_routes g) \<subseteq> table os"
  then have "table (fold (\<lambda>r. remove_route_sync_generic ip (linux_delete_args4 fmt r (rg_tun_name g))) (rev (rg_routes g)) os) =
      table os - key4 fmt (rg_tun_name g) ` set (rev (rg_routes g))"
    by (intro fold_removes) (simp_all add: remove_route_sync_generic_def route_args lawful_ip_del [OF assms] flip: rev_map)
  then show "table (route_guard_drop fmt ip g os) = table os - key4 fmt (rg_tun_name g) ` set (rg_routes g)"
    by (simp add: route_guard_drop_def)
next
  assume "distinct (map (key6 fmt (rg_tun_name g6)) (rg_routes g6))" "key6 fmt (rg_tun_name g6) ` set (rg_routes g6) \<subseteq> table os"
  then have "table (fold (\<lambda>r. remove_route_sync_generic ip (linux_delete_args6 fmt r (rg_tun_name g6))) (rev (rg_routes g6)) os) =
      table os - key6 fmt (rg_tun_name g6) ` set (rev (rg_routes g6))"
    by (intro fold_removes) (simp_all add: remove_route_sync_generic_def route_args lawful_ip_del [OF assms] flip: rev_map)
  then show "table (route6_guard_drop fmt ip g6 os) = table os - key6 fmt (rg_tun_name g6) ` set (rg_routes g6)"
    by (simp add: route6_guard_drop_def)
qed

text \<open>What installing routes may do to the table: all of it or nothing, reversibly.\<close>

definition installs ::
  "('os \<Rightarrow> route_key set) \<Rightarrow> ('r \<Rightarrow> route_key) \<Rightarrow> ('r route_guard \<Rightarrow> 'os \<Rightarrow> 'os) \<Rightarrow> 'os \<Rightarrow> 'os \<times> ('e + 'r route_guard) \<Rightarrow> bool" where
  "installs table key drop_guard os res \<longleftrightarrow>
    (case snd res of
       Inl e \<Rightarrow> table (fst res) = table os
     | Inr g \<Rightarrow> table os \<inter> key ` set (rg_routes g) = {} \<and> table (fst res) = table os \<union> key ` set (rg_routes g) \<and>
         (\<forall>later. key ` set (rg_routes g) \<subseteq> table later \<longrightarrow>
           table (drop_guard g later) = table later - key ` set (rg_routes g)))"

lemma installs_loop:
  assumes add: "\<And>r os. adds table (key r) os (add r os)"
    and remove: "\<And>r os. key r \<in> table os \<Longrightarrow> table (fst (remove r os)) = table os - {key r}"
    and drop_guard: "\<And>g os. rg_tun_name g = tun \<Longrightarrow> distinct (map key (rg_routes g)) \<Longrightarrow> key ` set (rg_routes g) \<subseteq> table os \<Longrightarrow>
      table (drop_guard g os) = table os - key ` set (rg_routes g)"
  shows "installs table key drop_guard os
    (case install_routes add remove rs [] os of
       (os', Inl e) \<Rightarrow> (os', Inl e)
     | (os', Inr added) \<Rightarrow> (os', Inr \<lparr> rg_tun_name = tun, rg_routes = added \<rparr>))"
proof -
  obtain os' x where x: "install_routes add remove rs [] os = (os', x)" by fastforce
  have "case (os', x) of (os', Inl e) \<Rightarrow> table os' = table os - key ` set []
     | (os', Inr added') \<Rightarrow> distinct (map key added') \<and> key ` set added' \<subseteq> table os' \<and>
         table os' - key ` set added' = table os - key ` set []"
    unfolding x [symmetric] by (rule install_routes_exact [OF add remove]) simp_all
  then show ?thesis using drop_guard by (cases x) (auto simp: x installs_def)
qed

text \<open>C4. Installing the VPN's routes, of either family, is all or nothing: if any route
  cannot be added, the routing table is left as it was; otherwise the guard holds exactly the
  routes that were new, and dropping it later removes those and nothing else, so a route that
  existed before is never deleted.\<close>

theorem route_installation_atomic:
  fixes fmt :: "('n4, 'n6) addr_text"
  assumes "lawful_ip ip table"
  shows "(add_routes lib fmt ip tun routes os = Some res \<longrightarrow>
      installs table (key4 fmt tun) (route_guard_drop fmt ip) os res) \<and>
    (add_routes6_with_src lib fmt ip tun routes6 src os = Some res6 \<longrightarrow>
      installs table (key6 fmt tun) (route6_guard_drop fmt ip) os res6)"
proof (intro conjI impI)
  have "installs table (key4 fmt tun) (route_guard_drop fmt ip) os
      (case install_routes (\<lambda>r. add_route_generic ip (linux_add_args4 fmt r tun))
          (\<lambda>r. remove_route_generic ip (linux_delete_args4 fmt r tun)) rs [] os of
         (os', Inl e) \<Rightarrow> (os', Inl (e :: ('n4, 'n6) vpn_error))
       | (os', Inr added) \<Rightarrow> (os', Inr \<lparr> rg_tun_name = tun, rg_routes = added \<rparr>))" for rs
    by (rule installs_loop) (simp_all add: route_args add_route_generic_adds [OF assms] remove_route_generic_removes [OF assms]
      route_guard_drop_exact(1) [OF assms])
  then show "installs table (key4 fmt tun) (route_guard_drop fmt ip) os res"
    if "add_routes lib fmt ip tun routes os = Some res" using that by (auto simp: add_routes_def)
  have "installs table (key6 fmt tun) (route6_guard_drop fmt ip) os
      (case install_routes (add_route6_with_src fmt ip tun src)
          (\<lambda>r. remove_route_generic ip (linux_delete_args6 fmt r tun)) rs [] os of
         (os', Inl e) \<Rightarrow> (os', Inl (e :: ('n4, 'n6) vpn_error))
       | (os', Inr added) \<Rightarrow> (os', Inr \<lparr> rg_tun_name = tun, rg_routes = added \<rparr>))" for rs
    by (rule installs_loop) (simp_all add: route_args add_route6_with_src_adds [OF assms] remove_route_generic_removes [OF assms]
      route_guard_drop_exact(2) [OF assms])
  then show "installs table (key6 fmt tun) (route6_guard_drop fmt ip) os res6"
    if "add_routes6_with_src lib fmt ip tun routes6 src os = Some res6" using that by (auto simp: add_routes6_with_src_def)
qed

text \<open>A routing table that behaves so.\<close>

definition parse_ip_args :: "string list \<Rightarrow> (string \<times> route_key) option" where
  "parse_ip_args args =
    (let six = (take 1 args = [''-6'']); rest = (if six then drop 1 args else args) in
     if length rest < 5 then None
     else if rest ! 3 = ''via'' then Some (rest ! 1, six, rest ! 2, Some (rest ! 4), rest ! 6)
     else Some (rest ! 1, six, rest ! 2, None, rest ! 4))"

definition sample_ip :: "route_key set ip_command" where
  "sample_ip table args =
    (let ok = Inr \<lparr> cmd_success = True, cmd_stdout = [], cmd_stderr = [] \<rparr> in
     case parse_ip_args args of
       None \<Rightarrow> (table, ok)
     | Some (verb, k) \<Rightarrow>
         if verb = ''add''
         then if k \<in> table
              then (table, Inr \<lparr> cmd_success = False, cmd_stdout = [], cmd_stderr = ''RTNETLINK answers: File exists'' \<rparr>)
              else (insert k table, ok)
         else if verb = ''del'' then (table - {k}, ok)
         else (table, ok))"

lemma parse_ip_route_args: "parse_ip_args (ip_route_args verb k extra) = Some (verb, k)"
  by (cases k) (auto simp: parse_ip_args_def ip_route_args_def Let_def split: option.splits)

lemma sample_ip_lawful: "lawful_ip sample_ip id"
  unfolding lawful_ip_def
proof (intro conjI allI impI)
  fix os args assume "args \<in> route_queries"
  then have "parse_ip_args args = None" by (auto simp: route_queries_def parse_ip_args_def)
  then show "id (fst (sample_ip os args)) = id os" by (simp add: sample_ip_def)
qed (auto simp: sample_ip_def parse_ip_route_args Let_def split: if_splits)

definition sample_text :: "(32 word \<times> nat, 128 word \<times> nat) addr_text" where
  "sample_text = \<lparr> show_ip = (\<lambda>_. ''ip''), parse_ip = (\<lambda>_. None),
     show_net4 = (\<lambda>(a, p). if a = 0 then ''0.0.0.0/1'' else ''128.0.0.0/1''), show_net6 = (\<lambda>_. ''net6'') \<rparr>"

theorem route_installation_atomic_witness:
  "\<exists>res. add_routes cidr_ipnet sample_text sample_ip ''tun0'' [(0, 0)] {(False, ''0.0.0.0/1'', None, ''tun0'')} = Some res \<and>
    fst res = {(False, ''0.0.0.0/1'', None, ''tun0''), (False, ''128.0.0.0/1'', None, ''tun0'')} \<and>
    (\<forall>g. snd res = Inr g \<longrightarrow> route_guard_drop sample_text sample_ip g (fst res) = {(False, ''0.0.0.0/1'', None, ''tun0'')})"
proof -
  define res where "res = ({(False, ''0.0.0.0/1'', None, ''tun0''), (False, ''128.0.0.0/1'', None, ''tun0'')} :: route_key set,
      Inr \<lparr> rg_tun_name = ''tun0'', rg_routes = [(0x80000000 :: 32 word, 1 :: nat)] \<rparr>
        :: (32 word \<times> nat, 128 word \<times> nat) vpn_error + (32 word \<times> nat) route_guard)"
  have exists: "is_already_exists_error ''RTNETLINK answers: File exists''" by code_simp
  have run: "add_routes cidr_ipnet sample_text sample_ip ''tun0'' [(0, 0)] {(False, ''0.0.0.0/1'', None, ''tun0'')} = Some res"
    by (simp add: add_routes_def flat_expand_def expand_default_route4_def cidr_ipnet_def cidr_net_def route_args
        add_route_generic_def sample_ip_def parse_ip_route_args key4_def sample_text_def handle_route_add_output_def
        exists Let_def res_def insert_commute)
  then have "installs id (key4 sample_text ''tun0'') (route_guard_drop sample_text sample_ip)
      {(False, ''0.0.0.0/1'', None, ''tun0'')} res"
    using route_installation_atomic [OF sample_ip_lawful] by blast
  then have "route_guard_drop sample_text sample_ip g (fst res) = {(False, ''0.0.0.0/1'', None, ''tun0'')}"
    if "snd res = Inr g" for g using that by (auto simp: installs_def res_def key4_def sample_text_def)
  with run show ?thesis by (auto simp: res_def)
qed

section \<open>Full tunnel\<close>

lemma lawful_new_prefix:
  "lawful_net ops \<Longrightarrow> new_net ops a p = Some n \<Longrightarrow>
    prefix_len ops n = p \<and> network ops n = a AND NOT (mask (LENGTH('a) - p))"
  for ops :: "('n, 'a::len word) net_ops"
proof -
  assume "lawful_net ops" and n: "new_net ops a p = Some n"
  then have "case new_net ops a p of None \<Rightarrow> p > LENGTH('a)
     | Some n \<Rightarrow> p \<le> LENGTH('a) \<and> prefix_len ops n = p \<and> network ops n = a AND NOT (mask (LENGTH('a) - p))"
    unfolding lawful_net_def by blast
  then show ?thesis using n by simp
qed

lemma new_net_half: "lawful_net (ops :: ('n, 'a::len word) net_ops) \<Longrightarrow> \<exists>n. new_net ops a 1 = Some n"
proof -
  assume "lawful_net ops"
  then have "case new_net ops a 1 of None \<Rightarrow> 1 > LENGTH('a)
     | Some n \<Rightarrow> 1 \<le> LENGTH('a) \<and> prefix_len ops n = 1 \<and> network ops n = a AND NOT (mask (LENGTH('a) - 1))"
    unfolding lawful_net_def by blast
  moreover have "\<not> 1 > LENGTH('a)" using len_gt_0 [where 'a = 'a] by linarith
  ultimately show ?thesis by (cases "new_net ops a 1") auto
qed

lemma halves_cover:
  fixes ops :: "('n, 'a::len word) net_ops"
  assumes law: "lawful_net ops" and lo: "new_net ops 0 1 = Some lo" and hi: "new_net ops h 1 = Some hi"
    and h: "unat h = 2 ^ (LENGTH('a) - 1)"
  shows "contains ops lo a \<or> contains ops hi a" and "prefix_len ops lo = 1" and "prefix_len ops hi = 1"
proof -
  have len: "1 \<le> LENGTH('a)" using len_gt_0 [where 'a = 'a] by linarith
  have n: "network ops lo = 0" "prefix_len ops lo = 1" "prefix_len ops hi = 1"
    "network ops hi = h AND NOT (mask (LENGTH('a) - 1))"
    using lawful_new_prefix [OF law lo] lawful_new_prefix [OF law hi] by simp_all
  then show "prefix_len ops lo = 1" "prefix_len ops hi = 1" by simp_all
  have nh: "unat (network ops hi) = 2 ^ (LENGTH('a) - 1)" by (simp add: n(4) and_not_mask_unat h)
  have "2 ^ (LENGTH('a) - 1) + 2 ^ (LENGTH('a) - 1) = (2::nat) ^ LENGTH('a)"
    using len by (metis Suc_diff_1 less_le_trans less_one linorder_not_le mult_2 power_Suc zero_less_one)
  then have "unat a < 2 ^ (LENGTH('a) - 1) + 2 ^ (LENGTH('a) - 1)" using unat_less_exp [of a] by simp
  then show "contains ops lo a \<or> contains ops hi a"
    by (auto simp: contains_iff_range [OF law] word_le_nat_alt broadcast_unat [OF law] n(1-3) nh)
qed

lemma default_contains_all:
  assumes "lawful_net (ops :: ('n, 'a::len word) net_ops)" and "prefix_len ops r = 0"
  shows "contains ops r a"
proof -
  have "unat (broadcast ops r) = unat (network ops r) + (2 ^ LENGTH('a) - 1)"
    using broadcast_unat [OF assms(1), of r] assms(2) by simp
  moreover have "unat (broadcast ops r) < 2 ^ LENGTH('a)" "unat a < 2 ^ LENGTH('a)" by (rule unat_less_exp)+
  ultimately have "unat (network ops r) = 0" "unat a \<le> unat (broadcast ops r)" by linarith+
  then show ?thesis by (simp add: contains_iff_range [OF assms(1)] word_le_nat_alt)
qed

text \<open>C28. The routes installed for a configured route cover exactly the addresses of that
  route, and each of them is more specific than the system's default route: a default route of
  either family becomes its two halves, which the local-network check exempts, and any other
  route is installed as it is.\<close>

theorem full_tunnel_routes:
  assumes "lawful_ipnet lib"
  shows "(\<exists>rs. expand_default_route4 lib r = Some rs \<and>
      (\<forall>a. (\<exists>n \<in> set rs. contains (ops4 lib) n a) = contains (ops4 lib) r a) \<and>
      (if prefix_len (ops4 lib) r = 0 then map (prefix_len (ops4 lib)) rs = [EXEMPT_MAX_PREFIX_LEN, EXEMPT_MAX_PREFIX_LEN]
       else rs = [r])) \<and>
    (\<exists>rs. expand_default_route6 lib r6 = Some rs \<and>
      (\<forall>a. (\<exists>n \<in> set rs. contains (ops6 lib) n a) = contains (ops6 lib) r6 a) \<and>
      (if prefix_len (ops6 lib) r6 = 0 then map (prefix_len (ops6 lib)) rs = [EXEMPT_MAX_PREFIX_LEN, EXEMPT_MAX_PREFIX_LEN]
       else rs = [r6]))"
proof -
  have laws: "lawful_net (ops4 lib)" "lawful_net (ops6 lib)" using assms by (simp_all add: lawful_ipnet_def)
  obtain lo hi where n: "new_net (ops4 lib) 0 1 = Some lo" "new_net (ops4 lib) 0x80000000 1 = Some hi"
    using new_net_half [OF laws(1), of 0] new_net_half [OF laws(1), of "0x80000000"] by auto
  obtain lo6 hi6 where n6: "new_net (ops6 lib) 0 1 = Some lo6" "new_net (ops6 lib) (0x8000 * 2 ^ 112) 1 = Some hi6"
    using new_net_half [OF laws(2), of 0] new_net_half [OF laws(2), of "0x8000 * 2 ^ 112"] by auto
  have e: "expand_default_route4 lib r = (if prefix_len (ops4 lib) r \<noteq> 0 then Some [r] else Some [lo, hi])"
    "expand_default_route6 lib r6 = (if prefix_len (ops6 lib) r6 \<noteq> 0 then Some [r6] else Some [lo6, hi6])"
    by (simp_all only: expand_default_route4_def expand_default_route6_def n n6 Option.bind.bind_lunit)
  show ?thesis
    using halves_cover [OF laws(1) n] halves_cover [OF laws(2) n6]
      default_contains_all [OF laws(1), of r] default_contains_all [OF laws(2), of r6]
    by (auto simp: e EXEMPT_MAX_PREFIX_LEN_def)
qed

theorem full_tunnel_routes_witness:
  "\<exists>rs. expand_default_route4 cidr_ipnet (0, 0) = Some rs \<and> (\<exists>n \<in> set rs. contains (ops4 cidr_ipnet) n 0x08080808)"
proof -
  have "contains (ops4 cidr_ipnet) (0, 0) 0x08080808" by (simp add: cidr_ipnet_def cidr_net_def mask_eq_exp_minus_1)
  with full_tunnel_routes [OF lawful_cidr_ipnet, of "(0, 0)" "(0, 0)", THEN conjunct1] show ?thesis by blast
qed

end
