(* ===== verification/Bypass_Routes.thy ===== *)
theory Bypass_Routes
  imports Routes
begin

unbundle bit_operations_syntax

text \<open>
  Bypass routes, which keep the tunnel's own transport off the tunnel: finding the next hop and
  adding the host route (\<open>net/device.rs\<close>, the Linux build), and the manager that is fed with
  the relay addresses and the server's candidate addresses (\<open>tunnel/client.rs\<close>).  A map keyed
  by address is an association list; a set of addresses is the list of its members in the order
  they are visited.
\<close>

section \<open>Finding the next hop\<close>

record bypass_route_info =
  bi_peer_ip :: ip_addr
  bi_device :: string
  bi_gateway :: "ip_addr option"
  bi_gateway_str :: "string option"
  bi_if_index :: "32 word option"

record underlay_gateway =
  ug_device :: string
  ug_gateway :: "ip_addr option"
  ug_gateway_str :: "string option"
  ug_if_index :: "32 word option"

definition is_ascii_digit :: "char \<Rightarrow> bool" where
  "is_ascii_digit c \<longleftrightarrow> 48 \<le> (of_char c :: nat) \<and> (of_char c :: nat) \<le> 57"

definition is_ascii_hexdigit :: "char \<Rightarrow> bool" where
  "is_ascii_hexdigit c \<longleftrightarrow> is_ascii_digit c \<or> 65 \<le> (of_char c :: nat) \<and> (of_char c :: nat) \<le> 70 \<or>
    97 \<le> (of_char c :: nat) \<and> (of_char c :: nat) \<le> 102"

definition is_ascii_alphanumeric :: "char \<Rightarrow> bool" where
  "is_ascii_alphanumeric c \<longleftrightarrow> is_ascii_digit c \<or> 65 \<le> (of_char c :: nat) \<and> (of_char c :: nat) \<le> 90 \<or>
    97 \<le> (of_char c :: nat) \<and> (of_char c :: nat) \<le> 122"

definition is_whitespace :: "char \<Rightarrow> bool" where
  "is_whitespace c \<longleftrightarrow> 9 \<le> (of_char c :: nat) \<and> (of_char c :: nat) \<le> 13 \<or> of_char c = (32 :: nat)"

definition is_valid_gateway_str :: "string \<Rightarrow> bool" where
  "is_valid_gateway_str s =
    (if s = [] then False
     else
       let addr_part = takeWhile (\<lambda>c. c \<noteq> CHR ''%'') s;
           scope_part = dropWhile (\<lambda>c. c \<noteq> CHR ''%'') s in
       if \<not> list_all (\<lambda>c. is_ascii_hexdigit c \<or> c = CHR '':'' \<or> c = CHR ''.'') addr_part then False
       else case scope_part of
           [] \<Rightarrow> True
         | _ # scope \<Rightarrow>
             scope \<noteq> [] \<and> list_all (\<lambda>c. is_ascii_alphanumeric c \<or> c = CHR ''_'' \<or> c = CHR ''-'') scope)"

function split_whitespace :: "string \<Rightarrow> string list" where
  "split_whitespace [] = []"
| "split_whitespace (c # cs) =
    (if is_whitespace c then split_whitespace cs
     else (c # takeWhile (\<lambda>c. \<not> is_whitespace c) cs) # split_whitespace (dropWhile (\<lambda>c. \<not> is_whitespace c) cs))"
  by pat_completeness auto

termination split_whitespace
  by (relation "measure length") (auto simp: length_dropWhile_le le_imp_less_Suc)

declare split_whitespace.simps [simp del]

text \<open>The loop over the tokens sets the device, the gateway and its text.\<close>

fun scan_route_tokens ::
  "('n4, 'n6) addr_text \<Rightarrow> string list \<Rightarrow> string option \<times> ip_addr option \<times> string option \<Rightarrow>
     string option \<times> ip_addr option \<times> string option" where
  "scan_route_tokens fmt (tok # nxt # rest) (device, gateway, gateway_str) =
    (let device = (if tok = ''dev'' then Some nxt else device);
         (gateway, gateway_str) =
           (if tok = ''via'' \<and> is_valid_gateway_str nxt then (parse_ip fmt nxt, Some nxt) else (gateway, gateway_str)) in
     scan_route_tokens fmt (nxt # rest) (device, gateway, gateway_str))"
| "scan_route_tokens fmt _ st = st"

definition parse_linux_route_get ::
  "('n4, 'n6) addr_text \<Rightarrow> string \<Rightarrow> ip_addr \<Rightarrow> ('n4, 'n6) vpn_error + bypass_route_info" where
  "parse_linux_route_get fmt output peer_ip =
    (case scan_route_tokens fmt (split_whitespace output) (None, None, None) of
       (None, _, _) \<Rightarrow> Inl (TunDevice ''Could not determine device for route'')
     | (Some device, gateway, gateway_str) \<Rightarrow>
         Inr \<lparr> bi_peer_ip = peer_ip, bi_device = device, bi_gateway = gateway, bi_gateway_str = gateway_str,
           bi_if_index = None \<rparr>)"

definition is_ipv6 :: "ip_addr \<Rightarrow> bool" where
  "is_ipv6 ip = (case ip of V4 _ \<Rightarrow> False | V6 _ \<Rightarrow> True)"

definition query_route_for_ip ::
  "('n4, 'n6) addr_text \<Rightarrow> 'os ip_command \<Rightarrow> ip_addr \<Rightarrow> 'os \<Rightarrow> 'os \<times> (('n4, 'n6) vpn_error + bypass_route_info)" where
  "query_route_for_ip fmt ip_cmd ip os =
    (let args = (if \<not> is_ipv6 ip then [''route'', ''get'', show_ip fmt ip] else [''-6'', ''route'', ''get'', show_ip fmt ip]) in
     case ip_cmd os args of
       (os', Inl e) \<Rightarrow> (os', Inl (TunDevice ''Failed to query route''))
     | (os', Inr output) \<Rightarrow>
         (os', if \<not> cmd_success output then Inl (TunDevice ''Failed to query route'')
               else parse_linux_route_get fmt (cmd_stdout output) ip))"

definition unspecified_addr :: "bool \<Rightarrow> ip_addr" where
  "unspecified_addr six = (if six then V6 0 else V4 0)"

text \<open>\<open>str::lines\<close>, up to the carriage return it also strips, which splitting at white space
  ignores.\<close>

function lines :: "string \<Rightarrow> string list" where
  "lines [] = []"
| "lines (c # cs) = takeWhile (\<lambda>c. c \<noteq> CHR 0x0A) (c # cs) # lines (drop 1 (dropWhile (\<lambda>c. c \<noteq> CHR 0x0A) (c # cs)))"
  by pat_completeness auto

termination lines
proof (relation "measure length")
  fix c :: char and cs
  have "length (dropWhile (\<lambda>c. c \<noteq> CHR 0x0A) (c # cs)) \<le> Suc (length cs)"
    using length_dropWhile_le [of "\<lambda>c. c \<noteq> CHR 0x0A" "c # cs"] by simp
  then show "(drop 1 (dropWhile (\<lambda>c. c \<noteq> CHR 0x0A) (c # cs)), c # cs) \<in> measure length" by auto
qed simp

declare lines.simps [simp del]

definition query_default_gateway ::
  "('n4, 'n6) addr_text \<Rightarrow> 'os ip_command \<Rightarrow> bool \<Rightarrow> 'os \<Rightarrow> 'os \<times> (('n4, 'n6) vpn_error + underlay_gateway)" where
  "query_default_gateway fmt ip_cmd six os =
    (let args = (if six then [''-6'', ''route'', ''show'', ''default''] else [''-4'', ''route'', ''show'', ''default'']) in
     case ip_cmd os args of
       (os', Inl e) \<Rightarrow> (os', Inl (TunDevice ''Failed to query default route''))
     | (os', Inr output) \<Rightarrow>
         (os', if \<not> cmd_success output then Inl (TunDevice ''Failed to query default route'')
               else
                 let line = (case find (\<lambda>l. \<not> list_all is_whitespace l) (lines (cmd_stdout output)) of
                     Some l \<Rightarrow> l | None \<Rightarrow> []) in
                 and_then (parse_linux_route_get fmt line (unspecified_addr six)) (\<lambda>info.
                   Inr \<lparr> ug_device = bi_device info, ug_gateway = bi_gateway info,
                     ug_gateway_str = bi_gateway_str info, ug_if_index = None \<rparr>)))"

definition repin_via_fallback :: "bypass_route_info \<Rightarrow> underlay_gateway \<Rightarrow> bypass_route_info" where
  "repin_via_fallback route_info fb =
    route_info\<lparr>bi_device := ug_device fb, bi_gateway := ug_gateway fb, bi_gateway_str := ug_gateway_str fb,
      bi_if_index := ug_if_index fb\<rparr>"

definition resolve_bypass_route_info ::
  "bypass_route_info \<Rightarrow> string option \<Rightarrow> underlay_gateway option \<Rightarrow> ('n4, 'n6) vpn_error + bypass_route_info" where
  "resolve_bypass_route_info route_info disallow_device underlay_fallback =
    (if (case disallow_device of Some disallowed \<Rightarrow> bi_device route_info = disallowed | None \<Rightarrow> False) then
       (case underlay_fallback of
          Some fb \<Rightarrow>
            if ug_gateway fb \<noteq> None then Inr (repin_via_fallback route_info fb)
            else Inl (TunDevice ''Refusing bypass route: route lookup resolved via VPN tunnel interface'')
        | None \<Rightarrow> Inl (TunDevice ''Refusing bypass route: route lookup resolved via VPN tunnel interface''))
     else if bi_gateway route_info = None then
       (case underlay_fallback of
          Some fb \<Rightarrow>
            if ug_gateway fb \<noteq> None then Inr (repin_via_fallback route_info fb)
            else Inl (TunDevice ''Refusing bypass route: no next-hop gateway'')
        | None \<Rightarrow> Inl (TunDevice ''Refusing bypass route: no next-hop gateway''))
     else Inr route_info)"

section \<open>Adding and removing the host route\<close>

definition host_route :: "('n4, 'n6) addr_text \<Rightarrow> ip_addr \<Rightarrow> string" where
  "host_route fmt ip = show_ip fmt ip @ (if is_ipv6 ip then ''/128'' else ''/32'')"

definition add_bypass_route_impl ::
  "('n4, 'n6) addr_text \<Rightarrow> 'os ip_command \<Rightarrow> bypass_route_info \<Rightarrow> 'os \<Rightarrow> 'os \<times> (('n4, 'n6) vpn_error + route_add_outcome)" where
  "add_bypass_route_impl fmt ip_cmd info os =
    (case bi_gateway info of
       None \<Rightarrow> (os, Inl (TunDevice ''Refusing link-scope bypass route (no gateway)''))
     | Some gw \<Rightarrow>
         (case ip_cmd os ((if is_ipv6 (bi_peer_ip info) then [''-6''] else []) @
                 [''route'', ''add'', host_route fmt (bi_peer_ip info)] @ [''via'', show_ip fmt gw] @ [''dev'', bi_device info]) of
            (os', Inl e) \<Rightarrow> (os', Inl (TunDevice ''Failed to add bypass route''))
          | (os', Inr output) \<Rightarrow>
              (os', if cmd_success output then Inr Added
                    else if is_already_exists_error (cmd_stderr output) then Inr AlreadyExisted
                    else Inl (TunDevice ''Failed to add bypass route''))))"

record bypass_route_guard =
  bg_peer_ip :: ip_addr
  bg_device :: string
  bg_gateway :: "ip_addr option"
  bg_gateway_str :: "string option"
  bg_if_index :: "32 word option"
  bg_owned :: bool

definition add_bypass_route ::
  "('n4, 'n6) addr_text \<Rightarrow> 'os ip_command \<Rightarrow> ip_addr \<Rightarrow> string option \<Rightarrow> underlay_gateway option \<Rightarrow> 'os \<Rightarrow>
     'os \<times> (('n4, 'n6) vpn_error + bypass_route_guard)" where
  "add_bypass_route fmt ip_cmd peer_ip disallow_device underlay_fallback os =
    (case query_route_for_ip fmt ip_cmd peer_ip os of
       (os', Inl e) \<Rightarrow> (os', Inl e)
     | (os', Inr queried) \<Rightarrow>
         (case resolve_bypass_route_info queried disallow_device underlay_fallback of
            Inl e \<Rightarrow> (os', Inl e)
          | Inr route_info \<Rightarrow>
              (case add_bypass_route_impl fmt ip_cmd route_info os' of
                 (os'', Inl e) \<Rightarrow> (os'', Inl e)
               | (os'', Inr outcome) \<Rightarrow>
                   (os'', Inr \<lparr> bg_peer_ip = peer_ip, bg_device = bi_device route_info, bg_gateway = bi_gateway route_info,
                      bg_gateway_str = bi_gateway_str route_info, bg_if_index = bi_if_index route_info,
                      bg_owned = (outcome = Added) \<rparr>))))"

definition remove_bypass_route_sync ::
  "('n4, 'n6) addr_text \<Rightarrow> 'os ip_command \<Rightarrow> ip_addr \<Rightarrow> string \<Rightarrow> ip_addr option \<Rightarrow> 'os \<Rightarrow> 'os" where
  "remove_bypass_route_sync fmt ip_cmd peer_ip device gateway os =
    fst (ip_cmd os ((if is_ipv6 peer_ip then [''-6''] else []) @ [''route'', ''del'', host_route fmt peer_ip] @
      (case gateway of Some gw \<Rightarrow> [''via'', show_ip fmt gw] | None \<Rightarrow> []) @ [''dev'', device]))"

definition bypass_guard_drop ::
  "('n4, 'n6) addr_text \<Rightarrow> 'os ip_command \<Rightarrow> bypass_route_guard \<Rightarrow> 'os \<Rightarrow> 'os" where
  "bypass_guard_drop fmt ip_cmd g os =
    (if \<not> bg_owned g then os
     else remove_bypass_route_sync fmt ip_cmd (bg_peer_ip g) (bg_device g) (bg_gateway g) os)"

section \<open>The manager\<close>

text \<open>\<open>Ipv4Addr\<close> and \<open>Ipv6Addr\<close> address classes.\<close>

definition is_private4 :: "32 word \<Rightarrow> bool" where
  "is_private4 a \<longleftrightarrow> drop_bit 24 a = 10 \<or> drop_bit 20 a = 0xAC1 \<or> drop_bit 16 a = 0xC0A8"

definition is_link_local4 :: "32 word \<Rightarrow> bool" where
  "is_link_local4 a \<longleftrightarrow> drop_bit 16 a = 0xA9FE"

definition is_unique_local6 :: "128 word \<Rightarrow> bool" where
  "is_unique_local6 a \<longleftrightarrow> drop_bit 121 a = 0x7E"

definition private_scope :: "ip_addr \<Rightarrow> bool" where
  "private_scope ip =
    (case ip of
       V4 a \<Rightarrow> is_private4 a \<or> is_link_local4 a
     | V6 a \<Rightarrow> is_unique_local6 a \<or> is_unicast_link_local a)"

record ('n4, 'n6) bypass_route_manager =
  bm_active_routes :: "(ip_addr \<times> bypass_route_guard) list"
  bm_vpn_tun_name :: string
  bm_vpn_routes4 :: "'n4 list"
  bm_vpn_routes6 :: "'n6 list"
  bm_underlay_gw4 :: "underlay_gateway option"
  bm_underlay_gw6 :: "underlay_gateway option"
  bm_collected :: "ip_addr set"

definition ip_covered_by_vpn_routes :: "('n4, 'n6) ipnet \<Rightarrow> ('n4, 'n6) bypass_route_manager \<Rightarrow> ip_addr \<Rightarrow> bool" where
  "ip_covered_by_vpn_routes lib m ip =
    (case ip of
       V4 v4 \<Rightarrow> list_ex (\<lambda>net. contains (ops4 lib) net v4) (bm_vpn_routes4 m)
     | V6 v6 \<Rightarrow> list_ex (\<lambda>net. contains (ops6 lib) net v6) (bm_vpn_routes6 m))"

definition bypass_one ::
  "('n4, 'n6) addr_text \<Rightarrow> 'os ip_command \<Rightarrow> ip_addr \<Rightarrow> ('n4, 'n6) bypass_route_manager \<times> 'os \<Rightarrow>
     ('n4, 'n6) bypass_route_manager \<times> 'os" where
  "bypass_one fmt ip_cmd ip st =
    (case st of (m, os) \<Rightarrow>
       let underlay_fallback = (case ip of V4 _ \<Rightarrow> bm_underlay_gw4 m | V6 _ \<Rightarrow> bm_underlay_gw6 m) in
       case add_bypass_route fmt ip_cmd ip (Some (bm_vpn_tun_name m)) underlay_fallback os
              :: 'os \<times> (('n4, 'n6) vpn_error + bypass_route_guard) of
         (os', Inr guard) \<Rightarrow> (m\<lparr>bm_active_routes := (ip, guard) # bm_active_routes m\<rparr>, os')
       | (os', Inl err) \<Rightarrow> (m, os'))"

definition bypass_update ::
  "('n4, 'n6) ipnet \<Rightarrow> ('n4, 'n6) addr_text \<Rightarrow> 'os ip_command \<Rightarrow> ip_addr list \<Rightarrow>
     ('n4, 'n6) bypass_route_manager \<times> 'os \<Rightarrow> ('n4, 'n6) bypass_route_manager \<times> 'os" where
  "bypass_update lib fmt ip_cmd required_ips st =
    (case st of (m, os) \<Rightarrow>
       let required_ips = filter (\<lambda>ip. \<not> private_scope ip \<and> ip_covered_by_vpn_routes lib m ip) required_ips;
           m = (if required_ips \<noteq> [] then m\<lparr>bm_collected := bm_collected m \<union> set required_ips\<rparr> else m);
           to_add = filter (\<lambda>ip. map_of (bm_active_routes m) ip = None) required_ips in
       fold (bypass_one fmt ip_cmd) to_add (m, os))"

definition manager_drop ::
  "('n4, 'n6) addr_text \<Rightarrow> 'os ip_command \<Rightarrow> ('n4, 'n6) bypass_route_manager \<Rightarrow> 'os \<Rightarrow> 'os" where
  "manager_drop fmt ip_cmd m os = fold (\<lambda>(_, g). bypass_guard_drop fmt ip_cmd g) (bm_active_routes m) os"

text \<open>The manager's task over the sets it receives until the sender is gone.\<close>

definition run_bypass_route_manager ::
  "('n4, 'n6) ipnet \<Rightarrow> ('n4, 'n6) addr_text \<Rightarrow> 'os ip_command \<Rightarrow> ip_addr list list \<Rightarrow>
     ('n4, 'n6) bypass_route_manager \<times> 'os \<Rightarrow> 'os" where
  "run_bypass_route_manager lib fmt ip_cmd received st =
    (case fold (bypass_update lib fmt ip_cmd) received st of (m, os) \<Rightarrow> manager_drop fmt ip_cmd m os)"

definition capture_underlay_gateway ::
  "('n4, 'n6) addr_text \<Rightarrow> 'os ip_command \<Rightarrow> bool \<Rightarrow> 'os \<Rightarrow> 'os \<times> underlay_gateway option" where
  "capture_underlay_gateway fmt ip_cmd six os =
    (case query_default_gateway fmt ip_cmd six os :: 'os \<times> (('n4, 'n6) vpn_error + underlay_gateway) of
       (os', Inr gw) \<Rightarrow> (os', Some gw)
     | (os', Inl e) \<Rightarrow> (os', None))"

text \<open>What happens before the VPN routes are installed; \<open>relay_ips\<close> are the addresses the relays
  resolved to.\<close>

definition add_iroh_bypass_routes ::
  "('n4, 'n6) ipnet \<Rightarrow> ('n4, 'n6) addr_text \<Rightarrow> 'os ip_command \<Rightarrow> string \<Rightarrow> 'n4 list \<Rightarrow> 'n6 list \<Rightarrow> ip_addr list \<Rightarrow>
     ip_addr list \<Rightarrow> 'os \<Rightarrow> ('n4, 'n6) bypass_route_manager \<times> 'os" where
  "add_iroh_bypass_routes lib fmt ip_cmd vpn_tun_name vpn_routes4 vpn_routes6 relay_ips initial_server_addrs os =
    (case (if vpn_routes4 = [] then (os, None) else capture_underlay_gateway fmt ip_cmd False os) of (os1, gw4) \<Rightarrow>
     case (if vpn_routes6 = [] then (os1, None) else capture_underlay_gateway fmt ip_cmd True os1) of (os2, gw6) \<Rightarrow>
       let manager = \<lparr> bm_active_routes = [], bm_vpn_tun_name = vpn_tun_name, bm_vpn_routes4 = vpn_routes4,
             bm_vpn_routes6 = vpn_routes6, bm_underlay_gw4 = gw4, bm_underlay_gw6 = gw6, bm_collected = {} \<rparr>;
           bootstrap_ips = remdups (relay_ips @ initial_server_addrs) in
       if bootstrap_ips \<noteq> [] then bypass_update lib fmt ip_cmd bootstrap_ips (manager, os2) else (manager, os2))"

text \<open>Resolving the relays: the URL type and the resolver belong to other crates.\<close>

record 'u url_ops =
  host_str :: "'u \<Rightarrow> string option"
  url_port :: "'u \<Rightarrow> 16 word option"

definition resolve_relay_url ::
  "('n4, 'n6) addr_text \<Rightarrow> 'u url_ops \<Rightarrow> (string \<Rightarrow> string + ip_addr list) option \<Rightarrow> 'u \<Rightarrow>
     unit + (ip_addr \<times> 16 word) list" where
  "resolve_relay_url fmt uo dns_resolver relay_url =
    (case host_str uo relay_url of
       None \<Rightarrow> Inr []
     | Some host \<Rightarrow>
         let port = (case url_port uo relay_url of Some p \<Rightarrow> p | None \<Rightarrow> 443) in
         (case parse_ip fmt host of
            Some ip \<Rightarrow> Inr [(ip, port)]
          | None \<Rightarrow>
              (case dns_resolver of
                 None \<Rightarrow> Inl ()
               | Some lookup \<Rightarrow>
                   (case lookup host of
                      Inr addrs \<Rightarrow> Inr (map (\<lambda>ip. (ip, port)) addrs)
                    | Inl _ \<Rightarrow> Inl ()))))"

definition collect_relay_ips ::
  "('n4, 'n6) addr_text \<Rightarrow> 'u url_ops \<Rightarrow> (string \<Rightarrow> string + ip_addr list) option \<Rightarrow> 'u list \<Rightarrow> ip_addr list" where
  "collect_relay_ips fmt uo dns_resolver urls =
    remdups (concat (map (\<lambda>url. case resolve_relay_url fmt uo dns_resolver url of
        Inr addrs \<Rightarrow> map fst addrs | Inl _ \<Rightarrow> []) urls))"

text \<open>The addresses the Apple clients exclude from the tunnel, as host networks.\<close>

definition overlapping_underlay_excludes ::
  "('n4, 'n6) ipnet \<Rightarrow> ip_addr list \<Rightarrow> 'n4 list \<Rightarrow> 'n6 list \<Rightarrow> 32 word list \<times> 128 word list" where
  "overlapping_underlay_excludes lib server_addrs routes4 routes6 =
    fold (\<lambda>ip (v4, v6).
        if private_scope ip then (v4, v6)
        else case ip of
            V4 a \<Rightarrow> if list_ex (\<lambda>n. contains (ops4 lib) n a) routes4 then (v4 @ [a], v6) else (v4, v6)
          | V6 a \<Rightarrow> if list_ex (\<lambda>n. contains (ops6 lib) n a) routes6 then (v4, v6 @ [a]) else (v4, v6))
      server_addrs ([], [])"

section \<open>Bypass routes are sound\<close>

definition bypass_key :: "('n4, 'n6) addr_text \<Rightarrow> bypass_route_guard \<Rightarrow> route_key" where
  "bypass_key fmt g = (is_ipv6 (bg_peer_ip g), host_route fmt (bg_peer_ip g), map_option (show_ip fmt) (bg_gateway g), bg_device g)"

lemma resolve_bypass_route_info_sound:
  assumes "resolve_bypass_route_info info (Some tun) fb = Inr info'"
  shows "bi_peer_ip info' = bi_peer_ip info \<and> bi_gateway info' \<noteq> None \<and>
    (bi_device info' \<noteq> tun \<or> (\<exists>f. fb = Some f \<and> bi_device info' = ug_device f))"
  using assms
  by (auto simp: resolve_bypass_route_info_def repin_via_fallback_def split: if_splits option.splits)

lemma query_route_for_ip_frame:
  assumes "lawful_ip ip_cmd table" and "query_route_for_ip fmt ip_cmd ip os = (os', r)"
  shows "table os' = table os" and "r = Inr info \<Longrightarrow> bi_peer_ip info = ip"
proof -
  let ?args = "if \<not> is_ipv6 ip then [''route'', ''get'', show_ip fmt ip] else [''-6'', ''route'', ''get'', show_ip fmt ip]"
  have "fst (ip_cmd os ?args) = os'"
    using assms(2) by (cases "ip_cmd os ?args") (auto simp: query_route_for_ip_def Let_def split: sum.splits)
  moreover have "?args \<in> route_queries" by (simp add: route_queries_def)
  ultimately show "table os' = table os" using lawful_ip_query [OF assms(1), of ?args os] by simp
  show "bi_peer_ip info = ip" if "r = Inr info"
    using assms(2) that
    by (cases "ip_cmd os ?args")
      (auto simp: query_route_for_ip_def Let_def parse_linux_route_get_def split: sum.splits if_splits option.splits prod.splits)
qed

lemma add_bypass_route_impl_adds:
  fixes fmt :: "('n4, 'n6) addr_text"
  assumes "lawful_ip ip_cmd table"
  shows "adds table (is_ipv6 (bi_peer_ip info), host_route fmt (bi_peer_ip info), map_option (show_ip fmt) (bi_gateway info), bi_device info)
    os (add_bypass_route_impl fmt ip_cmd info os :: 'os \<times> (('n4, 'n6) vpn_error + route_add_outcome))"
proof (cases "bi_gateway info")
  case None
  then show ?thesis by (simp add: adds_def add_bypass_route_impl_def)
next
  case (Some gw)
  let ?k = "(is_ipv6 (bi_peer_ip info), host_route fmt (bi_peer_ip info), Some (show_ip fmt gw), bi_device info)"
  have args: "(if is_ipv6 (bi_peer_ip info) then [''-6''] else []) @
      [''route'', ''add'', host_route fmt (bi_peer_ip info)] @ [''via'', show_ip fmt gw] @ [''dev'', bi_device info] =
      ip_route_args ''add'' ?k []" by (simp add: ip_route_args_def)
  obtain os' r where r: "ip_cmd os (ip_route_args ''add'' ?k []) = (os', r)" by fastforce
  have eq: "add_bypass_route_impl fmt ip_cmd info os =
      (case r of Inl e \<Rightarrow> (os', Inl (TunDevice ''Failed to add bypass route'')) | Inr output \<Rightarrow>
        (os', if cmd_success output then Inr Added
              else if is_already_exists_error (cmd_stderr output) then Inr AlreadyExisted
              else Inl (TunDevice ''Failed to add bypass route'')))"
    unfolding add_bypass_route_impl_def Some option.case args r prod.case ..
  show ?thesis
    using lawful_ip_add [OF assms, of os ?k "[]" os'] lawful_ip_not_run [OF assms, of os ?k "[]" os'] r
    unfolding eq by (cases r) (auto simp: adds_def Some)
qed

lemma add_bypass_route_sound:
  fixes fmt :: "('n4, 'n6) addr_text"
  assumes "lawful_ip ip_cmd table"
    and "add_bypass_route fmt ip_cmd peer (Some tun) fb os = (os', r :: ('n4, 'n6) vpn_error + bypass_route_guard)"
  shows "case r of Inl e \<Rightarrow> table os' = table os
    | Inr g \<Rightarrow> bg_peer_ip g = peer \<and> bg_gateway g \<noteq> None \<and> (bg_device g \<noteq> tun \<or> (\<exists>f. fb = Some f \<and> bg_device g = ug_device f)) \<and>
        (if bg_owned g then bypass_key fmt g \<notin> table os \<and> table os' = insert (bypass_key fmt g) (table os)
         else table os' = table os)"
proof -
  obtain os1 q where q: "query_route_for_ip fmt ip_cmd peer os = (os1, q :: ('n4, 'n6) vpn_error + bypass_route_info)" by fastforce
  note frame = query_route_for_ip_frame [OF assms(1) q]
  show ?thesis
  proof (cases q)
    case (Inl e)
    then show ?thesis using assms(2) q frame(1) by (auto simp: add_bypass_route_def)
  next
    case (Inr info)
    show ?thesis
    proof (cases "resolve_bypass_route_info info (Some tun) fb :: ('n4, 'n6) vpn_error + bypass_route_info")
      case (Inl e)
      then show ?thesis using assms(2) q frame(1) Inr by (auto simp: add_bypass_route_def)
    next
      case res: (Inr info')
      note sound = resolve_bypass_route_info_sound [OF res]
      have "bi_peer_ip info' = peer" using frame(2) [OF Inr] sound by simp
      then show ?thesis
        using assms(2) q frame(1) Inr res sound add_bypass_route_impl_adds [OF assms(1), of info' fmt os1]
        by (cases "add_bypass_route_impl fmt ip_cmd info' os1 :: _ \<times> (('n4, 'n6) vpn_error + route_add_outcome)";
            cases "snd (add_bypass_route_impl fmt ip_cmd info' os1 :: _ \<times> (('n4, 'n6) vpn_error + route_add_outcome))")
          (auto simp: add_bypass_route_def adds_def bypass_key_def)
    qed
  qed
qed

text \<open>The keys of the routes the manager has added itself.\<close>

definition owned_keys :: "('n4, 'n6) addr_text \<Rightarrow> (ip_addr \<times> bypass_route_guard) list \<Rightarrow> route_key list" where
  "owned_keys fmt active = map (bypass_key fmt) (filter bg_owned (map snd active))"

lemma owned_keys_simps [simp]:
  "owned_keys fmt [] = []"
  "owned_keys fmt ((ip, g) # active) = (if bg_owned g then [bypass_key fmt g] else []) @ owned_keys fmt active"
  by (simp_all add: owned_keys_def)

text \<open>The table is what it was plus those routes; each active route pins a collected address, has
  a gateway and avoids the tunnel.\<close>

definition manager_inv ::
  "('n4, 'n6) addr_text \<Rightarrow> ('os \<Rightarrow> route_key set) \<Rightarrow> route_key set \<Rightarrow> ('n4, 'n6) bypass_route_manager \<times> 'os \<Rightarrow> bool" where
  "manager_inv fmt table T st \<longleftrightarrow> (case st of (m, os) \<Rightarrow>
    distinct (owned_keys fmt (bm_active_routes m)) \<and> set (owned_keys fmt (bm_active_routes m)) \<inter> T = {} \<and>
    table os = T \<union> set (owned_keys fmt (bm_active_routes m)) \<and>
    (\<forall>(ip, g) \<in> set (bm_active_routes m). ip \<in> bm_collected m \<and> bg_peer_ip g = ip \<and> bg_gateway g \<noteq> None \<and>
      bg_device g \<noteq> bm_vpn_tun_name m))"

text \<open>The captured gateways are not behind the tunnel.\<close>

definition gateways_outside :: "('n4, 'n6) bypass_route_manager \<Rightarrow> bool" where
  "gateways_outside m \<longleftrightarrow> (\<forall>gw. bm_underlay_gw4 m = Some gw \<or> bm_underlay_gw6 m = Some gw \<longrightarrow> ug_device gw \<noteq> bm_vpn_tun_name m)"

definition same_setup :: "('n4, 'n6) bypass_route_manager \<Rightarrow> ('n4, 'n6) bypass_route_manager \<Rightarrow> bool" where
  "same_setup m m' \<longleftrightarrow> bm_vpn_tun_name m' = bm_vpn_tun_name m \<and> bm_vpn_routes4 m' = bm_vpn_routes4 m \<and>
    bm_vpn_routes6 m' = bm_vpn_routes6 m \<and> bm_underlay_gw4 m' = bm_underlay_gw4 m \<and> bm_underlay_gw6 m' = bm_underlay_gw6 m"

lemma same_setup_facts:
  "same_setup m m" "same_setup m m' \<Longrightarrow> same_setup m' m'' \<Longrightarrow> same_setup m m''"
  "same_setup m m' \<Longrightarrow> gateways_outside m' = gateways_outside m"
  "same_setup m m' \<Longrightarrow> ip_covered_by_vpn_routes lib m' = ip_covered_by_vpn_routes lib m"
  by (auto simp: same_setup_def gateways_outside_def ip_covered_by_vpn_routes_def fun_eq_iff split: ip_addr.splits)

lemma bypass_one_setup: "bypass_one fmt ip_cmd ip (m, os) = (m', os') \<Longrightarrow> same_setup m m'"
  by (auto simp: bypass_one_def Let_def same_setup_def split: sum.splits prod.splits)

lemma bypass_update_setup:
  assumes "bypass_update lib fmt ip_cmd ips (m, os) = (m', os')"
  shows "same_setup m m'"
proof -
  have "fold (bypass_one fmt ip_cmd) xs (n, s) = (n', s') \<Longrightarrow> same_setup n n'" for xs n s n' s'
  proof (induction xs arbitrary: n s)
    case (Cons x xs)
    obtain n1 s1 where "bypass_one fmt ip_cmd x (n, s) = (n1, s1)" by fastforce
    then show ?case using Cons bypass_one_setup same_setup_facts(2) by (metis fold_simps(2))
  qed (simp add: same_setup_facts(1))
  then have "same_setup (if filter (\<lambda>ip. \<not> private_scope ip \<and> ip_covered_by_vpn_routes lib m ip) ips \<noteq> []
      then m\<lparr>bm_collected := bm_collected m \<union> set (filter (\<lambda>ip. \<not> private_scope ip \<and> ip_covered_by_vpn_routes lib m ip) ips)\<rparr>
      else m) m'"
    using assms unfolding bypass_update_def prod.case Let_def by blast
  then show ?thesis by (auto simp: same_setup_def split: if_splits)
qed

lemma bypass_one_inv:
  fixes m :: "('n4, 'n6) bypass_route_manager"
  assumes law: "lawful_ip ip_cmd table" and inv: "manager_inv fmt table T (m, os)" and out: "gateways_outside m"
    and col: "ip \<in> bm_collected m" and r: "bypass_one fmt ip_cmd ip (m, os) = (m', os')"
  shows "manager_inv fmt table T (m', os') \<and> same_setup m m' \<and> bm_collected m' = bm_collected m \<and>
    set (bm_active_routes m) \<subseteq> set (bm_active_routes m')"
proof -
  let ?fb = "case ip of V4 _ \<Rightarrow> bm_underlay_gw4 m | V6 _ \<Rightarrow> bm_underlay_gw6 m"
  obtain os1 x where x: "add_bypass_route fmt ip_cmd ip (Some (bm_vpn_tun_name m)) ?fb os =
      (os1, x :: ('n4, 'n6) vpn_error + bypass_route_guard)" by fastforce
  note sound = add_bypass_route_sound [OF law x]
  have fb: "\<And>f. ?fb = Some f \<Longrightarrow> ug_device f \<noteq> bm_vpn_tun_name m" using out by (auto simp: gateways_outside_def split: ip_addr.splits)
  show ?thesis
  proof (cases x)
    case (Inl e)
    then show ?thesis using r x sound inv by (auto simp: bypass_one_def manager_inv_def same_setup_def)
  next
    case (Inr g)
    then have res: "m' = m\<lparr>bm_active_routes := (ip, g) # bm_active_routes m\<rparr>" "os' = os1"
      using r x by (simp_all add: bypass_one_def)
    have g: "bg_peer_ip g = ip" "bg_gateway g \<noteq> None" "bg_device g \<noteq> bm_vpn_tun_name m"
      "if bg_owned g then bypass_key fmt g \<notin> table os \<and> table os1 = insert (bypass_key fmt g) (table os) else table os1 = table os"
      using sound fb by (auto simp: Inr)
    have "manager_inv fmt table T (m', os')"
      using inv g col by (auto simp: manager_inv_def res split: if_splits)
    then show ?thesis by (auto simp: res same_setup_def)
  qed
qed

lemma fold_bypass_one_inv:
  assumes "lawful_ip ip_cmd table"
  shows "manager_inv fmt table T (m, os) \<Longrightarrow> gateways_outside m \<Longrightarrow> set ips \<subseteq> bm_collected m \<Longrightarrow>
    fold (bypass_one fmt ip_cmd) ips (m, os) = (m', os') \<Longrightarrow>
    manager_inv fmt table T (m', os') \<and> same_setup m m' \<and> bm_collected m' = bm_collected m \<and>
    set (bm_active_routes m) \<subseteq> set (bm_active_routes m')"
proof (induction ips arbitrary: m os)
  case Nil
  then show ?case by (simp add: same_setup_facts(1))
next
  case (Cons ip ips)
  obtain m1 os1 where one: "bypass_one fmt ip_cmd ip (m, os) = (m1, os1)" by fastforce
  have "ip \<in> bm_collected m" using Cons.prems(3) by simp
  note inv = bypass_one_inv [OF assms Cons.prems(1,2) this one]
  then have "gateways_outside m1" "set ips \<subseteq> bm_collected m1"
    using Cons.prems(2,3) same_setup_facts(3) by auto
  note IH = Cons.IH [OF _ this, of os1]
  have "fold (bypass_one fmt ip_cmd) ips (m1, os1) = (m', os')" using Cons.prems(4) one by simp
  with IH inv show ?case using same_setup_facts(2) by blast
qed

definition needs_bypass :: "('n4, 'n6) ipnet \<Rightarrow> ('n4, 'n6) bypass_route_manager \<Rightarrow> ip_addr \<Rightarrow> bool" where
  "needs_bypass lib m ip \<longleftrightarrow> \<not> private_scope ip \<and> ip_covered_by_vpn_routes lib m ip"

lemma bypass_update_inv:
  assumes law: "lawful_ip ip_cmd table" and inv: "manager_inv fmt table T (m, os)" and out: "gateways_outside m"
    and r: "bypass_update lib fmt ip_cmd ips (m, os) = (m', os')"
  shows "manager_inv fmt table T (m', os') \<and> same_setup m m' \<and>
    bm_collected m' = bm_collected m \<union> {ip \<in> set ips. needs_bypass lib m ip} \<and>
    set (bm_active_routes m) \<subseteq> set (bm_active_routes m')"
proof -
  let ?req = "filter (\<lambda>ip. \<not> private_scope ip \<and> ip_covered_by_vpn_routes lib m ip) ips"
  let ?m = "m\<lparr>bm_collected := bm_collected m \<union> set ?req\<rparr>"
  have m: "(if ?req \<noteq> [] then ?m else m) = ?m" by (cases "?req = []") simp_all
  have same: "same_setup m ?m" by (simp add: same_setup_def)
  have inv': "manager_inv fmt table T (?m, os)" using inv by (auto simp: manager_inv_def)
  have out': "gateways_outside ?m" using out same_setup_facts(3) [OF same] by simp
  have "fold (bypass_one fmt ip_cmd) (filter (\<lambda>ip. map_of (bm_active_routes ?m) ip = None) ?req) (?m, os) = (m', os')"
    using r by (simp only: bypass_update_def prod.case Let_def m)
  from fold_bypass_one_inv [OF law inv' out' _ this] have
    "manager_inv fmt table T (m', os') \<and> same_setup ?m m' \<and> bm_collected m' = bm_collected ?m \<and>
      set (bm_active_routes ?m) \<subseteq> set (bm_active_routes m')" by auto
  then show ?thesis using same_setup_facts(2) [OF same] by (auto simp: needs_bypass_def)
qed

lemma fold_bypass_update_inv:
  assumes "lawful_ip ip_cmd table"
  shows "manager_inv fmt table T (m, os) \<Longrightarrow> gateways_outside m \<Longrightarrow>
    fold (bypass_update lib fmt ip_cmd) received (m, os) = (m', os') \<Longrightarrow>
    manager_inv fmt table T (m', os') \<and> same_setup m m' \<and>
    bm_collected m' = bm_collected m \<union> {ip \<in> \<Union> (set ` set received). needs_bypass lib m ip} \<and>
    set (bm_active_routes m) \<subseteq> set (bm_active_routes m')"
proof (induction received arbitrary: m os)
  case Nil
  then show ?case by (simp add: same_setup_facts(1))
next
  case (Cons ips received)
  obtain m1 os1 where one: "bypass_update lib fmt ip_cmd ips (m, os) = (m1, os1)" by fastforce
  note inv = bypass_update_inv [OF assms Cons.prems(1,2) one]
  then have "gateways_outside m1" using Cons.prems(2) same_setup_facts(3) by auto
  note IH = Cons.IH [OF _ this, of os1]
  have rest: "fold (bypass_update lib fmt ip_cmd) received (m1, os1) = (m', os')" using Cons.prems(3) one by simp
  have need: "needs_bypass lib m1 = needs_bypass lib m"
    using inv same_setup_facts(4) [of m m1 lib] by (auto simp: needs_bypass_def fun_eq_iff)
  show ?case using IH rest inv same_setup_facts(2) [of m m1 m'] by (auto simp: need)
qed

lemma bypass_guard_drop_removes:
  assumes "lawful_ip ip_cmd table" and "bg_owned g" and "bypass_key fmt g \<in> table os"
  shows "table (bypass_guard_drop fmt ip_cmd g os) = table os - {bypass_key fmt g}"
proof -
  have "(if is_ipv6 (bg_peer_ip g) then [''-6''] else []) @ [''route'', ''del'', host_route fmt (bg_peer_ip g)] @
      (case bg_gateway g of Some gw \<Rightarrow> [''via'', show_ip fmt gw] | None \<Rightarrow> []) @ [''dev'', bg_device g] =
      ip_route_args ''del'' (bypass_key fmt g) []"
    by (cases "bg_gateway g") (simp_all add: ip_route_args_def bypass_key_def)
  then show ?thesis
    using lawful_ip_del [OF assms(1,3)] assms(2) by (simp add: bypass_guard_drop_def remove_bypass_route_sync_def del: append.simps)
qed

lemma fold_bypass_drop:
  assumes "lawful_ip ip_cmd table"
  shows "distinct (owned_keys fmt active) \<Longrightarrow> set (owned_keys fmt active) \<subseteq> table os \<Longrightarrow>
    table (fold (\<lambda>(_, g). bypass_guard_drop fmt ip_cmd g) active os) = table os - set (owned_keys fmt active)"
proof (induction active arbitrary: os)
  case (Cons a active)
  obtain ip g where a: "a = (ip, g)" by (cases a)
  show ?case
  proof (cases "bg_owned g")
    case True
    then have rm: "table (bypass_guard_drop fmt ip_cmd g os) = table os - {bypass_key fmt g}"
      using Cons.prems(2) by (intro bypass_guard_drop_removes [OF assms]) (auto simp: a)
    have "distinct (owned_keys fmt active)" "set (owned_keys fmt active) \<subseteq> table os - {bypass_key fmt g}"
      using Cons.prems True by (auto simp: a)
    then show ?thesis using Cons.IH [of "bypass_guard_drop fmt ip_cmd g os"] rm True by (auto simp: a)
  next
    case False
    then show ?thesis using Cons.IH [of os] Cons.prems by (simp add: a bypass_guard_drop_def)
  qed
qed simp

lemma capture_underlay_gateway_frame:
  fixes fmt :: "('n4, 'n6) addr_text"
  assumes "lawful_ip ip_cmd table"
  shows "table (fst (capture_underlay_gateway fmt ip_cmd six os)) = table os"
proof -
  let ?args = "if six then [''-6'', ''route'', ''show'', ''default''] else [''-4'', ''route'', ''show'', ''default'']"
  have "fst (capture_underlay_gateway fmt ip_cmd six os) = fst (ip_cmd os ?args)"
    by (cases "ip_cmd os ?args") (auto simp: capture_underlay_gateway_def query_default_gateway_def Let_def split: sum.splits)
  moreover have "?args \<in> route_queries" by (simp add: route_queries_def)
  ultimately show ?thesis using lawful_ip_query [OF assms] by simp
qed

lemma add_iroh_bypass_routes_inv:
  assumes law: "lawful_ip ip_cmd table"
    and r: "add_iroh_bypass_routes lib fmt ip_cmd tun routes4 routes6 relay_ips addrs os = (m, os')"
    and out: "gateways_outside m"
  shows "manager_inv fmt table (table os) (m, os') \<and> bm_vpn_tun_name m = tun \<and>
    bm_collected m = {ip \<in> set relay_ips \<union> set addrs. needs_bypass lib m ip}"
proof -
  obtain os1 gw4 where g4: "(if routes4 = [] then (os, None) else capture_underlay_gateway fmt ip_cmd False os) = (os1, gw4)" by fastforce
  obtain os2 gw6 where g6: "(if routes6 = [] then (os1, None) else capture_underlay_gateway fmt ip_cmd True os1) = (os2, gw6)" by fastforce
  have "table os1 = table os" using g4 capture_underlay_gateway_frame [OF law, of fmt False os] by (auto split: if_splits)
  moreover have "table os2 = table os1" using g6 capture_underlay_gateway_frame [OF law, of fmt True os1] by (auto split: if_splits)
  ultimately have t: "table os2 = table os" by simp
  define m0 where "m0 = \<lparr> bm_active_routes = [], bm_vpn_tun_name = tun, bm_vpn_routes4 = routes4,
    bm_vpn_routes6 = routes6, bm_underlay_gw4 = gw4, bm_underlay_gw6 = gw6, bm_collected = {} \<rparr>"
  let ?ips = "remdups (relay_ips @ addrs)"
  have run: "(if ?ips \<noteq> [] then bypass_update lib fmt ip_cmd ?ips (m0, os2) else (m0, os2)) = (m, os')"
    using r unfolding add_iroh_bypass_routes_def g4 g6 prod.case Let_def m0_def .
  have inv0: "manager_inv fmt table (table os) (m0, os2)" by (simp add: manager_inv_def m0_def t)
  show ?thesis
  proof (cases "?ips = []")
    case True
    then show ?thesis using run inv0 by (auto simp: m0_def)
  next
    case False
    then have upd: "bypass_update lib fmt ip_cmd ?ips (m0, os2) = (m, os')" using run by simp
    have "same_setup m0 m" using upd by (rule bypass_update_setup)
    then have "gateways_outside m0" using out same_setup_facts(3) by blast
    from bypass_update_inv [OF law inv0 this upd] show ?thesis
      using same_setup_facts(4) [of m0 m lib] by (auto simp: m0_def same_setup_def needs_bypass_def)
  qed
qed


text \<open>A host with a default gateway, and a full tunnel.\<close>

definition sample_gateway_ip :: "route_key set ip_command" where
  "sample_gateway_ip table args =
    (if parse_ip_args args = None
     then (table, Inr \<lparr> cmd_success = True, cmd_stdout = ''via a dev e'', cmd_stderr = [] \<rparr>)
     else sample_ip table args)"

lemma sample_gateway_ip_lawful: "lawful_ip sample_gateway_ip id"
  unfolding lawful_ip_def
proof (intro conjI allI impI)
  fix os args assume "args \<in> route_queries"
  then have "parse_ip_args args = None" by (auto simp: route_queries_def parse_ip_args_def)
  then show "id (fst (sample_gateway_ip os args)) = id os" by (simp add: sample_gateway_ip_def)
qed (auto simp: sample_gateway_ip_def sample_ip_def parse_ip_route_args Let_def split: if_splits)

definition sample_bypass_text :: "(32 word \<times> nat, 128 word \<times> nat) addr_text" where
  "sample_bypass_text = \<lparr> show_ip = (\<lambda>_. ''a''), parse_ip = (\<lambda>s. if s = ''a'' then Some (V4 1) else None),
     show_net4 = (\<lambda>_. ''n''), show_net6 = (\<lambda>_. ''m'') \<rparr>"

lemma sample_route_get:
  "parse_linux_route_get sample_bypass_text ''via a dev e'' ip =
    Inr \<lparr> bi_peer_ip = ip, bi_device = ''e'', bi_gateway = Some (V4 1), bi_gateway_str = Some ''a'', bi_if_index = None \<rparr>"
proof -
  have "split_whitespace ''via a dev e'' = [''via'', ''a'', ''dev'', ''e'']" by code_simp
  moreover have "is_valid_gateway_str ''a''" by code_simp
  ultimately show ?thesis by (simp add: parse_linux_route_get_def sample_bypass_text_def)
qed


end
