(* ===== verification/Server_Tasks.thy ===== *)
theory Server_Tasks
  imports Server_Data Bypass_Routes "HOL-Library.Sublist"
begin

unbundle bit_operations_syntax

text \<open>
  The tasks the server spawns for a client (\<open>tunnel/server.rs\<close>): publishing its candidate
  underlay addresses, the writer of the client's datagram queue and the writer of its control
  stream.
\<close>

section \<open>Candidate addresses\<close>

text \<open>Addresses are ordered as in the source: every IPv4 address before every IPv6 address.\<close>

instantiation ip_addr :: linorder
begin

definition less_eq_ip_addr :: "ip_addr \<Rightarrow> ip_addr \<Rightarrow> bool" where
  "less_eq_ip_addr x y = (case (x, y) of (V4 a, V4 b) \<Rightarrow> a \<le> b | (V4 _, V6 _) \<Rightarrow> True | (V6 _, V4 _) \<Rightarrow> False | (V6 a, V6 b) \<Rightarrow> a \<le> b)"

definition less_ip_addr :: "ip_addr \<Rightarrow> ip_addr \<Rightarrow> bool" where
  "less_ip_addr x y \<longleftrightarrow> x \<le> y \<and> \<not> y \<le> (x :: ip_addr)"

instance
  by intro_classes (auto simp: less_ip_addr_def less_eq_ip_addr_def split: ip_addr.splits)

end

definition is_loopback_ip :: "ip_addr \<Rightarrow> bool" where
  "is_loopback_ip ip = (case ip of V4 a \<Rightarrow> drop_bit 24 a = 127 | V6 a \<Rightarrow> a = 1)"

definition is_unspecified_ip :: "ip_addr \<Rightarrow> bool" where
  "is_unspecified_ip ip = (case ip of V4 a \<Rightarrow> a = 0 | V6 a \<Rightarrow> a = 0)"

definition is_routable_underlay :: "ip_addr \<Rightarrow> bool" where
  "is_routable_underlay ip =
    (if is_loopback_ip ip \<or> is_unspecified_ip ip then False
     else case ip of
         V4 v4 \<Rightarrow> \<not> is_link_local4 v4
       | V6 v6 \<Rightarrow> (ucast (drop_bit 112 v6) :: 16 word) AND 0xffc0 \<noteq> 0xfe80)"

definition ip_in_overlay :: "('n4, 'n6) ipnet \<Rightarrow> ip_addr \<Rightarrow> 'n4 option \<Rightarrow> 'n6 option \<Rightarrow> bool" where
  "ip_in_overlay lib ip overlay_v4 overlay_v6 =
    (case ip of
       V4 v4 \<Rightarrow> (case overlay_v4 of Some net \<Rightarrow> contains (ops4 lib) net v4 | None \<Rightarrow> False)
     | V6 v6 \<Rightarrow> (case overlay_v6 of Some net \<Rightarrow> contains (ops6 lib) net v6 | None \<Rightarrow> False))"

text \<open>\<open>ip_addrs\<close> are the socket addresses the endpoint reports.\<close>

definition server_candidate_addrs ::
  "('n4, 'n6) ipnet \<Rightarrow> (ip_addr \<times> 16 word) list \<Rightarrow> 'n4 option \<Rightarrow> 'n6 option \<Rightarrow> ip_addr list" where
  "server_candidate_addrs lib ip_addrs overlay_v4 overlay_v6 =
    (let addrs = filter is_routable_underlay (filter (\<lambda>ip. \<not> ip_in_overlay lib ip overlay_v4 overlay_v6) (map fst ip_addrs)) in
     remdups_adj (sort addrs))"

section \<open>Publication\<close>

text \<open>\<open>try_send\<close> is that of the queue to the control writer; \<open>Inl\<close> tells the caller to stop.\<close>

definition publish_server_addrs ::
  "('n4, 'n6) ipnet \<Rightarrow> server_addrs_msg json \<Rightarrow> ('q \<Rightarrow> bytes \<Rightarrow> 'q \<times> (channel_error + unit)) \<Rightarrow>
     (ip_addr \<times> 16 word) list \<Rightarrow> 'n4 option \<Rightarrow> 'n6 option \<Rightarrow> 'q \<Rightarrow> 'q \<times> (unit + unit)" where
  "publish_server_addrs lib js try_send ip_addrs overlay_v4 overlay_v6 packet_tx =
    (let addrs = server_candidate_addrs lib ip_addrs overlay_v4 overlay_v6 in
     if addrs = [] then (packet_tx, Inr ())
     else
       case encode_server_addrs_frame js [] addrs :: bytes \<times> (('n4, 'n6) vpn_error + nat) of
         (buf, Inl e) \<Rightarrow> (packet_tx, Inr ())
       | (buf, Inr _) \<Rightarrow>
           (case try_send packet_tx buf of
              (tx', Inr _) \<Rightarrow> (tx', Inr ())
            | (tx', Inl ChannelFull) \<Rightarrow> (tx', Inr ())
            | (tx', Inl ChannelClosed) \<Rightarrow> (tx', Inl ())))"

text \<open>What wakes the publisher: the connection is closed, the interval elapsed, or the address
  watcher reports a change or ends; with the addresses the endpoint has then.\<close>

datatype publisher_event =
    ConnClosed
  | IntervalTick "(ip_addr \<times> 16 word) list"
  | AddrsChanged "(ip_addr \<times> 16 word) list"
  | WatcherEnded

fun run_server_addr_publisher ::
  "('n4, 'n6) ipnet \<Rightarrow> server_addrs_msg json \<Rightarrow> ('q \<Rightarrow> bytes \<Rightarrow> 'q \<times> (channel_error + unit)) \<Rightarrow> 'n4 option \<Rightarrow> 'n6 option \<Rightarrow>
     publisher_event list \<Rightarrow> bool \<Rightarrow> 'q \<Rightarrow> 'q \<times> bool" where
  "run_server_addr_publisher lib js try_send o4 o6 [] watcher_alive tx = (tx, False)"
| "run_server_addr_publisher lib js try_send o4 o6 (ConnClosed # events) watcher_alive tx = (tx, True)"
| "run_server_addr_publisher lib js try_send o4 o6 (IntervalTick addrs # events) watcher_alive tx =
    (case publish_server_addrs lib js try_send addrs o4 o6 tx of
       (tx', Inl _) \<Rightarrow> (tx', True)
     | (tx', Inr _) \<Rightarrow> run_server_addr_publisher lib js try_send o4 o6 events watcher_alive tx')"
| "run_server_addr_publisher lib js try_send o4 o6 (AddrsChanged addrs # events) watcher_alive tx =
    (if watcher_alive then
       (case publish_server_addrs lib js try_send addrs o4 o6 tx of
          (tx', Inl _) \<Rightarrow> (tx', True)
        | (tx', Inr _) \<Rightarrow> run_server_addr_publisher lib js try_send o4 o6 events watcher_alive tx')
     else run_server_addr_publisher lib js try_send o4 o6 events watcher_alive tx)"
| "run_server_addr_publisher lib js try_send o4 o6 (WatcherEnded # events) watcher_alive tx =
    run_server_addr_publisher lib js try_send o4 o6 events False tx"

section \<open>Writers\<close>

text \<open>One round of the datagram writer on a queue that has datagrams; \<open>True\<close> says that it goes on.\<close>

definition datagram_writer_round ::
  "'c quic_conn \<Rightarrow> client_queue \<times> vpn_server_stats \<times> 'c \<Rightarrow> (client_queue \<times> vpn_server_stats \<times> 'c) \<times> bool" where
  "datagram_writer_round qc st =
    (case st of (q, stats, conn) \<Rightarrow>
       case recv_many q [] WRITE_BATCH_SIZE of (q', batch, count) \<Rightarrow>
         if count = 0 then ((q', stats, conn), False)
         else
           case send_datagram_batch qc conn batch no_outcome of (conn', outcome, result) \<Rightarrow>
             let q'' = release q' batch;
                 stats = stats\<lparr>packets_to_clients := packets_to_clients stats + sent outcome\<rparr>;
                 stats = (if dropped_too_large outcome > 0
                   then stats\<lparr>packets_dropped_too_large := packets_dropped_too_large stats + dropped_too_large outcome\<rparr>
                   else stats) in
             ((q'', stats, conn'), case result of Inl e \<Rightarrow> False | Inr _ \<Rightarrow> True))"

text \<open>The control writer over the batches it receives; the result is the error it signals.\<close>

fun control_writer ::
  "('w \<Rightarrow> bytes list \<Rightarrow> 'w \<times> (string + unit)) \<Rightarrow> bytes list list \<Rightarrow> 'w \<Rightarrow> 'w \<times> ('n4, 'n6) vpn_error option" where
  "control_writer put [] w = (w, None)"
| "control_writer put (batch # batches) w =
    (if batch = [] then (w, None)
     else case write_frames put w batch of
         (w', _, Inl reason) \<Rightarrow> (w', Some reason)
       | (w', _, Inr _) \<Rightarrow> control_writer put batches w')"

section \<open>What is published\<close>

lemma distinct_sorted_remdups_adj: "sorted xs \<Longrightarrow> distinct (remdups_adj xs)"
proof (induction xs rule: remdups_adj.induct)
  case (3 x y xs)
  show ?case
  proof (cases "x = y")
    case False
    then have "x \<notin> set (y # xs)" using 3(3) by fastforce
    then show ?thesis using 3 False by simp
  qed (use 3 in simp)
qed simp_all

lemma candidate_addrs:
  "set (server_candidate_addrs lib ip_addrs o4 o6) =
    {ip \<in> fst ` set ip_addrs. \<not> ip_in_overlay lib ip o4 o6 \<and> is_routable_underlay ip}"
  "sorted (server_candidate_addrs lib ip_addrs o4 o6)" "distinct (server_candidate_addrs lib ip_addrs o4 o6)"
  by (auto simp: server_candidate_addrs_def Let_def sorted_remdups_adj distinct_sorted_remdups_adj)

text \<open>What the queue between publisher and control writer has to be: first in, first out.\<close>

definition fifo :: "('q \<Rightarrow> 'a list) \<Rightarrow> ('q \<Rightarrow> 'a \<Rightarrow> 'q \<times> (channel_error + unit)) \<Rightarrow> bool" where
  "fifo items try_send \<longleftrightarrow> (\<forall>q x q' r. try_send q x = (q', r) \<longrightarrow>
     items q' = (case r of Inl _ \<Rightarrow> items q | Inr _ \<Rightarrow> items q @ [x]))"

definition addrs_frame ::
  "('n4, 'n6) ipnet \<Rightarrow> server_addrs_msg json \<Rightarrow> 'n4 option \<Rightarrow> 'n6 option \<Rightarrow> (ip_addr \<times> 16 word) list \<Rightarrow> control_msg" where
  "addrs_frame lib js o4 o6 addrs = SendAddrs (server_candidate_addrs lib addrs o4 o6)"

fun reports :: "publisher_event list \<Rightarrow> (ip_addr \<times> 16 word) list list" where
  "reports [] = []"
| "reports (IntervalTick addrs # events) = addrs # reports events"
| "reports (AddrsChanged addrs # events) = addrs # reports events"
| "reports (_ # events) = reports events"

lemma encode_addrs_cases:
  fixes r :: "('n4, 'n6) vpn_error + nat"
  assumes "encode_server_addrs_frame js [] msg = (buf, r)"
  shows "(\<exists>e. r = Inl e) \<or> encodable js (SendAddrs msg) \<and> buf = frame_bytes js (SendAddrs msg) \<and> (\<exists>n. r = Inr n)"
  using assms
  by (cases "to_vec js msg") (auto simp: encode_server_addrs_frame_def server_addrs_encode_def Let_def split: if_splits)

lemma publish_once:
  fixes lib :: "('n4, 'n6) ipnet"
  assumes "fifo items try_send"
  shows "items (fst (publish_server_addrs lib js try_send addrs o4 o6 tx)) = items tx \<or>
    encodable js (addrs_frame lib js o4 o6 addrs) \<and>
    items (fst (publish_server_addrs lib js try_send addrs o4 o6 tx)) = items tx @ [frame_bytes js (addrs_frame lib js o4 o6 addrs)]"
proof -
  obtain buf and r :: "('n4, 'n6) vpn_error + nat" where e: "encode_server_addrs_frame js [] (server_candidate_addrs lib addrs o4 o6) = (buf, r)"
    by force
  obtain tx' res where t: "try_send tx buf = (tx', res)" by force
  then have "items tx' = (case res of Inl _ \<Rightarrow> items tx | Inr _ \<Rightarrow> items tx @ [buf])" using assms by (simp add: fifo_def)
  then show ?thesis
    using encode_addrs_cases [OF e] t
    by (auto simp: publish_server_addrs_def Let_def e addrs_frame_def split: sum.splits channel_error.splits)
qed

lemma publisher_frames:
  fixes lib :: "('n4, 'n6) ipnet"
  assumes "fifo items try_send"
  shows "\<exists>published. subseq published (reports events) \<and>
    (\<forall>addrs \<in> set published. encodable js (addrs_frame lib js o4 o6 addrs)) \<and>
    items (fst (run_server_addr_publisher lib js try_send o4 o6 events alive tx)) =
      items tx @ map (frame_bytes js) (map (addrs_frame lib js o4 o6) published)"
  (is "\<exists>p. ?goal p events alive tx")
proof (induction events arbitrary: alive tx)
  case Nil
  show ?case by (intro exI [of _ "[]"]) simp
next
  case (Cons ev events)
  have report: "\<exists>p. ?goal p (ev # events) alive tx"
    if ev: "reports (ev # events) = addrs # reports events"
      and run: "run_server_addr_publisher lib js try_send o4 o6 (ev # events) alive tx =
        (case publish_server_addrs lib js try_send addrs o4 o6 tx of
           (tx', Inl _) \<Rightarrow> (tx', True)
         | (tx', Inr _) \<Rightarrow> run_server_addr_publisher lib js try_send o4 o6 events alive tx')" for addrs
  proof -
    obtain tx' res where p: "publish_server_addrs lib js try_send addrs o4 o6 tx = (tx', res)" by force
    obtain pre where pre: "subseq pre [addrs]" "\<forall>a \<in> set pre. encodable js (addrs_frame lib js o4 o6 a)"
        "items tx' = items tx @ map (frame_bytes js) (map (addrs_frame lib js o4 o6) pre)"
      using publish_once [OF assms, of lib js addrs o4 o6 tx] p
      by (auto intro: that [of "[]"] that [of "[addrs]"])
    obtain post where post: "?goal post events alive tx'" using Cons.IH by blast
    show ?thesis
    proof (cases res)
      case Inl
      then show ?thesis using pre p run ev
        by (intro exI [of _ pre]) (auto intro: subseq_order.trans [OF pre(1)])
    next
      case Inr
      have "subseq (pre @ post) ([addrs] @ reports events)" using pre(1) post by (blast intro: list_emb_append_mono)
      then show ?thesis using Inr pre p run ev post by (intro exI [of _ "pre @ post"]) auto
    qed
  qed
  show ?case
  proof (cases ev)
    case ConnClosed
    then show ?thesis by (intro exI [of _ "[]"]) simp
  next
    case (IntervalTick a)
    then show ?thesis by (intro report) simp_all
  next
    case (AddrsChanged a)
    show ?thesis
    proof (cases alive)
      case True
      then show ?thesis using AddrsChanged by (intro report) (auto split: prod.splits sum.splits)
    next
      case False
      then show ?thesis using Cons.IH [of alive tx] AddrsChanged by auto
    qed
  next
    case WatcherEnded
    then show ?thesis using Cons.IH [of False tx] by simp
  qed
qed

text \<open>The publisher goes on for as long as the connection and the queue are open.\<close>

lemma publisher_keeps_going:
  assumes "\<And>q x. snd (try_send q x) \<noteq> Inl ChannelClosed"
  shows "snd (run_server_addr_publisher lib js try_send o4 o6 events alive tx) \<longleftrightarrow> ConnClosed \<in> set events"
proof -
  have go: "\<exists>tx'. publish_server_addrs lib js try_send addrs o4 o6 tx = (tx', Inr ())" for addrs tx
    using assms by (auto simp: publish_server_addrs_def Let_def split: prod.splits sum.splits channel_error.splits)
      (metis snd_conv)+
  show ?thesis
  proof (induction events arbitrary: alive tx)
    case (Cons ev events)
    note IH = Cons.IH
    show ?case
    proof (cases ev)
      case (IntervalTick a)
      obtain tx' where "publish_server_addrs lib js try_send a o4 o6 tx = (tx', Inr ())" using go by blast
      then show ?thesis using IntervalTick IH by simp
    next
      case (AddrsChanged a)
      obtain tx' where "publish_server_addrs lib js try_send a o4 o6 tx = (tx', Inr ())" using go by blast
      then show ?thesis using AddrsChanged IH by simp
    qed (simp_all add: IH)
  qed simp
qed

lemma control_writer_bytes:
  assumes "\<And>w frames. put w frames = (w @ concat frames, Inr ())" and "[] \<notin> set batches"
  shows "control_writer put batches w = (w @ concat (concat batches), None)"
  using assms(2) by (induction batches arbitrary: w) (auto simp: write_frames_def assms(1))

section \<open>Draining a client's queue\<close>

lemma datagram_writer_round_fifo:
  assumes "cq_channel q \<noteq> []" and "datagram_writer_round qc (q, stats, conn) = ((q', stats', conn'), continue)"
  shows "cq_channel q' = drop WRITE_BATCH_SIZE (cq_channel q)"
    and "cq_queued_bytes q' = cq_queued_bytes q - batch_cost (take WRITE_BATCH_SIZE (cq_channel q))"
    and "\<exists>outcome result. send_datagram_batch qc conn (take WRITE_BATCH_SIZE (cq_channel q)) no_outcome = (conn', outcome, result) \<and>
      stats' = stats\<lparr>packets_to_clients := packets_to_clients stats + sent outcome,
        packets_dropped_too_large := packets_dropped_too_large stats + dropped_too_large outcome\<rparr> \<and>
      (continue \<longleftrightarrow> result = Inr ())"
  using assms
  by (auto simp: datagram_writer_round_def recv_many_def release_def Let_def WRITE_BATCH_SIZE_def word_gt_0 min_def
      split: prod.splits if_splits sum.splits)

end
