(* ===== verification/Tun_Writer.thy ===== *)
theory Tun_Writer
  imports Server_Data
begin

text \<open>
  The TUN writer tasks of the client (\<open>run_tunnel\<close> of \<open>tunnel/client.rs\<close>) and of the server
  (\<open>VpnServer::run\<close> of \<open>tunnel/server.rs\<close>).  Both drain a channel in batches, write runs of
  packets without offload metadata as one batch and every other packet on its own; they differ
  in what they make of a failed write, which is the argument \<open>note_result\<close>: it takes the result
  and the task's state and may give a reason to stop.  The text of an error is an argument.
\<close>

section \<open>The loop\<close>

definition flush_run ::
  "'w device_put \<Rightarrow> (('n4, 'n6) vpn_error + unit \<Rightarrow> 's \<Rightarrow> 's \<times> string option) \<Rightarrow> bytes list \<Rightarrow>
     'w tun_writer \<times> 's \<Rightarrow> ('w tun_writer \<times> 's) \<times> string option" where
  "flush_run put note_result plain_run st =
    (if plain_run = [] then (st, None)
     else case st of (w, s) \<Rightarrow>
       (case write_batch put w plain_run of (w', result) \<Rightarrow>
          case note_result result s of (s', reason) \<Rightarrow> ((w', s'), reason)))"

fun write_requests ::
  "'w device_put \<Rightarrow> (('n4, 'n6) vpn_error + unit \<Rightarrow> 's \<Rightarrow> 's \<times> string option) \<Rightarrow> tun_write_request list \<Rightarrow>
     bytes list \<Rightarrow> 'w tun_writer \<times> 's \<Rightarrow> ('w tun_writer \<times> 's) \<times> string option" where
  "write_requests put note_result [] plain_run st = flush_run put note_result plain_run st"
| "write_requests put note_result (req # batch) plain_run st =
    (case tw_offload req of
       None \<Rightarrow> write_requests put note_result batch (plain_run @ [tw_packet req]) st
     | Some hdr \<Rightarrow>
         (case flush_run put note_result plain_run st of
            (st', Some reason) \<Rightarrow> (st', Some reason)
          | ((w, s), None) \<Rightarrow>
              (case write_packet put w (Some hdr) (tw_packet req) of (w', result) \<Rightarrow>
                 case note_result result s of
                   (s', Some reason) \<Rightarrow> ((w', s'), Some reason)
                 | (s', None) \<Rightarrow> write_requests put note_result batch [] (w', s'))))"

text \<open>The task over the batches it receives, an empty one when the channel is closed; \<open>None\<close> while
  it waits for more, and otherwise what it ends with.\<close>

fun tun_writer_task ::
  "'w device_put \<Rightarrow> (('n4, 'n6) vpn_error + unit \<Rightarrow> 's \<Rightarrow> 's \<times> string option) \<Rightarrow> tun_write_request list list \<Rightarrow>
     'w tun_writer \<times> 's \<Rightarrow> ('w tun_writer \<times> 's) \<times> string option option" where
  "tun_writer_task put note_result [] st = (st, None)"
| "tun_writer_task put note_result (batch # batches) st =
    (if batch = [] then (st, Some None)
     else case write_requests put note_result batch [] st of
         (st', Some reason) \<Rightarrow> (st', Some (Some reason))
       | (st', None) \<Rightarrow> tun_writer_task put note_result batches st')"

section \<open>The two tasks\<close>

definition MAX_TUN_WRITE_FAILURES :: "32 word" where "MAX_TUN_WRITE_FAILURES = 10"

definition note_write_result ::
  "(('n4, 'n6) vpn_error \<Rightarrow> string) \<Rightarrow> ('n4, 'n6) vpn_error + unit \<Rightarrow> 32 word \<Rightarrow> 32 word \<times> string option" where
  "note_write_result to_text result consecutive_tun_failures =
    (case result of
       Inr _ \<Rightarrow> (0, None)
     | Inl e \<Rightarrow>
         let consecutive_tun_failures = consecutive_tun_failures + 1 in
         if consecutive_tun_failures \<ge> MAX_TUN_WRITE_FAILURES
         then (consecutive_tun_failures, Some (''TUN write failures exceeded: '' @ to_text e))
         else (consecutive_tun_failures, None))"

definition client_tun_writer ::
  "'w device_put \<Rightarrow> (('n4, 'n6) vpn_error \<Rightarrow> string) \<Rightarrow> tun_write_request list list \<Rightarrow> 'w tun_writer \<Rightarrow>
     'w tun_writer \<times> string option option" where
  "client_tun_writer put to_text batches w =
    (case tun_writer_task put (note_write_result to_text) batches (w, 0) of ((w', failures), r) \<Rightarrow> (w', r))"

definition log_write_error ::
  "('n4, 'n6) vpn_error + unit \<Rightarrow> vpn_server_stats \<Rightarrow> vpn_server_stats \<times> string option" where
  "log_write_error result stats =
    (case result of
       Inl e \<Rightarrow> (stats\<lparr>packets_tun_write_failed := packets_tun_write_failed stats + 1\<rparr>, None)
     | Inr _ \<Rightarrow> (stats, None))"

section \<open>Writes in order\<close>

text \<open>A write is a run of plain packets or one packet with its metadata.\<close>

datatype tun_write = Run "bytes list" | Single virtio_net_hdr bytes

definition run_of :: "bytes list \<Rightarrow> tun_write list" where
  "run_of plain = (if plain = [] then [] else [Run plain])"

fun writes_of :: "tun_write_request list \<Rightarrow> bytes list \<Rightarrow> tun_write list" where
  "writes_of [] plain = run_of plain"
| "writes_of (req # batch) plain =
    (case tw_offload req of
       None \<Rightarrow> writes_of batch (plain @ [tw_packet req])
     | Some hdr \<Rightarrow> run_of plain @ Single hdr (tw_packet req) # writes_of batch [])"

fun packets_of :: "tun_write \<Rightarrow> bytes list" where
  "packets_of (Run ps) = ps"
| "packets_of (Single hdr p) = [p]"

fun do_write :: "'w device_put \<Rightarrow> 'w tun_writer \<Rightarrow> tun_write \<Rightarrow> 'w tun_writer \<times> (('n4, 'n6) vpn_error + unit)" where
  "do_write put w (Run ps) = write_batch put w ps"
| "do_write put w (Single hdr p) = write_packet put w (Some hdr) p"

fun run_writes ::
  "'w device_put \<Rightarrow> (('n4, 'n6) vpn_error + unit \<Rightarrow> 's \<Rightarrow> 's \<times> string option) \<Rightarrow> tun_write list \<Rightarrow>
     'w tun_writer \<times> 's \<Rightarrow> ('w tun_writer \<times> 's) \<times> string option" where
  "run_writes put note_result [] st = (st, None)"
| "run_writes put note_result (x # xs) (w, s) =
    (case do_write put w x of (w', result) \<Rightarrow>
       case note_result result s of
         (s', Some reason) \<Rightarrow> ((w', s'), Some reason)
       | (s', None) \<Rightarrow> run_writes put note_result xs (w', s'))"

lemma run_writes_append:
  "run_writes put note_result (xs @ ys) st =
    (case run_writes put note_result xs st of
       (st', Some reason) \<Rightarrow> (st', Some reason)
     | (st', None) \<Rightarrow> run_writes put note_result ys st')"
  by (induction put note_result xs st rule: run_writes.induct) (auto split: prod.splits option.splits)

lemma flush_run_writes: "flush_run put note_result plain st = run_writes put note_result (run_of plain) st"
  by (cases st) (auto simp: flush_run_def run_of_def split: prod.splits option.splits)

lemma write_requests_writes:
  "write_requests put note_result batch plain st = run_writes put note_result (writes_of batch plain) st"
proof (induction batch arbitrary: plain st)
  case (Cons req batch)
  then show ?case
    by (cases "tw_offload req") (auto simp: run_writes_append flush_run_writes split: prod.splits option.splits)
qed (simp add: flush_run_writes)

lemma tun_writer_task_writes:
  "[] \<notin> set batches \<Longrightarrow> tun_writer_task put note_result batches st =
    (case run_writes put note_result (concat (map (\<lambda>b. writes_of b []) batches)) st of
       (st', None) \<Rightarrow> (st', None)
     | (st', Some reason) \<Rightarrow> (st', Some (Some reason)))"
  by (induction batches arbitrary: st)
    (auto simp: write_requests_writes run_writes_append split: prod.splits option.splits)

lemma writes_of_packets: "concat (map packets_of (writes_of batch plain)) = plain @ map tw_packet batch"
  by (induction batch arbitrary: plain) (auto simp: run_of_def split: option.split)

lemma writes_of_plain:
  "\<forall>req \<in> set batch. tw_offload req = None \<Longrightarrow> writes_of batch plain = run_of (plain @ map tw_packet batch)"
  by (induction batch arbitrary: plain) auto

section \<open>Failures\<close>

text \<open>The results of all the writes, were the task to go on regardless.\<close>

fun write_results ::
  "'w device_put \<Rightarrow> tun_write list \<Rightarrow> 'w tun_writer \<Rightarrow> (('n4, 'n6) vpn_error + unit) list" where
  "write_results put [] w = []"
| "write_results put (x # xs) w = (case do_write put w x of (w', result) \<Rightarrow> result # write_results put xs w')"

definition failed :: "'e + 'a \<Rightarrow> bool" where
  "failed r = (case r of Inl _ \<Rightarrow> True | Inr _ \<Rightarrow> False)"

text \<open>Ten failures in a row, counting the \<open>n\<close> that precede the list.\<close>

fun ten_in_a_row :: "nat \<Rightarrow> ('e + 'a) list \<Rightarrow> bool" where
  "ten_in_a_row n [] = False"
| "ten_in_a_row n (r # rs) = (if failed r then n \<ge> 9 \<or> ten_in_a_row (Suc n) rs else ten_in_a_row 0 rs)"

lemma ten_in_a_row_iff:
  assumes "n \<le> 9"
  shows "ten_in_a_row n rs \<longleftrightarrow> (\<exists>k. k + 10 \<le> n + length rs \<and> (\<forall>i < 10. n \<le> k + i \<longrightarrow> failed (rs ! (k + i - n))))"
    (is "_ \<longleftrightarrow> (\<exists>k. ?row n rs k)")
  using assms
proof (induction rs arbitrary: n)
  case Nil
  then show ?case by auto
next
  case (Cons r rs)
  have shift: "?row (Suc n) rs k \<longleftrightarrow> ?row n (r # rs) k" if "failed r" for k n
  proof -
    have "(n \<le> k + i \<longrightarrow> failed ((r # rs) ! (k + i - n))) \<longleftrightarrow> (Suc n \<le> k + i \<longrightarrow> failed (rs ! (k + i - Suc n)))" for i
      using that by (cases "k + i = n") (auto simp: nth_Cons' Suc_le_eq)
    then show ?thesis by auto
  qed
  show ?case
  proof (cases "failed r")
    case True
    show ?thesis
    proof (cases "n = 9")
      case n: True
      have "?row n (r # rs) 0" using n True by (auto simp: nth_Cons')
      then show ?thesis using True n by auto
    next
      case False
      then have "Suc n \<le> 9" using Cons.prems by simp
      from Cons.IH [OF this] have "ten_in_a_row (Suc n) rs \<longleftrightarrow> (\<exists>k. ?row n (r # rs) k)" unfolding shift [OF True] .
      moreover have "ten_in_a_row n (r # rs) = ten_in_a_row (Suc n) rs" using True False Cons.prems by simp
      ultimately show ?thesis by (simp only:)
    qed
  next
    case False
    have "(\<exists>k. ?row n (r # rs) k) \<longleftrightarrow> (\<exists>k. ?row 0 rs k)"
    proof
      assume "\<exists>k. ?row n (r # rs) k"
      then obtain k where k: "?row n (r # rs) k" by blast
      have "n < k"
      proof (rule ccontr)
        assume "\<not> n < k"
        then have "n - k < 10" "n \<le> k + (n - k)" "k + (n - k) - n = 0" using Cons.prems by auto
        then show False using k False by (metis nth_Cons_0)
      qed
      then have "?row 0 rs (k - Suc n)" using k
        by (auto simp: nth_Cons')
      then show "\<exists>k. ?row 0 rs k" by blast
    next
      assume "\<exists>k. ?row 0 rs k"
      then obtain k where "?row 0 rs k" by blast
      then have "?row n (r # rs) (k + Suc n)" by auto
      then show "\<exists>k. ?row n (r # rs) k" by blast
    qed
    then show ?thesis using False Cons.IH [of 0] by simp
  qed
qed

lemma client_gives_up:
  fixes xs :: "tun_write list" and to_text :: "('n4, 'n6) vpn_error \<Rightarrow> string"
  assumes "n \<le> 9"
  shows "snd (run_writes put (note_write_result to_text) xs (w, of_nat n)) = None \<longleftrightarrow>
    \<not> ten_in_a_row n (write_results put xs w :: (('n4, 'n6) vpn_error + unit) list)"
  using assms
proof (induction xs arbitrary: w n)
  case (Cons x xs)
  obtain w' and r :: "('n4, 'n6) vpn_error + unit" where r: "do_write put w x = (w', r)" by force
  show ?case
  proof (cases r)
    case (Inl e)
    have "unat (of_nat (Suc n) :: 32 word) = Suc n" using Cons.prems by (simp only: unat_of_nat) simp
    then have u: "unat (of_nat n + 1 :: 32 word) = Suc n" by (simp add: add.commute)
    then have c: "MAX_TUN_WRITE_FAILURES \<le> of_nat n + 1 \<longleftrightarrow> n = 9"
      using Cons.prems by (simp add: word_le_nat_alt MAX_TUN_WRITE_FAILURES_def)
    show ?thesis
    proof (cases "n = 9")
      case True
      then show ?thesis using c by (simp add: r Inl note_write_result_def Let_def failed_def)
    next
      case False
      then have "Suc n \<le> 9" using Cons.prems by simp
      from Cons.IH [OF this, of w'] show ?thesis
        using False c Cons.prems by (simp add: r Inl note_write_result_def Let_def failed_def add.commute)
    qed
  next
    case (Inr x)
    then show ?thesis using Cons.IH [of 0 w'] by (simp add: r note_write_result_def failed_def)
  qed
qed simp

lemma server_goes_on:
  fixes xs :: "tun_write list"
  assumes "run_writes put (log_write_error :: ('n4, 'n6) vpn_error + unit \<Rightarrow> _) xs (w, stats) = ((w', stats'), r)"
  shows "r = None" and "stats' = stats\<lparr>packets_tun_write_failed := packets_tun_write_failed stats +
    of_nat (length (filter failed (write_results put xs w :: (('n4, 'n6) vpn_error + unit) list)))\<rparr>"
proof -
  have "r = None \<and> stats' = stats\<lparr>packets_tun_write_failed := packets_tun_write_failed stats +
    of_nat (length (filter failed (write_results put xs w :: (('n4, 'n6) vpn_error + unit) list)))\<rparr>"
    using assms
  proof (induction xs arbitrary: w stats)
    case (Cons x xs)
    obtain w1 and res :: "('n4, 'n6) vpn_error + unit" where "do_write put w x = (w1, res)" by force
    then show ?case
      using Cons.prems Cons.IH [of w1 "fst (log_write_error res stats)"]
      by (cases res) (simp_all add: log_write_error_def failed_def add.assoc)
  qed simp
  then show "r = None" and "stats' = stats\<lparr>packets_tun_write_failed := packets_tun_write_failed stats +
    of_nat (length (filter failed (write_results put xs w :: (('n4, 'n6) vpn_error + unit) list)))\<rparr>" by simp_all
qed

text \<open>C11. Both TUN writers hand the device the packets of their channel in order, each exactly once,
  whatever the batches they arrive in; packets without offload metadata that follow one another
  in a batch are one write. The client's writer gives up exactly when ten writes in a row have
  failed; the server's never does, and counts every failed write.\<close>

theorem tun_writers:
  fixes to_text :: "('n4, 'n6) vpn_error \<Rightarrow> string"
  assumes "[] \<notin> set batches"
  shows "let ws = concat (map (\<lambda>b. writes_of b []) batches);
      results = write_results put ws w :: (('n4, 'n6) vpn_error + unit) list in
    concat (map packets_of ws) = map tw_packet (concat batches) \<and>
    (snd (client_tun_writer put to_text batches w) = None \<longleftrightarrow>
      (\<nexists>k. k + 10 \<le> length results \<and> (\<forall>i < 10. failed (results ! (k + i))))) \<and>
    (case tun_writer_task put (log_write_error :: ('n4, 'n6) vpn_error + unit \<Rightarrow> _) batches (w, stats) of
       ((w', stats'), r) \<Rightarrow> r = None \<and>
         stats' = stats\<lparr>packets_tun_write_failed := packets_tun_write_failed stats + of_nat (length (filter failed results))\<rparr>)"
proof -
  define ws where "ws = concat (map (\<lambda>b. writes_of b []) batches)"
  define results where "results = (write_results put ws w :: (('n4, 'n6) vpn_error + unit) list)"
  have packets: "concat (map packets_of ws) = map tw_packet (concat batches)"
    unfolding ws_def by (induction batches) (simp_all add: writes_of_packets)
  have "snd (client_tun_writer put to_text batches w) = None \<longleftrightarrow>
      snd (run_writes put (note_write_result to_text) ws (w, of_nat 0)) = None"
    by (simp add: client_tun_writer_def tun_writer_task_writes [OF assms(1)] ws_def split: prod.splits option.splits)
  then have client: "snd (client_tun_writer put to_text batches w) = None \<longleftrightarrow>
      (\<nexists>k. k + 10 \<le> length results \<and> (\<forall>i < 10. failed (results ! (k + i))))"
    unfolding results_def using client_gives_up [of 0 put to_text ws w] by (simp add: ten_in_a_row_iff)
  obtain w' stats' r where "run_writes put (log_write_error :: ('n4, 'n6) vpn_error + unit \<Rightarrow> _) ws (w, stats) = ((w', stats'), r)"
    by (metis surj_pair)
  with server_goes_on [OF this] have "case tun_writer_task put (log_write_error :: ('n4, 'n6) vpn_error + unit \<Rightarrow> _) batches (w, stats) of
       ((w', stats'), r) \<Rightarrow> r = None \<and>
         stats' = stats\<lparr>packets_tun_write_failed := packets_tun_write_failed stats + of_nat (length (filter failed results))\<rparr>"
    by (simp add: tun_writer_task_writes [OF assms(1)] ws_def results_def)
  with packets client show ?thesis unfolding Let_def ws_def [symmetric] results_def [symmetric] by blast
qed

definition sample_writer :: "bytes list tun_writer" where
  "sample_writer = \<lparr> tw_inner = [], tw_vnet_hdr_enabled = False, tw_offload_enabled = False, tw_scratch = [] \<rparr>"

text \<open>Two packets to a device that takes only the first one.\<close>

theorem tun_writers_witness:
  "snd (client_tun_writer (record_put 1) (\<lambda>_ :: (nat, nat) vpn_error. ''error'')
      [[\<lparr> tw_packet = [1], tw_offload = None \<rparr>], [\<lparr> tw_packet = [2], tw_offload = None \<rparr>]] sample_writer) = None"
proof -
  let ?bs = "[[\<lparr> tw_packet = [1], tw_offload = None \<rparr>], [\<lparr> tw_packet = [2], tw_offload = None \<rparr>]] :: tun_write_request list list"
  let ?ws = "concat (map (\<lambda>b. writes_of b []) ?bs)"
  have "length (write_results (record_put 1) ?ws sample_writer :: ((nat, nat) vpn_error + unit) list) = 2"
    by (simp add: run_of_def split: prod.split)
  then have no: "\<nexists>k. k + 10 \<le> length (write_results (record_put 1) ?ws sample_writer :: ((nat, nat) vpn_error + unit) list) \<and>
      (\<forall>i < 10. failed ((write_results (record_put 1) ?ws sample_writer :: ((nat, nat) vpn_error + unit) list) ! (k + i)))"
    by simp
  have "[] \<notin> set ?bs" by simp
  from tun_writers [OF this, of "record_put 1" sample_writer "\<lambda>_. ''error''" undefined, unfolded Let_def] no show ?thesis by blast
qed

end
