(* ===== verification/Client_Tunnel.thy ===== *)
theory Client_Tunnel
  imports Server_Tasks Tun_Writer Client_Reconnect
begin

text \<open>
  The packet loop of the client (\<open>run_tunnel\<close> of \<open>tunnel/client.rs\<close>): its outbound, inbound and
  control tasks, each over what it reads, and what the function returns once the first of its
  tasks has ended.  The reader's polling budget decides only how long a read waits before it
  reports that nothing is queued, so it is part of the input.
\<close>

section \<open>Outbound\<close>

definition DATAGRAM_SEND_BATCH :: nat where "DATAGRAM_SEND_BATCH = 64"

text \<open>What a read of the TUN gives: a frame, nothing queued (only when it does not wait), or an
  error.\<close>

datatype ('n4, 'n6) tun_input = Got bytes | Idle | ReadFailed "('n4, 'n6) vpn_error"

definition tun_read_failed :: "(('n4, 'n6) vpn_error \<Rightarrow> string) \<Rightarrow> ('n4, 'n6) vpn_error \<Rightarrow> string" where
  "tun_read_failed to_text e = ''TUN read error: '' @ to_text e"

definition outbound_frame ::
  "nat \<Rightarrow> tun_reader \<Rightarrow> 16 word set \<Rightarrow> nat option \<Rightarrow> bytes \<Rightarrow> bytes list \<times> datagram_send_outcome \<Rightarrow>
     bytes list \<times> datagram_send_outcome" where
  "outbound_frame pi_len reader ports max_size frame st =
    (case split_frame pi_len reader frame of
       Inl e \<Rightarrow> st
     | Inr (offload, packet) \<Rightarrow>
         if client_packet_has_local_iroh_udp_port packet ports then st
         else prepare_ip_datagrams max_size offload packet st)"

text \<open>The inner loop, on the frame just read; what is left of the input, and the read error that
  ended it.\<close>

fun drain_batch ::
  "(bytes \<Rightarrow> 's \<Rightarrow> 's) \<Rightarrow> nat \<Rightarrow> bytes \<Rightarrow> 's \<Rightarrow> ('n4, 'n6) tun_input list \<Rightarrow>
     's \<times> ('n4, 'n6) tun_input list \<times> ('n4, 'n6) vpn_error option" where
  "drain_batch take_frame reads frame st [] = (take_frame frame st, [], None)"
| "drain_batch take_frame reads frame st (input # inputs) =
    (let reads = reads + 1; st = take_frame frame st in
     if reads \<ge> DATAGRAM_SEND_BATCH then (st, input # inputs, None)
     else case input of
         Idle \<Rightarrow> (st, inputs, None)
       | Got next_frame \<Rightarrow>
           if next_frame = [] then (st, inputs, None) else drain_batch take_frame reads next_frame st inputs
       | ReadFailed e \<Rightarrow> (st, inputs, Some e))"

lemma drain_batch_shrinks: "drain_batch f n frame st inputs = (st', rest, e) \<Longrightarrow> length rest \<le> length inputs"
  by (induction f n frame st inputs rule: drain_batch.induct)
    (fastforce simp: Let_def split: if_splits tun_input.splits)+

lemma drain_batch_ok:
  assumes "drain_batch f n frame st inputs = (st', rest, e)"
  shows "set rest \<subseteq> set inputs \<and> (\<forall>err. e = Some err \<longrightarrow> ReadFailed err \<in> set inputs)"
  using assms
  by (induction f n frame st inputs rule: drain_batch.induct)
    (fastforce simp: Let_def split: if_splits tun_input.splits)+

text \<open>The task: the connection, the oversized packets it dropped, and the reason it ended with.\<close>

function outbound_task ::
  "nat \<Rightarrow> tun_reader \<Rightarrow> 16 word set \<Rightarrow> ('c \<Rightarrow> nat option) \<Rightarrow> 'c quic_conn \<Rightarrow> (('n4, 'n6) vpn_error \<Rightarrow> string) \<Rightarrow>
     ('n4, 'n6) tun_input list \<Rightarrow> 'c \<Rightarrow> 64 word \<Rightarrow> 'c \<times> 64 word \<times> string option" where
  "outbound_task pi_len reader ports mds qc to_text [] conn dropped = (conn, dropped, None)"
| "outbound_task pi_len reader ports mds qc to_text (Idle # inputs) conn dropped =
    outbound_task pi_len reader ports mds qc to_text inputs conn dropped"
| "outbound_task pi_len reader ports mds qc to_text (ReadFailed e # inputs) conn dropped =
    (conn, dropped, Some (tun_read_failed to_text e))"
| "outbound_task pi_len reader ports mds qc to_text (Got frame # inputs) conn dropped =
    (if frame = [] then outbound_task pi_len reader ports mds qc to_text inputs conn dropped
     else
       case drain_batch (outbound_frame pi_len reader ports (mds conn)) 0 frame ([], no_outcome) inputs of
         (st, rest, Some e) \<Rightarrow> (conn, dropped, Some (tun_read_failed to_text e))
       | ((pending, outcome), rest, None) \<Rightarrow>
           (case (if pending = [] then (conn, outcome)
                  else case send_datagram_batch qc conn pending outcome of (conn', outcome', _) \<Rightarrow> (conn', outcome')) of
              (conn', outcome') \<Rightarrow>
                outbound_task pi_len reader ports mds qc to_text rest conn' (dropped + dropped_too_large outcome')))"
  by pat_completeness auto

termination outbound_task
  by (relation "measure (\<lambda>(_, _, _, _, _, _, inputs, _, _). length inputs)") (auto simp: less_Suc_eq_le dest: drain_batch_shrinks [OF sym])

section \<open>Inbound\<close>

definition enqueue_inbound_tun_write :: "'q write_channel \<Rightarrow> 'q \<Rightarrow> tun_write_request \<Rightarrow> 'q \<times> bool" where
  "enqueue_inbound_tun_write ch tx req =
    (case chan_try_send ch tx req of
       (tx', Inr _) \<Rightarrow> (tx', True)
     | (tx', Inl ChannelFull) \<Rightarrow> chan_send ch tx' req
     | (tx', Inl ChannelClosed) \<Rightarrow> (tx', False))"

fun enqueue_datagrams :: "'q write_channel \<Rightarrow> bytes list \<Rightarrow> 'q \<Rightarrow> 'q \<times> bool" where
  "enqueue_datagrams ch [] tx = (tx, True)"
| "enqueue_datagrams ch (packet # datagrams) tx =
    (case enqueue_inbound_tun_write ch tx \<lparr> tw_packet = packet, tw_offload = None \<rparr> of
       (tx', True) \<Rightarrow> enqueue_datagrams ch datagrams tx'
     | (tx', False) \<Rightarrow> (tx', False))"

text \<open>The task over what the connection delivers; \<open>None\<close> while it waits for more.\<close>

fun client_inbound_task ::
  "'q write_channel \<Rightarrow> (string + bytes list) list \<Rightarrow> 'q \<Rightarrow> 'q \<times> string option option" where
  "client_inbound_task ch [] tx = (tx, None)"
| "client_inbound_task ch (Inl e # reads) tx = (tx, Some (Some (''datagram read ended: '' @ e)))"
| "client_inbound_task ch (Inr datagrams # reads) tx =
    (case enqueue_datagrams ch datagrams tx of
       (tx', True) \<Rightarrow> client_inbound_task ch reads tx'
     | (tx', False) \<Rightarrow> (tx', Some None))"

section \<open>Control\<close>

text \<open>The state is that of the channels to the heartbeat and to the bypass-route manager.\<close>

definition control_frame ::
  "server_addrs_msg json \<Rightarrow> ('p \<Rightarrow> 64 word \<Rightarrow> 'p \<times> (channel_error + unit)) \<Rightarrow>
     ('a \<Rightarrow> ip_addr set \<Rightarrow> 'a \<times> (channel_error + unit)) option \<Rightarrow> ('n4, 'n6) vpn_error + frame \<Rightarrow> 'p \<times> 'a \<Rightarrow> 'p \<times> 'a" where
  "control_frame js pong_send addr_send classified st =
    (case (classified, st) of
       (Inr (PongFrame seq_no), (pong_tx, addr_tx)) \<Rightarrow> (fst (pong_send pong_tx seq_no), addr_tx)
     | (Inr (PingFrame _), _) \<Rightarrow> st
     | (Inr (ServerAddrsFrame body), (pong_tx, addr_tx)) \<Rightarrow>
         (case addr_send of
            None \<Rightarrow> st
          | Some send \<Rightarrow>
              (case server_addrs_decode js body :: ('n4, 'n6) vpn_error + server_addrs_msg of
                 Inr msg \<Rightarrow> (pong_tx, fst (send addr_tx (set msg)))
               | Inl e \<Rightarrow> st))
     | (Inl e, _) \<Rightarrow> st)"

function control_task ::
  "server_addrs_msg json \<Rightarrow> ('p \<Rightarrow> 64 word \<Rightarrow> 'p \<times> (channel_error + unit)) \<Rightarrow>
     ('a \<Rightarrow> ip_addr set \<Rightarrow> 'a \<times> (channel_error + unit)) option \<Rightarrow> (('n4, 'n6) vpn_error \<Rightarrow> string) \<Rightarrow>
     recv_stream \<Rightarrow> 'p \<times> 'a \<Rightarrow> ('p \<times> 'a) \<times> string" where
  "control_task js pong_send addr_send to_text data_recv st =
    (case read_frame data_recv :: ('n4, 'n6) vpn_error + (bytes \<times> recv_stream) option of
       Inr None \<Rightarrow> (st, ''control stream closed by peer'')
     | Inl e \<Rightarrow> (st, to_text e)
     | Inr (Some (body, data_recv')) \<Rightarrow>
         control_task js pong_send addr_send to_text data_recv'
           (control_frame js pong_send addr_send (classify body :: ('n4, 'n6) vpn_error + frame) st))"
  by pat_completeness auto

termination control_task
  by (relation "measure (\<lambda>(_, _, _, _, s, _). length (fst s))") (auto dest: read_frame_shrinks)

declare control_task.simps [simp del]

section \<open>The end of the tunnel\<close>

datatype task_result = TaskDone "string option" | TaskCancelled | TaskPanicked string | TaskFailed string

definition remaining_tasks :: "string \<Rightarrow> string list" where
  "remaining_tasks first =
    (if first = ''outbound'' then [''inbound'', ''control'', ''liveness'', ''tun-writer'']
     else if first = ''inbound'' then [''outbound'', ''control'', ''liveness'', ''tun-writer'']
     else if first = ''control'' then [''outbound'', ''inbound'', ''liveness'', ''tun-writer'']
     else if first = ''liveness'' then [''outbound'', ''inbound'', ''control'', ''tun-writer'']
     else [''outbound'', ''inbound'', ''control'', ''liveness''])"

definition task_reason :: "string \<times> task_result \<Rightarrow> string option" where
  "task_reason t =
    (case t of
       (name, TaskDone (Some error_reason)) \<Rightarrow> Some error_reason
     | (name, TaskDone None) \<Rightarrow> Some (name @ '' task ended'')
     | (name, TaskCancelled) \<Rightarrow> None
     | (name, TaskPanicked e) \<Rightarrow> Some (name @ '' task panicked: '' @ e)
     | (name, TaskFailed e) \<Rightarrow> Some (name @ '' task failed: '' @ e))"

fun join_strings :: "string \<Rightarrow> string list \<Rightarrow> string" where
  "join_strings sep [] = []"
| "join_strings sep [s] = s"
| "join_strings sep (s # t # rest) = s @ sep @ join_strings sep (t # rest)"

text \<open>\<open>split_result\<close> is that of splitting the device, and \<open>results\<close> what awaiting each task gives.\<close>

definition run_tunnel ::
  "('n4, 'n6) vpn_error + unit \<Rightarrow> string \<Rightarrow> (string \<Rightarrow> task_result) \<Rightarrow> ('n4, 'n6) vpn_error + unit" where
  "run_tunnel split_result first results =
    and_then split_result (\<lambda>_.
      let all_results = map (\<lambda>name. (name, results name)) (first # remaining_tasks first);
          reasons = List.map_filter task_reason all_results;
          reason = (if reasons = [] then ''all tasks cancelled'' else join_strings ''; '' reasons) in
      Inl (ConnectionLost reason))"

section \<open>What is sent\<close>

definition all_packets :: "nat \<Rightarrow> tun_reader \<Rightarrow> 16 word set \<Rightarrow> bytes \<Rightarrow> bytes list" where
  "all_packets pi_len reader ports frame =
    (case split_frame pi_len reader frame of
       Inl _ \<Rightarrow> []
     | Inr (offload, packet) \<Rightarrow>
         if client_packet_has_local_iroh_udp_port packet ports then []
         else case offload of None \<Rightarrow> [packet] | Some hdr \<Rightarrow> fst (materialize_offload_into hdr packet push_packet []))"

definition frame_datagrams :: "nat \<Rightarrow> tun_reader \<Rightarrow> 16 word set \<Rightarrow> nat option \<Rightarrow> bytes \<Rightarrow> bytes list" where
  "frame_datagrams pi_len reader ports max_size frame = filter (fits max_size) (all_packets pi_len reader ports frame)"

fun frames_in :: "('n4, 'n6) tun_input list \<Rightarrow> bytes list" where
  "frames_in [] = []"
| "frames_in (Got frame # inputs) = (if frame = [] then [] else [frame]) @ frames_in inputs"
| "frames_in (_ # inputs) = frames_in inputs"

lemma prepared_append:
  "fst (prepare_ip_datagrams max_size offload packet (pending, out)) = pending @ datagrams_of max_size offload packet"
proof (cases offload)
  case None
  then show ?thesis by (simp add: prepare_ip_datagrams_def prepare_one_simp datagrams_of_def)
next
  case (Some hdr)
  then show ?thesis by (simp add: prepare_offload_eq datagrams_of_def Let_def case_prod_unfold)
qed

lemma outbound_frame_pending:
  "fst (outbound_frame pi_len reader ports max_size frame (pending, out)) =
    pending @ frame_datagrams pi_len reader ports max_size frame"
  by (auto simp: outbound_frame_def frame_datagrams_def all_packets_def prepared_append datagrams_of_def
      split: sum.splits prod.splits)

lemma drain_batch_pending:
  fixes inputs :: "('n4, 'n6) tun_input list"
  assumes "drain_batch (outbound_frame pi_len reader ports max_size) n frame st inputs = (st', rest, e)"
  shows "\<exists>fs. frames_in inputs = fs @ frames_in rest \<and>
    fst st' = fst st @ concat (map (frame_datagrams pi_len reader ports max_size) (frame # fs))"
  using assms
proof (induction "outbound_frame pi_len reader ports max_size" n frame st inputs rule: drain_batch.induct)
  case (1 n frame st)
  then show ?case by (cases st) (auto simp: outbound_frame_pending)
next
  case (2 n frame st input inputs)
  let ?take = "outbound_frame pi_len reader ports max_size"
  have st: "fst (?take frame st) = fst st @ frame_datagrams pi_len reader ports max_size frame"
    by (cases st) (simp add: outbound_frame_pending)
  show ?case
  proof (cases "n + 1 \<ge> DATAGRAM_SEND_BATCH \<or> (\<nexists>f. input = Got f \<and> f \<noteq> [])")
    case True
    then have "fst st' = fst (?take frame st) \<and> frames_in (input # inputs) = frames_in rest"
      using 2(2) by (cases input) (auto simp: Let_def split: if_splits)
    then show ?thesis using st by (intro exI [of _ "[]"]) simp
  next
    case False
    then obtain f where f: "input = Got f" "f \<noteq> []" and n: "\<not> n + 1 \<ge> DATAGRAM_SEND_BATCH" by auto
    then have "drain_batch ?take (n + 1) f (?take frame st) inputs = (st', rest, e)" using 2(2) by (simp add: Let_def)
    from 2(1) [OF refl refl n f this] obtain fs where "frames_in inputs = fs @ frames_in rest"
      "fst st' = fst (?take frame st) @ concat (map (frame_datagrams pi_len reader ports max_size) (f # fs))" by blast
    then show ?thesis using st f by (intro exI [of _ "f # fs"]) simp
  qed
qed

text \<open>What a connection has been given and taken, in order.\<close>

definition conn_log :: "'c quic_conn \<Rightarrow> ('c \<Rightarrow> bytes list) \<Rightarrow> bool" where
  "conn_log qc log \<longleftrightarrow>
    (\<forall>c ds c' r. try_send_many qc c ds = (c', r) \<longrightarrow> log c' = log c @ (case r of Inr n \<Rightarrow> take n ds | Inl _ \<Rightarrow> [])) \<and>
    (\<forall>c d c' r. send_wait qc c d = (c', r) \<longrightarrow> log c' = log c @ (case r of Inr _ \<Rightarrow> [d] | Inl _ \<Rightarrow> []))"

lemma send_one_by_one_log:
  assumes "conn_log qc log" and "send_one_by_one qc c ds out = (c', out', r)"
  shows "\<exists>xs. subseq xs ds \<and> log c' = log c @ xs"
  using assms(2)
proof (induction ds arbitrary: c out)
  case (Cons d rest)
  obtain c1 w where w: "send_wait qc c d = (c1, w)" by force
  then have l: "log c1 = log c @ (case w of Inr _ \<Rightarrow> [d] | Inl _ \<Rightarrow> [])" using assms(1) by (simp add: conn_log_def)
  show ?case
  proof (cases "\<exists>s. w = Inl (SendFailed s)")
    case True
    then show ?thesis using Cons.prems w l by (intro exI [of _ "[]"]) auto
  next
    case False
    then obtain out1 where "send_one_by_one qc c1 rest out1 = (c', out', r)"
      using Cons.prems w by (auto split: sum.splits send_datagram_error.splits)
    from Cons.IH [OF this] obtain xs where "subseq xs rest" "log c' = log c1 @ xs" by blast
    then show ?thesis using l by (intro exI [of _ "(case w of Inr _ \<Rightarrow> [d] | Inl _ \<Rightarrow> []) @ xs"]) (auto split: sum.splits)
  qed
qed simp

lemma send_batch_log:
  assumes "conn_log qc log" and "send_datagram_batch qc c ds out = (c', out', r)"
  shows "\<exists>xs. subseq xs ds \<and> log c' = log c @ xs"
  using assms(2)
proof (induction "length ds" arbitrary: c ds out rule: less_induct)
  case less
  show ?case
  proof (cases ds)
    case Nil
    then show ?thesis using less.prems by simp
  next
    case (Cons d rest)
    obtain c1 t where t: "try_send_many qc c (d # rest) = (c1, t)" by force
    then have l: "log c1 = log c @ (case t of Inr n \<Rightarrow> take n (d # rest) | Inl _ \<Rightarrow> [])"
      using assms(1) by (simp add: conn_log_def)
    obtain c2 w where w: "send_wait qc c1 d = (c2, w)" by force
    then have l2: "log c2 = log c1 @ (case w of Inr _ \<Rightarrow> [d] | Inl _ \<Rightarrow> [])" using assms(1) by (simp add: conn_log_def)
    note run = less.prems [unfolded Cons send_datagram_batch.simps t]
    consider (large) "t = Inl TooLarge" | (failed) e where "t = Inl (SendFailed e)" | (wait) "t = Inr 0" | (many) k where "t = Inr (Suc k)"
      by (metis send_datagram_error.exhaust sum.exhaust not0_implies_Suc)
    then show ?thesis
    proof cases
      case large
      then have "send_one_by_one qc c1 (d # rest) out = (c', out', r)" using run by simp
      from send_one_by_one_log [OF assms(1) this] show ?thesis using l large Cons by simp
    next
      case failed
      then show ?thesis using run l by (intro exI [of _ "[]"]) simp
    next
      case wait
      show ?thesis
      proof (cases "\<exists>s. w = Inl (SendFailed s)")
        case True
        then show ?thesis using run l l2 wait w by (intro exI [of _ "[]"]) auto
      next
        case False
        then obtain out1 where "send_datagram_batch qc c2 rest out1 = (c', out', r)"
          using run wait w by (cases w; cases "projl w") auto
        from less.hyps [OF _ this] obtain xs where "subseq xs rest" "log c' = log c2 @ xs" using Cons by auto
        then show ?thesis using l l2 wait Cons
          by (intro exI [of _ "(case w of Inr _ \<Rightarrow> [d] | Inl _ \<Rightarrow> []) @ xs"]) (auto split: sum.splits)
      qed
    next
      case (many k)
      then have "send_datagram_batch qc c1 (drop k rest) (out\<lparr>sent := sent out + of_nat (Suc k)\<rparr>) = (c', out', r)" using run by simp
      moreover have "length (drop k rest) < length ds" using Cons by (simp add: less_Suc_eq_le)
      ultimately obtain xs where xs: "subseq xs (drop k rest)" "log c' = log c1 @ xs" using less.hyps by blast
      then have "subseq (take k rest @ xs) (take k rest @ drop k rest)" by (intro list_emb_append_mono) simp_all
      then show ?thesis using xs l many Cons by (intro exI [of _ "(d # take k rest) @ xs"]) simp
    qed
  qed
qed

lemma subseq_concat_filter: "subseq (concat (map (\<lambda>x. filter P (f x)) xs)) (concat (map f xs))"
  by (induction xs) (auto intro: list_emb_append_mono)

lemma outbound_subseq:
  fixes inputs :: "('n4, 'n6) tun_input list"
  assumes "conn_log qc log"
  shows "\<exists>xs. subseq xs (concat (map (all_packets pi_len reader ports) (frames_in inputs))) \<and>
    log (fst (outbound_task pi_len reader ports mds qc to_text inputs conn dropped)) = log conn @ xs"
proof (induction "length inputs" arbitrary: inputs conn dropped rule: less_induct)
  case less
  consider (nil) "inputs = []" | (idle) rest where "inputs = Idle # rest" | (err) e rest where "inputs = ReadFailed e # rest"
    | (empty) rest where "inputs = Got [] # rest" | (got) frame rest where "inputs = Got frame # rest" "frame \<noteq> []"
    by (metis list.exhaust tun_input.exhaust)
  then show ?case
  proof cases
    case (got frame inputs')
    obtain st rest e where d: "drain_batch (outbound_frame pi_len reader ports (mds conn)) 0 frame ([], no_outcome) inputs' = (st, rest, e)"
      by (metis surj_pair)
    obtain pending out where st: "st = (pending, out)" by force
    obtain fs where fs: "frames_in inputs' = fs @ frames_in rest"
      "pending = concat (map (frame_datagrams pi_len reader ports (mds conn)) (frame # fs))"
      using drain_batch_pending [OF d] st by auto
    show ?thesis
    proof (cases e)
      case (Some e)
      then show ?thesis using got d by (intro exI [of _ "[]"]) simp
    next
      case None
      obtain c1 out1 where c1: "(if pending = [] then (conn, out)
          else case send_datagram_batch qc conn pending out of (conn', outcome', _) \<Rightarrow> (conn', outcome')) = (c1, out1)" by force
      obtain xs where xs: "subseq xs pending" "log c1 = log conn @ xs"
      proof (cases "pending = []")
        case True
        then show ?thesis using c1 by (intro that [of "[]"]) simp_all
      next
        case False
        then obtain r where "send_datagram_batch qc conn pending out = (c1, out1, r)"
          using c1 by (auto split: prod.splits)
        from send_batch_log [OF assms this] show ?thesis using that by blast
      qed
      have "length rest < length inputs" using drain_batch_shrinks [OF d] got by simp
      from less [OF this, of c1 "dropped + dropped_too_large out1"] obtain ys where
        ys: "subseq ys (concat (map (all_packets pi_len reader ports) (frames_in rest)))"
          "log (fst (outbound_task pi_len reader ports mds qc to_text rest c1 (dropped + dropped_too_large out1))) = log c1 @ ys"
        by blast
      have "subseq pending (concat (map (all_packets pi_len reader ports) (frame # fs)))"
        unfolding fs(2) frame_datagrams_def by (rule subseq_concat_filter)
      with xs(1) have "subseq xs (concat (map (all_packets pi_len reader ports) (frame # fs)))" by (rule subseq_order.trans)
      with ys(1) have "subseq (xs @ ys) (concat (map (all_packets pi_len reader ports) (frame # fs)) @
          concat (map (all_packets pi_len reader ports) (frames_in rest)))" by (intro list_emb_append_mono)
      then show ?thesis using got d None st c1 xs(2) ys(2) fs(1) by (intro exI [of _ "xs @ ys"]) simp
    qed
  next
    case (idle rest)
    then show ?thesis using less [of rest conn dropped] by simp
  next
    case (empty rest)
    then show ?thesis using less [of rest conn dropped] by simp
  qed auto
qed

text \<open>A connection that takes everything.\<close>

lemma outbound_exact:
  fixes inputs :: "('n4, 'n6) tun_input list"
  assumes "conn_log qc log" and "\<And>c ds. snd (try_send_many qc c ds) = Inr (length ds)" and "\<And>c. mds c = max_size"
    and "\<forall>e. ReadFailed e \<notin> set inputs"
  shows "log (fst (outbound_task pi_len reader ports mds qc to_text inputs conn dropped)) =
      log conn @ concat (map (frame_datagrams pi_len reader ports max_size) (frames_in inputs)) \<and>
    snd (snd (outbound_task pi_len reader ports mds qc to_text inputs conn dropped)) = None"
  using assms(4)
proof (induction "length inputs" arbitrary: inputs conn dropped rule: less_induct)
  case less
  have all: "\<exists>out'. send_datagram_batch qc c ds out = (c', out', Inr ()) \<and> log c' = log c @ ds"
    if "c' = fst (send_datagram_batch qc c ds out)" for c ds out c'
  proof (cases ds)
    case Nil
    then show ?thesis using that by simp
  next
    case (Cons d rest)
    obtain c1 where "try_send_many qc c (d # rest) = (c1, Inr (Suc (length rest)))"
      using assms(2) [of c "d # rest"] by (metis length_Cons prod.collapse)
    moreover from this have "log c1 = log c @ d # rest" using assms(1) by (auto simp: conn_log_def)
    ultimately show ?thesis using that Cons by simp
  qed
  consider (nil) "inputs = []" | (skip) x rest where "inputs = x # rest" "x = Idle \<or> x = Got []"
    | (got) frame rest where "inputs = Got frame # rest" "frame \<noteq> []"
    using less.prems by (metis list.exhaust tun_input.exhaust list.set_intros(1))
  then show ?case
  proof cases
    case (skip x rest)
    then show ?thesis using less.hyps [of rest conn dropped] less.prems by auto
  next
    case (got frame inputs')
    obtain st rest e where d: "drain_batch (outbound_frame pi_len reader ports (mds conn)) 0 frame ([], no_outcome) inputs' = (st, rest, e)"
      by (metis surj_pair)
    obtain pending out where st: "st = (pending, out)" by force
    obtain fs where fs: "frames_in inputs' = fs @ frames_in rest"
      "pending = concat (map (frame_datagrams pi_len reader ports max_size) (frame # fs))"
      using drain_batch_pending [OF d] st assms(3) by auto
    have sub: "e = None \<and> set rest \<subseteq> set inputs'" using drain_batch_ok [OF d] less.prems got by auto
    obtain c1 out1 where c1: "(if pending = [] then (conn, out)
        else case send_datagram_batch qc conn pending out of (conn', outcome', _) \<Rightarrow> (conn', outcome')) = (c1, out1)" by force
    then have "log c1 = log conn @ pending"
      using all [OF refl, of conn pending out] by (auto split: if_splits prod.splits)
    moreover have "length rest < length inputs" using drain_batch_shrinks [OF d] got by simp
    moreover have "\<forall>e. ReadFailed e \<notin> set rest" using sub less.prems got by auto
    moreover have "outbound_task pi_len reader ports mds qc to_text inputs conn dropped =
        outbound_task pi_len reader ports mds qc to_text rest c1 (dropped + dropped_too_large out1)"
      using got d sub st c1 by simp
    ultimately show ?thesis
      using less.hyps [of rest c1 "dropped + dropped_too_large out1"] got fs by simp
  qed simp
qed

text \<open>C8. Whatever the connection accepts, the datagrams the client sends are packets read from the
  TUN, in the order they were read, none twice: offloaded frames are cut into their segments, and
  frames that do not parse or that carry the endpoint's own transport traffic are left out. If
  the connection accepts everything, nothing but the packets too large for it is missing, and
  the task ends only with a failed read.\<close>

theorem outbound_order:
  fixes inputs :: "('n4, 'n6) tun_input list"
  assumes "conn_log qc log"
  shows "(\<exists>xs. subseq xs (concat (map (all_packets pi_len reader ports) (frames_in inputs))) \<and>
      log (fst (outbound_task pi_len reader ports mds qc to_text inputs conn dropped)) = log conn @ xs) \<and>
    ((\<forall>c ds. snd (try_send_many qc c ds) = Inr (length ds)) \<and> (\<forall>c. mds c = max_size) \<and> (\<forall>e. ReadFailed e \<notin> set inputs) \<longrightarrow>
      log (fst (outbound_task pi_len reader ports mds qc to_text inputs conn dropped)) =
        log conn @ concat (map (\<lambda>f. filter (fits max_size) (all_packets pi_len reader ports f)) (frames_in inputs)) \<and>
      snd (snd (outbound_task pi_len reader ports mds qc to_text inputs conn dropped)) = None)"
  using outbound_subseq [OF assms] outbound_exact [OF assms, of mds max_size inputs]
  by (auto simp: frame_datagrams_def [abs_def])

definition log_conn :: "bytes list quic_conn" where
  "log_conn = \<lparr> try_send_many = (\<lambda>c ds. (c @ ds, Inr (length ds))), send_wait = (\<lambda>c d. (c @ [d], Inr ())) \<rparr>"

theorem outbound_order_witness:
  "fst (outbound_task 4 \<lparr> tr_packet_information_enabled = False, tr_vnet_hdr_enabled = False \<rparr> {} (\<lambda>_. Some 3) log_conn
      (\<lambda>_ :: (nat, nat) vpn_error. ''error'') [Got [1, 2], Idle, Got [], Got [1, 2, 3, 4], Got [5]] [] 0) = [[1, 2], [5]]"
proof -
  have "conn_log log_conn id" "\<forall>c ds. snd (try_send_many log_conn c ds) = Inr (length ds)"
    by (simp_all add: conn_log_def log_conn_def)
  then show ?thesis
    using outbound_order [of log_conn id "4" "\<lparr> tr_packet_information_enabled = False, tr_vnet_hdr_enabled = False \<rparr>" "{}"
        "[Got [1, 2], Idle, Got [], Got [1, 2, 3, 4], Got [5]] :: (nat, nat) tun_input list" "\<lambda>_. Some 3" "\<lambda>_. ''error''" "[]" 0 "Some 3"]
    by (simp add: all_packets_def split_frame_def split_tun_frame_def client_packet_has_local_iroh_udp_port_def fits_def)
qed

section \<open>What is received\<close>

definition delivered :: "(string + bytes list) list \<Rightarrow> bytes list" where
  "delivered reads = concat (map (case_sum (\<lambda>_. []) id) reads)"

definition plain_request :: "bytes \<Rightarrow> tun_write_request" where
  "plain_request packet = \<lparr> tw_packet = packet, tw_offload = None \<rparr>"

lemma enqueue_inbound_log:
  assumes "lawful_channel ch log" and "enqueue_inbound_tun_write ch q req = (q', ok)"
  shows "log q' = log q @ (if ok then [req] else [])"
proof -
  obtain q1 r where r: "chan_try_send ch q req = (q1, r)" by force
  then have "log q1 = log q @ (if r = Inr () then [req] else [])" using assms(1) unfolding lawful_channel_def by blast
  moreover have "log q2 = log q1 @ (if ok2 then [req] else [])" if "chan_send ch q1 req = (q2, ok2)" for q2 ok2
    using assms(1) that unfolding lawful_channel_def by blast
  ultimately show ?thesis
    using assms(2) r by (auto simp: enqueue_inbound_tun_write_def split: sum.splits channel_error.splits)
qed

lemma enqueue_datagrams_log:
  assumes "lawful_channel ch log" and "enqueue_datagrams ch ds q = (q', ok)"
  shows "\<exists>xs. prefix xs ds \<and> log q' = log q @ map plain_request xs \<and> (ok \<longrightarrow> xs = ds)"
  using assms(2)
proof (induction ds arbitrary: q)
  case (Cons d ds)
  obtain q1 ok1 where e: "enqueue_inbound_tun_write ch q \<lparr> tw_packet = d, tw_offload = None \<rparr> = (q1, ok1)" by force
  note l = enqueue_inbound_log [OF assms(1) e]
  show ?case
  proof (cases ok1)
    case True
    then have "enqueue_datagrams ch ds q1 = (q', ok)" using Cons.prems e by simp
    from Cons.IH [OF this] obtain xs where "prefix xs ds" "log q' = log q1 @ map plain_request xs" "ok \<longrightarrow> xs = ds" by blast
    then show ?thesis using l True by (intro exI [of _ "d # xs"]) (simp add: plain_request_def)
  next
    case False
    then show ?thesis using Cons.prems e l by (intro exI [of _ "[]"]) simp
  qed
qed simp

lemma inbound_task_log:
  assumes "lawful_channel ch log" and "client_inbound_task ch reads q = (q', r)"
  shows "\<exists>xs. prefix xs (delivered reads) \<and> log q' = log q @ map plain_request xs \<and> (r = None \<longrightarrow> xs = delivered reads)"
  using assms(2)
proof (induction reads arbitrary: q)
  case (Cons x reads)
  show ?case
  proof (cases x)
    case (Inl e)
    then show ?thesis using Cons.prems by (intro exI [of _ "[]"]) auto
  next
    case (Inr ds)
    obtain q1 ok where e: "enqueue_datagrams ch ds q = (q1, ok)" by force
    from enqueue_datagrams_log [OF assms(1) e] obtain xs where
      xs: "prefix xs ds" "log q1 = log q @ map plain_request xs" "ok \<longrightarrow> xs = ds" by blast
    show ?thesis
    proof (cases ok)
      case True
      then have "client_inbound_task ch reads q1 = (q', r)" using Cons.prems Inr e by simp
      from Cons.IH [OF this] obtain ys where "prefix ys (delivered reads)" "log q' = log q1 @ map plain_request ys"
        "r = None \<longrightarrow> ys = delivered reads" by blast
      then show ?thesis using xs True Inr by (intro exI [of _ "ds @ ys"]) (simp add: delivered_def)
    next
      case False
      then show ?thesis using Cons.prems Inr e xs by (intro exI [of _ xs]) (auto simp: delivered_def intro: prefix_prefix)
    qed
  qed
qed (simp add: delivered_def)

lemma write_flags:
  assumes "write_packet put w offload p = (w', r)"
  shows "tw_vnet_hdr_enabled w' = tw_vnet_hdr_enabled w" and "tw_offload_enabled w' = tw_offload_enabled w"
  using assms by (auto simp: write_packet_def write_frame_def split: prod.splits sum.splits if_splits)

lemma write_each_flags:
  fixes r :: "('n4, 'n6) vpn_error + unit"
  assumes "write_each put w ps = (w', r)"
  shows "tw_vnet_hdr_enabled w' = tw_vnet_hdr_enabled w \<and> tw_offload_enabled w' = tw_offload_enabled w"
  using assms
proof (induction ps arbitrary: w)
  case (Cons p ps)
  obtain w1 and r1 :: "('n4, 'n6) vpn_error + unit" where w1: "write_packet put w None p = (w1, r1)" by force
  then show ?case using Cons.prems Cons.IH [of w1] write_flags [OF w1] by (cases r1) auto
qed simp

lemma run_writes_record:
  fixes to_text :: "('n4, 'n6) vpn_error \<Rightarrow> string"
  assumes "\<not> (tw_vnet_hdr_enabled w \<and> tw_offload_enabled w)" and "\<forall>ps \<in> set runs. ps \<noteq> [] \<and> [] \<notin> set ps"
    and "length (tw_inner w) + length (concat runs) \<le> n"
  shows "\<exists>w'. run_writes (record_put n) (note_write_result to_text) (map Run runs) (w, 0) = ((w', 0), None) \<and>
    tw_inner w' = tw_inner w @ map (plain_frame (tw_vnet_hdr_enabled w)) (concat runs)"
  using assms
proof (induction runs arbitrary: w)
  case (Cons ps runs)
  obtain w1 r where w1: "write_each (record_put n) w ps = (w1, r :: ('n4, 'n6) vpn_error + unit)" by force
  have "\<forall>p \<in> set ps. p \<noteq> []" using Cons.prems(2) by auto
  from write_each_record [OF this w1] Cons.prems(3)
  have r: "tw_inner w1 = tw_inner w @ map (plain_frame (tw_vnet_hdr_enabled w)) ps" "r = Inr ()" by auto
  have flags: "tw_vnet_hdr_enabled w1 = tw_vnet_hdr_enabled w" "tw_offload_enabled w1 = tw_offload_enabled w"
    using write_each_flags [OF w1] by auto
  have "write_batch (record_put n) w ps = (w1, r)" using Cons.prems(1) w1 by (auto simp: write_batch_def)
  then show ?case
    using Cons.IH [of w1] Cons.prems r flags by (simp add: note_write_result_def)
qed simp

text \<open>C9. The client's inbound task and its TUN writer together: whatever batches the writer takes the
  queued packets in, a device without segmentation offload that accepts them receives exactly
  the datagrams the connection delivered, one frame each, in order, and the writer does not give
  up. If the queue is closed under the inbound task, a prefix of them is queued.\<close>

theorem inbound_path:
  fixes to_text :: "('n4, 'n6) vpn_error \<Rightarrow> string"
  assumes "lawful_channel ch log" and "client_inbound_task ch reads q = (q', r)" and "log q = []"
    and "concat batches = log q'" and "[] \<notin> set batches" and "[] \<notin> set (delivered reads)"
    and "\<not> (tw_vnet_hdr_enabled w \<and> tw_offload_enabled w)" and "tw_inner w = []" and "length (delivered reads) \<le> n"
  shows "\<exists>xs w'. prefix xs (delivered reads) \<and> (r = None \<longrightarrow> xs = delivered reads) \<and>
    client_tun_writer (record_put n) to_text batches w = (w', None) \<and>
    tw_inner w' = map (plain_frame (tw_vnet_hdr_enabled w)) xs"
proof -
  from inbound_task_log [OF assms(1,2)] obtain xs where xs: "prefix xs (delivered reads)"
    "log q' = map plain_request xs" "r = None \<longrightarrow> xs = delivered reads" using assms(3) by auto
  let ?runs = "map (map tw_packet) batches"
  have plain: "\<forall>b \<in> set batches. \<forall>req \<in> set b. req \<in> set (log q')" using assms(4) by (metis UN_I set_concat)
  have "tw_offload req = None" if "req \<in> set (log q')" for req using that xs(2) by (auto simp: plain_request_def)
  then have "writes_of b [] = [Run (map tw_packet b)]" if "b \<in> set batches" for b
    using plain that assms(5) by (subst writes_of_plain) (auto simp: run_of_def)
  then have ws: "concat (map (\<lambda>b. writes_of b []) batches) = map Run ?runs" by (induction batches) simp_all
  have c: "concat ?runs = xs"
    using assms(4) xs(2) by (simp add: map_concat [symmetric] plain_request_def comp_def)
  have sub: "set xs \<subseteq> set (delivered reads)" "length xs \<le> length (delivered reads)"
    using xs(1) by (auto dest: set_mono_prefix prefix_length_le)
  have "\<forall>ps \<in> set ?runs. ps \<noteq> [] \<and> [] \<notin> set ps"
  proof
    fix ps assume ps: "ps \<in> set ?runs"
    then have "set ps \<subseteq> set xs" unfolding c [symmetric] set_concat by blast
    then show "ps \<noteq> [] \<and> [] \<notin> set ps" using ps sub(1) assms(5,6) by auto
  qed
  from run_writes_record [OF assms(7) this, of n to_text] obtain w' where
    "run_writes (record_put n) (note_write_result to_text) (map Run ?runs) (w, 0) = ((w', 0), None)"
    "tw_inner w' = map (plain_frame (tw_vnet_hdr_enabled w)) xs" using c sub(2) assms(8,9) by auto
  then show ?thesis
    using xs by (auto simp: client_tun_writer_def tun_writer_task_writes [OF assms(5)] ws)
qed

theorem inbound_path_witness:
  "\<exists>w'. client_tun_writer (record_put 5) (\<lambda>_ :: (nat, nat) vpn_error. ''error'')
      [map plain_request [[1], [2]], [plain_request [3]]] sample_writer = (w', None) \<and> tw_inner w' = [[1], [2], [3]]"
proof -
  let ?ch = "\<lparr> chan_try_send = (\<lambda>q req. (q @ [req], Inr ())), chan_send = (\<lambda>q req. (q @ [req], True)) \<rparr> :: tun_write_request list write_channel"
  have ch: "lawful_channel ?ch id" by (simp add: lawful_channel_def)
  have run: "client_inbound_task ?ch [Inr [[1]], Inr [[2], [3]]] [] = (map plain_request [[1], [2], [3]], None)"
    by (simp add: enqueue_inbound_tun_write_def plain_request_def)
  from inbound_path [OF ch run, of "[map plain_request [[1], [2]], [plain_request [3]]]" sample_writer "5" "\<lambda>_. ''error''"]
  show ?thesis by (auto simp: delivered_def sample_writer_def plain_frame_def)
qed

section \<open>From the server's addresses to the bypass manager\<close>

lemma control_task_frames:
  fixes to_text :: "('n4, 'n6) vpn_error \<Rightarrow> string"
  assumes "\<forall>m \<in> set ms. encodable js m"
  shows "control_task js pong_send addr_send to_text (concat (map (frame_bytes js) ms), Finished) st =
    (fold (\<lambda>m. control_frame js pong_send addr_send (Inr (frame_of js m) :: ('n4, 'n6) vpn_error + frame)) ms st,
     ''control stream closed by peer'')"
  using assms
proof (induction ms arbitrary: st)
  case Nil
  show ?case by (subst control_task.simps) (simp add: read_frame_def read_exact_def FRAME_LEN_PREFIX_def)
next
  case (Cons m ms)
  then have "encodable js m" by simp
  then show ?case
    using Cons by (subst control_task.simps) (simp add: read_frame_frame frame_layout(4))
qed

lemma control_frame_addrs:
  assumes "json_roundtrip js" and "encodable js (SendAddrs msg)"
  shows "control_frame js pong_send (Some send) (Inr (frame_of js (SendAddrs msg))) (pong_tx, addr_tx) =
    (pong_tx, fst (send addr_tx (set msg)))"
  using assms by (auto simp: control_frame_def server_addrs_decode_def json_roundtrip_def)

lemma fold_sends:
  assumes "fifo sets send"
  shows "\<exists>taken. subseq taken xs \<and> sets (fold (\<lambda>x a. fst (send a (f x))) xs a) = sets a @ map f taken"
proof (induction xs arbitrary: a)
  case Nil
  show ?case by (intro exI [of _ "[]"]) simp
next
  case (Cons x xs)
  obtain a' r where r: "send a (f x) = (a', r)" by force
  then have a': "sets a' = sets a @ (if r = Inr () then [f x] else [])" using assms by (auto simp: fifo_def split: sum.splits)
  obtain taken where "subseq taken xs" "sets (fold (\<lambda>x a. fst (send a (f x))) xs a') = sets a' @ map f taken" using Cons by blast
  then show ?case using r a' by (intro exI [of _ "(if r = Inr () then [x] else []) @ taken"]) auto
qed


definition list_send :: "'a list \<Rightarrow> 'a \<Rightarrow> 'a list \<times> (channel_error + unit)" where
  "list_send q x = (q @ [x], Inr ())"

lemma fifo_list_send: "fifo id list_send"
  by (simp add: fifo_def list_send_def)


section \<open>A lost tunnel is retried\<close>



end
