(* ===== verification/Tun_Config.thy ===== *)
theory Tun_Config
  imports Server_Session Routes
begin

unbundle bit_operations_syntax

text \<open>
  The configuration of the TUN device and its creation on Linux (\<open>net/device.rs\<close>), and what the
  client and the server make of the addresses they have (\<open>create_tun_device\<close> of
  \<open>tunnel/client.rs\<close>, \<open>setup_tun\<close> of \<open>tunnel/server.rs\<close>).  Creating the device is an operation of the
  \<open>tun\<close> crate and an argument, as are the outcomes of the two \<open>ioctl\<close> calls and the netmask of a
  network, an operation of \<open>ipnet\<close>.
\<close>

section \<open>Configuration\<close>

record tun_config =
  tc_name :: "string option"
  tc_address :: "32 word"
  tc_netmask :: "32 word"
  tc_destination :: "32 word"
  tc_address6 :: "128 word option"
  tc_prefix_len6 :: "8 word option"
  tc_mtu :: "16 word"
  tc_enable_gso :: bool

definition validate_prefix_len6 :: "8 word \<Rightarrow> ('n4, 'n6) vpn_error + unit" where
  "validate_prefix_len6 prefix_len6 =
    (if prefix_len6 > 128 then Inl (Config ''Invalid IPv6 prefix length'') else Inr ())"

definition tun_config_new :: "32 word \<Rightarrow> 32 word \<Rightarrow> 32 word \<Rightarrow> tun_config" where
  "tun_config_new address netmask destination = \<lparr> tc_name = None, tc_address = address, tc_netmask = netmask,
     tc_destination = destination, tc_address6 = None, tc_prefix_len6 = None, tc_mtu = 1280, tc_enable_gso = True \<rparr>"

definition with_mtu :: "16 word \<Rightarrow> tun_config \<Rightarrow> tun_config" where
  "with_mtu mtu c = c\<lparr>tc_mtu := mtu\<rparr>"

definition with_gso :: "bool \<Rightarrow> tun_config \<Rightarrow> tun_config" where
  "with_gso enable_gso c = c\<lparr>tc_enable_gso := enable_gso\<rparr>"

definition with_ipv6 :: "128 word \<Rightarrow> 8 word \<Rightarrow> tun_config \<Rightarrow> ('n4, 'n6) vpn_error + tun_config" where
  "with_ipv6 address6 prefix_len6 c =
    and_then (validate_prefix_len6 prefix_len6) (\<lambda>_.
      Inr (c\<lparr>tc_address6 := Some address6, tc_prefix_len6 := Some prefix_len6\<rparr>))"

text \<open>The hash of the sixteen octets, and the placeholder address made of it.\<close>

definition octets_hash :: "bytes \<Rightarrow> 16 word" where
  "octets_hash octets =
    fold (\<lambda>(idx, byte) hash. word_rotl 5 hash XOR (ucast byte + of_nat idx)) (enumerate 0 octets) 0x9e37"

definition placeholder_ip :: "128 word \<Rightarrow> 32 word" where
  "placeholder_ip address6 =
    (let hash = octets_hash (to_be_bytes address6);
         third = (ucast hash :: 8 word) mod 254 + 1;
         fourth = (ucast (drop_bit 8 hash) :: 8 word) mod 254 + 1 in
     from_be_bytes [169, 254, third, fourth])"

definition ipv6_only :: "128 word \<Rightarrow> 8 word \<Rightarrow> 16 word \<Rightarrow> ('n4, 'n6) vpn_error + tun_config" where
  "ipv6_only address6 prefix_len6 mtu =
    and_then (validate_prefix_len6 prefix_len6) (\<lambda>_.
      let ip = placeholder_ip address6 in
      Inr \<lparr> tc_name = None, tc_address = ip, tc_netmask = from_be_bytes [255, 255, 255, 255], tc_destination = ip,
        tc_address6 = Some address6, tc_prefix_len6 = Some prefix_len6, tc_mtu = mtu, tc_enable_gso = True \<rparr>)"

section \<open>The device\<close>

record tun_offload_status =
  os_enabled :: bool
  os_reason :: "string option"

definition offload_enabled :: tun_offload_status where
  "offload_enabled = \<lparr> os_enabled = True, os_reason = None \<rparr>"

definition offload_disabled :: "string \<Rightarrow> tun_offload_status" where
  "offload_disabled reason = \<lparr> os_enabled = False, os_reason = Some reason \<rparr>"

text \<open>\<open>vnet_hdr_ok\<close> and \<open>offload_ok\<close> say whether the \<open>ioctl\<close> calls succeed.\<close>

definition configure_linux_tun_offload :: "bool \<Rightarrow> bool \<Rightarrow> bool \<Rightarrow> tun_offload_status" where
  "configure_linux_tun_offload vnet_hdr_ok offload_ok enable_gso =
    (if \<not> vnet_hdr_ok then offload_disabled ''TUNSETVNETHDRSZ failed''
     else if \<not> enable_gso then offload_disabled ''disabled by peer capability''
     else if \<not> offload_ok then offload_disabled ''TUNSETOFFLOAD(TSO4/TSO6) failed''
     else offload_enabled)"

definition configure_tun_ipv6 ::
  "('n4, 'n6) addr_text \<Rightarrow> (8 word \<Rightarrow> string) \<Rightarrow> 'os ip_command \<Rightarrow> string \<Rightarrow> 128 word \<Rightarrow> 8 word \<Rightarrow> 'os \<Rightarrow>
     'os \<times> (('n4, 'n6) vpn_error + unit)" where
  "configure_tun_ipv6 fmt show_u8 ip tun_name addr prefix_length os =
    (case ip os [''-6'', ''addr'', ''add'', show_ip fmt (V6 addr) @ ''/'' @ show_u8 prefix_length, ''dev'', tun_name] of
       (os', Inl e) \<Rightarrow> (os', Inl (TunDevice ''Failed to configure IPv6''))
     | (os', Inr output) \<Rightarrow>
         (os', if \<not> cmd_success output \<and> \<not> is_already_exists_error (cmd_stderr output)
               then Inl (TunDevice ''IPv6 configuration failed'') else Inr ()))"

record tun_device =
  td_name :: string
  td_mtu :: "16 word"
  td_vnet_hdr_enabled :: bool
  td_offload_status :: tun_offload_status

text \<open>What the \<open>tun\<close> crate is asked for, and how it answers: the device's name, or a failure to get
  it, or a failure to create it.\<close>

record tun_request =
  tq_mtu :: "16 word"
  tq_address :: "32 word"
  tq_netmask :: "32 word"
  tq_destination :: "32 word"
  tq_name :: "string option"
  tq_vnet_hdr :: bool

type_synonym 'os tun_create = "'os \<Rightarrow> tun_request \<Rightarrow> 'os \<times> (string + (string + string))"

definition tun_device_create ::
  "('n4, 'n6) addr_text \<Rightarrow> (8 word \<Rightarrow> string) \<Rightarrow> 'os ip_command \<Rightarrow> 'os tun_create \<Rightarrow> bool \<Rightarrow> bool \<Rightarrow> tun_config \<Rightarrow> 'os \<Rightarrow>
     'os \<times> (('n4, 'n6) vpn_error + tun_device)" where
  "tun_device_create fmt show_u8 ip create_as_async vnet_hdr_ok offload_ok config os =
    (case create_as_async os \<lparr> tq_mtu = tc_mtu config, tq_address = tc_address config, tq_netmask = tc_netmask config,
         tq_destination = tc_destination config, tq_name = tc_name config, tq_vnet_hdr = True \<rparr> of
       (os1, Inl e) \<Rightarrow> (os1, Inl (TunDevice ''Failed to create TUN device''))
     | (os1, Inr (Inl e)) \<Rightarrow> (os1, Inl (TunDevice ''Failed to get TUN name''))
     | (os1, Inr (Inr name)) \<Rightarrow>
         let offload_status = configure_linux_tun_offload vnet_hdr_ok offload_ok (tc_enable_gso config);
             device = \<lparr> td_name = name, td_mtu = tc_mtu config, td_vnet_hdr_enabled = True, td_offload_status = offload_status \<rparr> in
         (case (tc_address6 config, tc_prefix_len6 config) of
            (Some addr6, Some prefix) \<Rightarrow>
              (case configure_tun_ipv6 fmt show_u8 ip name addr6 prefix os1 of
                 (os2, Inl e) \<Rightarrow> (os2, Inl e)
               | (os2, Inr _) \<Rightarrow> (os2, Inr device))
          | _ \<Rightarrow> (os1, Inr device)))"

definition buffer_size :: "nat \<Rightarrow> tun_device \<Rightarrow> nat" where
  "buffer_size pi_len d = (if td_vnet_hdr_enabled d then 65535 + VIRTIO_NET_HDR_LEN else unat (td_mtu d) + pi_len)"

section \<open>Client and server\<close>

definition client_tun_config ::
  "('n4, 'n6) ipnet \<Rightarrow> ('n4 \<Rightarrow> 32 word) \<Rightarrow> ('n4, 'n6) server_info \<Rightarrow> ('n4, 'n6) vpn_error + tun_config" where
  "client_tun_config lib netmask info =
    and_then
      (case (si_assigned_ip info, si_network info, si_server_ip info, si_assigned_ip6 info, si_network6 info, si_server_ip6 info) of
         (Some ip4, Some net4, Some gw4, Some ip6, Some net6, Some _) \<Rightarrow>
           with_ipv6 ip6 (of_nat (prefix_len (ops6 lib) net6)) (with_mtu VPN_MTU (tun_config_new ip4 (netmask net4) gw4))
       | (Some ip4, Some net4, Some gw4, None, None, None) \<Rightarrow>
           Inr (with_mtu VPN_MTU (tun_config_new ip4 (netmask net4) gw4))
       | (None, None, None, Some ip6, Some net6, Some _) \<Rightarrow>
           ipv6_only ip6 (of_nat (prefix_len (ops6 lib) net6)) VPN_MTU
       | _ \<Rightarrow> Inl (Signaling ''Invalid server info: need at least one complete IP configuration''))
      (\<lambda>c. Inr (with_gso True c))"

definition create_tun_device ::
  "('n4, 'n6) ipnet \<Rightarrow> ('n4 \<Rightarrow> 32 word) \<Rightarrow> (tun_config \<Rightarrow> 'os \<Rightarrow> 'os \<times> (('n4, 'n6) vpn_error + tun_device)) \<Rightarrow>
     ('n4, 'n6) server_info \<Rightarrow> 'os \<Rightarrow> 'os \<times> (('n4, 'n6) vpn_error + tun_device)" where
  "create_tun_device lib netmask create info os =
    (case client_tun_config lib netmask info of
       Inl e \<Rightarrow> (os, Inl e)
     | Inr tun_config \<Rightarrow> create tun_config os)"

definition setup_tun ::
  "('n4, 'n6) ipnet \<Rightarrow> ('n4 \<Rightarrow> 32 word) \<Rightarrow> (tun_config \<Rightarrow> 'os \<Rightarrow> 'os \<times> (('n4, 'n6) vpn_error + tun_device)) \<Rightarrow>
     ('n4, 'n6, 'e, 'c) vpn_server \<Rightarrow> 'os \<Rightarrow> 'os \<times> (('n4, 'n6) vpn_error + tun_device)" where
  "setup_tun lib netmask create sv os =
    (let v4 = map_option (\<lambda>pool. (p4_server_ip pool, netmask (p4_network pool))) (sv_ip_pool sv);
         v6 = map_option (\<lambda>pool. (p6_server_ip pool, of_nat (prefix_len (ops6 lib) (p6_network pool)))) (sv_ip6_pool sv);
         tun_config = (case (v4, v6) of
             (Some (ip4, mask4), Some (ip6, pl6)) \<Rightarrow> with_ipv6 ip6 pl6 (with_mtu VPN_MTU (tun_config_new ip4 mask4 ip4))
           | (Some (ip4, mask4), None) \<Rightarrow> Inr (with_mtu VPN_MTU (tun_config_new ip4 mask4 ip4))
           | (None, Some (ip6, pl6)) \<Rightarrow> ipv6_only ip6 pl6 VPN_MTU
           | (None, None) \<Rightarrow> Inl (Config ''No network configured (need at least IPv4 or IPv6)'')) in
     case tun_config of
       Inl e \<Rightarrow> (os, Inl e)
     | Inr c \<Rightarrow> create c os)"

section \<open>Well-formed configurations\<close>

definition host_byte :: "8 word \<Rightarrow> bool" where
  "host_byte b \<longleftrightarrow> 1 \<le> b \<and> b \<le> 254"

lemma host_byte_mod: "host_byte (b mod 254 + 1)"
proof -
  have "unat (b mod 254) < 254" by (simp add: unat_mod)
  then have "unat (b mod 254 + 1) = unat (b mod 254) + 1" by (simp add: unat_word_ariths)
  then show ?thesis using \<open>unat (b mod 254) < 254\<close> by (simp add: host_byte_def word_le_nat_alt)
qed

text \<open>The addresses are those assigned; a device without an IPv4 address has a link-local
  placeholder that is neither a network nor a broadcast address.\<close>

definition wf_tun_config :: "tun_config \<Rightarrow> 32 word option \<Rightarrow> 128 word option \<Rightarrow> bool" where
  "wf_tun_config c ip4 ip6 \<longleftrightarrow> tc_mtu c = VPN_MTU \<and> tc_enable_gso c \<and> tc_address6 c = ip6 \<and>
    (case tc_prefix_len6 c of None \<Rightarrow> ip6 = None | Some p \<Rightarrow> ip6 \<noteq> None \<and> p \<le> 128) \<and>
    (case ip4 of
       Some a \<Rightarrow> tc_address c = a
     | None \<Rightarrow> (\<exists>x y. host_byte x \<and> host_byte y \<and> tc_address c = from_be_bytes [169, 254, x, y]) \<and>
         tc_destination c = tc_address c \<and> tc_netmask c = - 1)"

lemma prefix_u8:
  assumes "lawful_ipnet lib"
  shows "(of_nat (prefix_len (ops6 lib) net) :: 8 word) \<le> 128"
proof -
  have "prefix_len (ops6 lib) net \<le> LENGTH(128)"
    using assms lawful_netD(1) [of "ops6 lib" net] by (simp add: lawful_ipnet_def)
  then have "unat (of_nat (prefix_len (ops6 lib) net) :: 8 word) \<le> 128" by (simp add: unat_of_nat)
  then show ?thesis by (simp add: word_le_nat_alt)
qed

lemma validate_prefix_len6_ok: "p \<le> 128 \<Longrightarrow> validate_prefix_len6 p = Inr ()"
  by (simp add: validate_prefix_len6_def not_less)

lemma full_netmask: "from_be_bytes [255, 255, 255, 255] = (- 1 :: 32 word)"
  by (simp add: from_be_bytes_def)

lemma ipv6_only_wf:
  assumes "p \<le> 128"
  shows "\<exists>c. ipv6_only ip6 p VPN_MTU = Inr c \<and> wf_tun_config c None (Some ip6)"
  using assms host_byte_mod
  by (auto simp: ipv6_only_def validate_prefix_len6_ok wf_tun_config_def placeholder_ip_def Let_def full_netmask)

lemma dual_wf:
  assumes "p \<le> 128"
  shows "\<exists>c. with_ipv6 ip6 p (with_mtu VPN_MTU (tun_config_new ip4 m d)) = Inr c \<and> wf_tun_config c (Some ip4) (Some ip6)"
  using assms by (simp add: with_ipv6_def validate_prefix_len6_ok wf_tun_config_def with_mtu_def tun_config_new_def)

lemma ipv4_wf: "wf_tun_config (with_mtu VPN_MTU (tun_config_new ip4 m d)) (Some ip4) None"
  by (simp add: wf_tun_config_def with_mtu_def tun_config_new_def)

lemma with_gso_wf: "wf_tun_config c ip4 ip6 \<Longrightarrow> wf_tun_config (with_gso True c) ip4 ip6"
  by (cases ip4) (simp_all add: wf_tun_config_def with_gso_def)

lemma response_info_families:
  assumes "response_info r = Inr info"
  shows "(si_assigned_ip info \<noteq> None \<or> si_assigned_ip6 info \<noteq> None) \<and>
    (si_network info = None \<longleftrightarrow> si_assigned_ip info = None) \<and> (si_server_ip info = None \<longleftrightarrow> si_assigned_ip info = None) \<and>
    (si_network6 info = None \<longleftrightarrow> si_assigned_ip6 info = None) \<and> (si_server_ip6 info = None \<longleftrightarrow> si_assigned_ip6 info = None)"
  using assms
  by (auto simp: response_info_def family_fields_def and_then_eq_Inr_iff split: if_splits option.splits)

lemma map_sum_not_None: "map_sum id Some z \<noteq> Inr None"
  by (cases z) simp_all

lemma vpn_server_new_pools:
  assumes "vpn_server_new lib nl lock config server_id = Some (Inr sv)"
  shows "sv_ip_pool sv \<noteq> None \<or> sv_ip6_pool sv \<noteq> None"
proof -
  have "server_config_validate lib config = Inr ()"
    using assms by (auto simp: vpn_server_new_def split: sum.splits)
  then have "sc_network config \<noteq> None \<or> sc_network6 config \<noteq> None"
    by (simp add: server_config_validate_def validate_vpn_networks_Inr)
  then show ?thesis
    using assms by (auto simp: vpn_server_new_def map_sum_not_None split: sum.split_asm option.split_asm Option.bind_split_asm)
qed

lemma client_tun_config_wf:
  fixes info :: "('n4, 'n6) server_info"
  assumes "lawful_ipnet lib"
    and "(si_assigned_ip info \<noteq> None \<or> si_assigned_ip6 info \<noteq> None) \<and>
      (si_network info = None \<longleftrightarrow> si_assigned_ip info = None) \<and> (si_server_ip info = None \<longleftrightarrow> si_assigned_ip info = None) \<and>
      (si_network6 info = None \<longleftrightarrow> si_assigned_ip6 info = None) \<and> (si_server_ip6 info = None \<longleftrightarrow> si_assigned_ip6 info = None)"
  shows "\<exists>c. client_tun_config lib netmask info = Inr c \<and> wf_tun_config c (si_assigned_ip info) (si_assigned_ip6 info)"
proof -
  note p = prefix_u8 [OF assms(1)]
  consider (dual) a n g a6 n6 g6 where "si_assigned_ip info = Some a" "si_network info = Some n" "si_server_ip info = Some g"
      "si_assigned_ip6 info = Some a6" "si_network6 info = Some n6" "si_server_ip6 info = Some g6"
    | (v4) a n g where "si_assigned_ip info = Some a" "si_network info = Some n" "si_server_ip info = Some g"
      "si_assigned_ip6 info = None" "si_network6 info = None" "si_server_ip6 info = None"
    | (v6) a6 n6 g6 where "si_assigned_ip info = None" "si_network info = None" "si_server_ip info = None"
      "si_assigned_ip6 info = Some a6" "si_network6 info = Some n6" "si_server_ip6 info = Some g6"
    using assms(2) by (metis option.exhaust)
  then show ?thesis
  proof cases
    case dual
    obtain c where "(with_ipv6 a6 (of_nat (prefix_len (ops6 lib) n6)) (with_mtu VPN_MTU (tun_config_new a (netmask n) g))
        :: ('n4, 'n6) vpn_error + tun_config) = Inr c" "wf_tun_config c (Some a) (Some a6)" using dual_wf [OF p] by blast
    then show ?thesis using dual by (simp add: client_tun_config_def with_gso_wf)
  next
    case v4
    then show ?thesis by (simp add: client_tun_config_def with_gso_wf ipv4_wf)
  next
    case v6
    obtain c where "(ipv6_only a6 (of_nat (prefix_len (ops6 lib) n6)) VPN_MTU :: ('n4, 'n6) vpn_error + tun_config) = Inr c"
      "wf_tun_config c None (Some a6)" using ipv6_only_wf [OF p] by blast
    then show ?thesis using v6 by (simp add: client_tun_config_def with_gso_wf)
  qed
qed

text \<open>C10. Every response a client accepts, and every configuration a server starts with, gives a
  well-formed TUN configuration: the fixed MTU, the addresses of exactly the assigned families, an
  IPv6 prefix length of at most 128, and, without IPv4, a placeholder address from 169.254.1.1 to
  169.254.254.254. The branches that refuse an address combination are never reached.\<close>

theorem tun_configs_wf:
  fixes lib :: "('n4, 'n6) ipnet" and netmask :: "'n4 \<Rightarrow> 32 word"
  assumes "lawful_ipnet lib"
  shows "(response_info r = Inr info \<longrightarrow>
      (\<exists>c. wf_tun_config c (si_assigned_ip info) (si_assigned_ip6 info) \<and>
        (\<forall>create (os :: 'os). create_tun_device lib netmask create info os = create c os))) \<and>
    (vpn_server_new lib nl lock config server_id = Some (Inr sv) \<longrightarrow>
      (\<exists>c. wf_tun_config c (map_option p4_server_ip (sv_ip_pool sv)) (map_option p6_server_ip (sv_ip6_pool sv)) \<and>
        (\<forall>create (os :: 'os). setup_tun lib netmask create sv os = create c os)))"
proof (intro conjI impI)
  note p = prefix_u8 [OF assms]
  show "\<exists>c. wf_tun_config c (si_assigned_ip info) (si_assigned_ip6 info) \<and>
        (\<forall>create (os :: 'os). create_tun_device lib netmask create info os = create c os)"
    if "response_info r = Inr info"
  proof -
    from client_tun_config_wf [OF assms response_info_families [OF that], of netmask] obtain c
      where "client_tun_config lib netmask info = Inr c" "wf_tun_config c (si_assigned_ip info) (si_assigned_ip6 info)" by (elim exE conjE)
    then show ?thesis by (intro exI [of _ c]) (simp add: create_tun_device_def)
  qed
  show "\<exists>c. wf_tun_config c (map_option p4_server_ip (sv_ip_pool sv)) (map_option p6_server_ip (sv_ip6_pool sv)) \<and>
        (\<forall>create (os :: 'os). setup_tun lib netmask create sv os = create c os)"
    if "vpn_server_new lib nl lock config server_id = Some (Inr sv)"
  proof (cases "sv_ip_pool sv"; cases "sv_ip6_pool sv")
    fix p4 p6 assume pools: "sv_ip_pool sv = Some p4" "sv_ip6_pool sv = Some p6"
    obtain c where "(with_ipv6 (p6_server_ip p6) (of_nat (prefix_len (ops6 lib) (p6_network p6)))
        (with_mtu VPN_MTU (tun_config_new (p4_server_ip p4) (netmask (p4_network p4)) (p4_server_ip p4)))
        :: ('n4, 'n6) vpn_error + tun_config) = Inr c" "wf_tun_config c (Some (p4_server_ip p4)) (Some (p6_server_ip p6))"
      using dual_wf [OF p] by blast
    then show ?thesis using pools by (intro exI [of _ c]) (simp add: setup_tun_def)
  next
    fix p4 assume "sv_ip_pool sv = Some p4" "sv_ip6_pool sv = None"
    then show ?thesis
      by (intro exI [of _ "with_mtu VPN_MTU (tun_config_new (p4_server_ip p4) (netmask (p4_network p4)) (p4_server_ip p4))"])
        (simp add: setup_tun_def ipv4_wf)
  next
    fix p6 assume pools: "sv_ip_pool sv = None" "sv_ip6_pool sv = Some p6"
    obtain c where "(ipv6_only (p6_server_ip p6) (of_nat (prefix_len (ops6 lib) (p6_network p6))) VPN_MTU
        :: ('n4, 'n6) vpn_error + tun_config) = Inr c" "wf_tun_config c None (Some (p6_server_ip p6))"
      using ipv6_only_wf [OF p] by blast
    then show ?thesis using pools by (intro exI [of _ c]) (simp add: setup_tun_def)
  qed (use vpn_server_new_pools [OF that] in simp)
qed

theorem tun_configs_wf_witness:
  "let info = \<lparr> si_assigned_ip = None, si_network = None, si_server_ip = None, si_assigned_ip6 = Some 5,
        si_network6 = Some (4, 126), si_server_ip6 = Some 4, si_server_addrs = [] \<rparr> in
    response_info \<lparr> hr_version = VPN_PROTOCOL_VERSION, hr_accepted = True, hr_assigned_ip = None, hr_network = None,
        hr_server_ip = None, hr_assigned_ip6 = Some 5, hr_network6 = Some (4, 126), hr_server_ip6 = Some 4,
        hr_reject_reason = None, hr_server_addrs = [] \<rparr> = (Inr info :: (32 word \<times> nat, 128 word \<times> nat) vpn_error + _) \<and>
    (\<exists>c. wf_tun_config c None (Some 5) \<and>
      create_tun_device cidr_ipnet (\<lambda>_. 0) (\<lambda>c os. (os @ [c], Inl (Signaling ''no device''))) info [] =
        ([c], Inl (Signaling ''no device'')))"
proof -
  let ?info = "\<lparr> si_assigned_ip = None, si_network = None, si_server_ip = None, si_assigned_ip6 = Some 5,
        si_network6 = Some (4, 126), si_server_ip6 = Some 4, si_server_addrs = [] \<rparr>
      :: (32 word \<times> nat, 128 word \<times> nat) server_info"
  let ?r = "\<lparr> hr_version = VPN_PROTOCOL_VERSION, hr_accepted = True, hr_assigned_ip = None, hr_network = None,
        hr_server_ip = None, hr_assigned_ip6 = Some 5, hr_network6 = Some (4, 126), hr_server_ip6 = Some 4,
        hr_reject_reason = None, hr_server_addrs = [] \<rparr> :: (32 word \<times> nat, 128 word \<times> nat) handshake_response"
  have r: "response_info ?r = Inr ?info" by (simp add: response_info_def family_fields_def)
  have "\<exists>c. wf_tun_config c (si_assigned_ip ?info) (si_assigned_ip6 ?info) \<and>
      (\<forall>create (os :: tun_config list). create_tun_device cidr_ipnet (\<lambda>_. 0) create ?info os = create c os)"
    by (rule conjunct1 [OF tun_configs_wf [OF lawful_cidr_ipnet], THEN mp, OF r])
  then obtain c where c: "wf_tun_config c (si_assigned_ip ?info) (si_assigned_ip6 ?info)"
      "\<forall>create (os :: tun_config list). create_tun_device cidr_ipnet (\<lambda>_. 0) create ?info os = create c os" by (elim exE conjE)
  show ?thesis unfolding Let_def using r c(1) by (intro conjI exI [of _ c]) (simp_all add: c(2) [THEN spec, THEN spec])
qed

end
