(* ===== verification/Spec2Isabelle.thy ===== *)
theory Spec2Isabelle
  imports Local_Networks Server_Session Path_Selector Client_Reconnect Heartbeat Client_Tunnel Tun_Config
begin

text \<open>
  \<^bold>\<open>ezvpn: a verification development\<close>

  The program is a layer-3 VPN over QUIC: a server that owns an overlay network
  and leases addresses to clients, clients that route traffic into a TUN device,
  and a signalling handshake plus datagram data plane between the two.
\<close>

end
